(* ===== verification/Prelude.thy ===== *)
theory Prelude imports Main "HOL-Library.AList" "HOL-Library.Multiset" "HOL-Library.Word" begin

text \<open>
  What the components of the development share: the Go types of the standard library that the
  code uses (instants and durations of package time, error values, strings), finite maps as
  Go's range statement sees them, and event-driven machines with their reachable states and
  the contract of an inductive invariant.
\<close>

section \<open>Collections of rewrite rules\<close>

named_theorems go_defs \<open>definitions of the modelled operations\<close>
named_theorems go_frame \<open>fields that an operation leaves alone\<close>

section \<open>Package time\<close>

text \<open>
  An instant is its distance in nanoseconds from the zero value of Go's Time (January 1 of
  year 1), so the zero value is 0. A Duration is a signed 64-bit count of nanoseconds.
  Instants never leave the range of an int64 count of seconds, so they are unbounded here.
  Time.Sub saturates at the two ends of the range of Duration, as the library documents.
\<close>

type_synonym time = int
type_synonym duration = int

abbreviation time_zero :: time where "time_zero \<equiv> 0"

definition IsZero :: "time \<Rightarrow> bool" where
  "IsZero t \<longleftrightarrow> t = time_zero"

abbreviation After :: "time \<Rightarrow> time \<Rightarrow> bool" where "After t u \<equiv> u < t"
abbreviation Before :: "time \<Rightarrow> time \<Rightarrow> bool" where "Before t u \<equiv> t < u"
abbreviation TimeAdd :: "time \<Rightarrow> duration \<Rightarrow> time" where "TimeAdd t d \<equiv> t + d"

definition minDuration :: duration where "minDuration = - (2 ^ 63)"
definition maxDuration :: duration where "maxDuration = 2 ^ 63 - 1"

definition TimeSub :: "time \<Rightarrow> time \<Rightarrow> duration" where
  "TimeSub t u = max minDuration (min maxDuration (t - u))"

abbreviation Second :: duration where "Second \<equiv> 1000000000"
abbreviation Minute :: duration where "Minute \<equiv> 60000000000"

lemma TimeSub_exact:
  "minDuration \<le> t - u \<Longrightarrow> t - u \<le> maxDuration \<Longrightarrow> TimeSub t u = t - u"
  by (simp add: TimeSub_def)

lemma TimeSub_self [simp]: "TimeSub t t = 0"
  by (simp add: TimeSub_def minDuration_def maxDuration_def)

section \<open>Error values\<close>

text \<open>
  A Go error is nil (\<open>None\<close>) or a value with an identity and a text. The sentinel values that
  the code declares and compares against are constructors of their own; any other error carries
  an identity, since two errors with one text are different values under ==.
\<close>

datatype gerr =
    ErrCacheClosed
  | ErrSinkClosed
  | ErrHelperClosed
  | ErrMonitorClosed
  | ErrConfigClosed
  | ErrDomainLookupFailed
  | ErrDisconnected
  | ErrUnresponsive
  | ErrZeroWorkers
  | ErrCanceled
  | ErrDeadlineExceeded
  | ErrEOF
  | ErrOther nat string

fun Error :: "gerr \<Rightarrow> string" where
  "Error ErrCacheClosed = ''the cache is closing or already closed''"
| "Error ErrSinkClosed = ''value sink is closing or already closed''"
| "Error ErrHelperClosed = ''interface is closing or already closed''"
| "Error ErrMonitorClosed = ''monitor is closing or already closed''"
| "Error ErrConfigClosed = ''interface is closing or already closed''"
| "Error ErrDomainLookupFailed = ''unable to determine DFSR configuration domain''"
| "Error ErrDisconnected = ''the server is disconnected or offline''"
| "Error ErrUnresponsive = ''the server is unresponsive''"
| "Error ErrZeroWorkers = ''no workers were specified for the limiter''"
| "Error ErrCanceled = ''context canceled''"
| "Error ErrDeadlineExceeded = ''context deadline exceeded''"
| "Error ErrEOF = ''EOF''"
| "Error (ErrOther i s) = s"

text \<open>The result of a function that may panic.\<close>

datatype 'a outcome = Panic string | Ret 'a

section \<open>Identifiers\<close>

type_synonym uuid = "128 word"

section \<open>Package strings\<close>

text \<open>
  Strings are lists of bytes. Case mapping is given on ASCII, which is what host names,
  attribute types and class names of the directory are made of; a byte above 127 is kept.
\<close>

definition lower_char :: "char \<Rightarrow> char" where
  "lower_char c = (if (65::nat) \<le> of_char c \<and> of_char c \<le> (90::nat) then char_of (of_char c + 32 :: nat) else c)"

definition upper_char :: "char \<Rightarrow> char" where
  "upper_char c = (if (97::nat) \<le> of_char c \<and> of_char c \<le> (122::nat) then char_of (of_char c - 32 :: nat) else c)"

definition ToLower :: "string \<Rightarrow> string" where "ToLower s = map lower_char s"
definition ToUpper :: "string \<Rightarrow> string" where "ToUpper s = map upper_char s"

fun HasPrefix :: "string \<Rightarrow> string \<Rightarrow> bool" where
  "HasPrefix s [] = True"
| "HasPrefix [] (p # ps) = False"
| "HasPrefix (c # s) (p # ps) = (c = p \<and> HasPrefix s ps)"

definition TrimPrefix :: "string \<Rightarrow> string \<Rightarrow> string" where
  "TrimPrefix s p = (if HasPrefix s p then drop (length p) s else s)"

fun Contains :: "string \<Rightarrow> string \<Rightarrow> bool" where
  "Contains [] p = (p = [])"
| "Contains (c # s) p = (HasPrefix (c # s) p \<or> Contains s p)"

fun Join :: "string list \<Rightarrow> string \<Rightarrow> string" where
  "Join [] sep = []"
| "Join [x] sep = x"
| "Join (x # y # ys) sep = x @ sep @ Join (y # ys) sep"

text \<open>strings.Split with a separator of one byte.\<close>

fun Split :: "string \<Rightarrow> char \<Rightarrow> string list" where
  "Split [] sep = [[]]"
| "Split (c # s) sep =
     (if c = sep then [] # Split s sep
      else (case Split s sep of [] \<Rightarrow> [[c]] | p # ps \<Rightarrow> (c # p) # ps))"

lemma HasPrefix_iff: "HasPrefix s p \<longleftrightarrow> (\<exists>t. s = p @ t)"
  by (induction s p rule: HasPrefix.induct) auto

lemma HasPrefix_append [simp]: "HasPrefix (p @ s) p"
  by (auto simp: HasPrefix_iff)

lemma TrimPrefix_append [simp]: "TrimPrefix (p @ s) p = s"
  by (simp add: TrimPrefix_def)

lemma Contains_iff: "Contains s p \<longleftrightarrow> (\<exists>a b. s = a @ p @ b)"
proof (induction s)
  case (Cons c s)
  have "(\<exists>a b. c # s = a @ p @ b) \<longleftrightarrow> (\<exists>b. c # s = p @ b) \<or> (\<exists>a b. s = a @ p @ b)"
    by (metis Cons_eq_append_conv append_Cons append_Nil)
  then show ?case using Cons by (simp add: HasPrefix_iff)
qed auto

lemma Split_not_Nil [simp]: "Split s c \<noteq> []"
  by (cases s) (auto split: list.splits)

lemma Join_Split: "Join (Split s c) [c] = s"
proof (induction s)
  case (Cons a s)
  then show ?case
    by (cases "Split s c") (auto simp: neq_Nil_conv, (metis Join.simps(2,3) append_Cons neq_Nil_conv)+)
qed simp

lemma lower_char_idem [simp]: "lower_char (lower_char c) = lower_char c"
proof (cases "(65::nat) \<le> (of_char c :: nat) \<and> of_char c \<le> (90::nat)")
  case True
  then have "(of_char (lower_char c) :: nat) = of_char c + 32"
    by (simp add: lower_char_def)
  with True show ?thesis
    by (subst lower_char_def [of "lower_char c"]) auto
qed (auto simp: lower_char_def)

lemma ToLower_idem [simp]: "ToLower (ToLower s) = ToLower s"
  by (simp add: ToLower_def)

text \<open>The decimal digits of a natural number, as fmt prints it.\<close>

fun show_nat :: "nat \<Rightarrow> string" where
  "show_nat n = (if n < 10 then [char_of (48 + n)] else show_nat (n div 10) @ [char_of (48 + n mod 10)])"

declare show_nat.simps [simp del]

section \<open>Finite maps with a range statement\<close>

text \<open>
  What the components rely on of a Go map: lookups after insertions and deletions, and for the
  loops over a whole map the list of its entries, each key once, in an order that nothing may
  depend on. The clients' facts about the entries are multisets for that reason.
\<close>

locale go_map =
  fixes look :: "'m \<Rightarrow> 'k \<Rightarrow> 'v option"
    and put :: "'k \<Rightarrow> 'v \<Rightarrow> 'm \<Rightarrow> 'm"
    and del :: "'k \<Rightarrow> 'm \<Rightarrow> 'm"
    and entries :: "'m \<Rightarrow> ('k \<times> 'v) list"
    and ok :: "'m \<Rightarrow> bool"
  assumes look_put: "look (put k v m) k' = (if k = k' then Some v else look m k')"
    and look_del: "ok m \<Longrightarrow> look (del k m) k' = (if k = k' then None else look m k')"
    and ok_put: "ok m \<Longrightarrow> ok (put k v m)"
    and ok_del: "ok m \<Longrightarrow> ok (del k m)"
    and entries_look: "ok m \<Longrightarrow> (k, v) \<in> set (entries m) \<longleftrightarrow> look m k = Some v"
    and entries_put: "ok m \<Longrightarrow> look m k = None \<Longrightarrow>
      mset (entries (put k v m)) = add_mset (k, v) (mset (entries m))"
    and entries_del: "ok m \<Longrightarrow> look m k = Some v \<Longrightarrow>
      mset (entries m) = add_mset (k, v) (mset (entries (del k m)))"
    and del_absent: "look m k = None \<Longrightarrow> del k m = m"
begin

lemma look_replace: "ok m \<Longrightarrow> look (put k v (del k m)) k' = (if k = k' then Some v else look m k')"
  by (simp add: look_put look_del)

lemma entries_replace:
  assumes "ok m"
  shows "mset (entries (put k v (del k m))) =
    add_mset (k, v) (mset (entries m) - (case look m k of None \<Rightarrow> {#} | Some w \<Rightarrow> {#(k, w)#}))"
  using assms
  by (cases "look m k") (auto simp: entries_put look_del ok_del del_absent entries_del)

lemma total_del:
  fixes f :: "'k \<times> 'v \<Rightarrow> 'a multiset"
  assumes "ok m" "look m k = Some v"
  shows "(\<Sum>e\<in>#mset (entries m). f e) = f (k, v) + (\<Sum>e\<in>#mset (entries (del k m)). f e)"
  using entries_del [OF assms] by simp

lemma total_put:
  fixes f :: "'k \<times> 'v \<Rightarrow> 'a multiset"
  assumes "ok m" "look m k = None"
  shows "(\<Sum>e\<in>#mset (entries (put k v m)). f e) = f (k, v) + (\<Sum>e\<in>#mset (entries m). f e)"
  using entries_put [OF assms] by simp

end

text \<open>The maps of the model are association lists without a repeated key.\<close>

definition ok_map :: "('k \<times> 'v) list \<Rightarrow> bool" where
  "ok_map m \<longleftrightarrow> distinct (map fst m)"

definition map_entries :: "('k \<times> 'v) list \<Rightarrow> ('k \<times> 'v) list" where
  [simp]: "map_entries m = m"

lemma ok_map_Nil [simp]: "ok_map []"
  by (simp add: ok_map_def)

lemma AList_delete_absent: "map_of m k = None \<Longrightarrow> AList.delete k m = m"
  by (induction m) (auto split: if_splits)

lemma AList_update_absent: "map_of m k = None \<Longrightarrow> mset (AList.update k v m) = add_mset (k, v) (mset m)"
  by (induction m) (auto split: if_splits)

lemma AList_delete_present:
  "distinct (map fst m) \<Longrightarrow> map_of m k = Some v \<Longrightarrow>
   mset m = add_mset (k, v) (mset (AList.delete k m))"
proof (induction m)
  case (Cons p m)
  show ?case
  proof (cases "fst p = k")
    case True
    with Cons.prems have "map_of m k = None"
      by (auto simp: map_of_eq_None_iff)
    with True Cons.prems show ?thesis
      by (cases p) (auto simp: AList_delete_absent)
  next
    case False
    with Cons show ?thesis by (cases p) auto
  qed
qed simp

interpretation amap: go_map map_of AList.update AList.delete map_entries ok_map
  by unfold_locales
    (auto simp: update_conv' delete_conv' ok_map_def distinct_update distinct_delete
       AList_update_absent AList_delete_present AList_delete_absent)

section \<open>Counting the members of a list\<close>

text \<open>How many goroutines of a list are at a point of the code, and how an event changes it.\<close>

definition howmany :: "('a \<Rightarrow> bool) \<Rightarrow> 'a list \<Rightarrow> nat" where
  "howmany P xs = length (filter P xs)"

lemma howmany_simps [simp]:
  "howmany P [] = 0"
  "howmany P (x # xs) = (if P x then 1 else 0) + howmany P xs"
  "howmany P (xs @ ys) = howmany P xs + howmany P ys"
  by (simp_all add: howmany_def)

lemma howmany_replicate [simp]: "howmany P (replicate n x) = (if P x then n else 0)"
  by (simp add: howmany_def)

lemma howmany_update:
  "k < length xs \<Longrightarrow> howmany P (xs[k := y]) + (if P (xs ! k) then 1 else 0) = howmany P xs + (if P y then 1 else 0)"
proof (induction xs arbitrary: k)
  case (Cons x xs)
  show ?case
  proof (cases k)
    case (Suc m)
    with Cons show ?thesis by (metis Suc_less_eq ab_semigroup_add_class.add_ac(1) howmany_simps(2) length_Cons
          list_update_code(3) nth_Cons_Suc)
  qed simp
qed simp

lemma howmany_zero: "howmany P xs = 0 \<longleftrightarrow> list_all (\<lambda>x. \<not> P x) xs"
  by (induction xs) auto

lemma howmany_pos: "k < length xs \<Longrightarrow> P (xs ! k) \<Longrightarrow> 0 < howmany P xs"
  by (metis bot_nat_0.not_eq_extremum howmany_zero list_all_length)

section \<open>Event-driven machines\<close>

text \<open>
  A component with concurrent callers is a machine: \<open>step e s\<close> is the state after the event
  \<open>e\<close>, or None where the event cannot happen (the goroutine is blocked, or is not at that
  point). An event is one atomic section of one goroutine; a run is a list of events, chosen
  by the scheduler and the environment.
\<close>

fun run :: "('e \<Rightarrow> 's \<Rightarrow> 's option) \<Rightarrow> 's \<Rightarrow> 'e list \<Rightarrow> 's option" where
  "run step s [] = Some s"
| "run step s (e # es) = (case step e s of None \<Rightarrow> None | Some t \<Rightarrow> run step t es)"

inductive reach :: "('e \<Rightarrow> 's \<Rightarrow> 's option) \<Rightarrow> ('s \<Rightarrow> bool) \<Rightarrow> 's \<Rightarrow> bool"
  for step :: "'e \<Rightarrow> 's \<Rightarrow> 's option" and init :: "'s \<Rightarrow> bool" where
  reach_init: "init s \<Longrightarrow> reach step init s"
| reach_step: "reach step init s \<Longrightarrow> step e s = Some t \<Longrightarrow> reach step init t"

lemma run_append:
  "run step s (es @ fs) = (case run step s es of None \<Rightarrow> None | Some t \<Rightarrow> run step t fs)"
  by (induction es arbitrary: s) (auto split: option.splits)

lemma reach_run: "reach step init s \<Longrightarrow> run step s es = Some t \<Longrightarrow> reach step init t"
  by (induction es arbitrary: s) (auto split: option.splits intro: reach_step)

lemma run_reach: "init s \<Longrightarrow> run step s es = Some t \<Longrightarrow> reach step init t"
  by (blast intro: reach_init reach_run)

locale inductive_invariant =
  fixes step :: "'e \<Rightarrow> 's \<Rightarrow> 's option"
    and init :: "'s \<Rightarrow> bool"
    and inv :: "'s \<Rightarrow> bool"
  assumes init_inv: "init s \<Longrightarrow> inv s"
    and step_inv: "inv s \<Longrightarrow> step e s = Some t \<Longrightarrow> inv t"
begin

lemma reach_inv: "reach step init s \<Longrightarrow> inv s"
  by (induction rule: reach.induct) (auto intro: init_inv step_inv)

lemma run_inv: "inv s \<Longrightarrow> run step s es = Some t \<Longrightarrow> inv t"
  by (induction es arbitrary: s) (auto split: option.splits intro: step_inv)

end

text \<open>A state that no event leaves: what a component cannot recover from.\<close>

locale trap = inductive_invariant step "\<lambda>_. False" stuck
  for step :: "'e \<Rightarrow> 's \<Rightarrow> 's option" and stuck :: "'s \<Rightarrow> bool"
begin

lemma stays: "stuck s \<Longrightarrow> run step s es = Some t \<Longrightarrow> stuck t"
  by (rule run_inv)

end

end
