(* ===== verification/Callstat.thy ===== *)
theory Callstat imports Prelude begin

text \<open>
  Package callstat (callstat/call.go): the record of a call with its inner calls. Methods with a
  pointer receiver return the new record; the instant that time.Now() reads is an argument.
\<close>

datatype Call = MkCall (Description: string) (Start: time) (End: time) (Err: "gerr option") (Inner: "Call list")

definition Call_zero :: Call where
  "Call_zero = MkCall [] time_zero time_zero None []"

definition Call_Duration :: "Call \<Rightarrow> duration" where
  "Call_Duration c = TimeSub (End c) (Start c)"

definition Call_Begin :: "time \<Rightarrow> string \<Rightarrow> Call \<Rightarrow> Call" where
  "Call_Begin now description c = MkCall description now (End c) (Err c) (Inner c)"

definition Call_Complete :: "time \<Rightarrow> gerr option \<Rightarrow> Call \<Rightarrow> Call" where
  "Call_Complete now err c =
     MkCall (Description c) (if IsZero (Start c) then now else Start c) now err (Inner c)"

definition Call_Add :: "Call \<Rightarrow> Call \<Rightarrow> Call" where
  "Call_Add inner c = MkCall (Description c) (Start c) (End c) (Err c) (Inner c @ [inner])"

text \<open>
  String, with the rendering of a duration as seconds (fmt's verb for floating point) given as
  an argument.
\<close>

fun Call_String :: "(duration \<Rightarrow> string) \<Rightarrow> Call \<Rightarrow> string" where
  "Call_String secs (MkCall d s e err inner) =
     (let desc = (if d = [] then ''Call'' else d);
          seconds = secs (TimeSub e s)
      in if inner = [] then desc @ '' '' @ seconds
         else desc @ '' '' @ seconds @ '' ('' @ Join (map (Call_String secs) inner) '', '' @ '')'')"

text \<open>
  The statement defer call.Complete(err) evaluates its argument where it stands. Every function
  that starts with it has not assigned err at that point, so the deferred call completes the
  record with the nil error, whatever the function returns.
\<close>

definition deferred_Complete :: "time \<Rightarrow> Call \<Rightarrow> Call" where
  "deferred_Complete now c = Call_Complete now None c"

lemma Begin_sel [simp]:
  "Description (Call_Begin t d c) = d" "Start (Call_Begin t d c) = t" "End (Call_Begin t d c) = End c"
  "Err (Call_Begin t d c) = Err c" "Inner (Call_Begin t d c) = Inner c"
  by (simp_all add: Call_Begin_def)

lemma Complete_sel [simp]:
  "Description (Call_Complete t e c) = Description c" "End (Call_Complete t e c) = t"
  "Err (Call_Complete t e c) = e" "Inner (Call_Complete t e c) = Inner c"
  "Start (Call_Complete t e c) = (if IsZero (Start c) then t else Start c)"
  by (simp_all add: Call_Complete_def)

lemma Add_sel [simp]:
  "Description (Call_Add i c) = Description c" "Start (Call_Add i c) = Start c" "End (Call_Add i c) = End c"
  "Err (Call_Add i c) = Err c" "Inner (Call_Add i c) = Inner c @ [i]"
  by (simp_all add: Call_Add_def)

lemma deferred_sel [simp]:
  "Description (deferred_Complete t c) = Description c" "End (deferred_Complete t c) = t"
  "Err (deferred_Complete t c) = None" "Inner (deferred_Complete t c) = Inner c"
  "Start (deferred_Complete t c) = (if IsZero (Start c) then t else Start c)"
  by (simp_all add: deferred_Complete_def)

text \<open>A completed call that was never begun has taken no time.\<close>

lemma Complete_unstarted: "IsZero (Start c) \<Longrightarrow> Call_Duration (Call_Complete now err c) = 0"
  by (simp add: Call_Duration_def)

lemma Complete_started:
  "t \<noteq> time_zero \<Longrightarrow> Call_Duration (Call_Complete u err (Call_Begin t d c)) = TimeSub u t"
  by (simp add: Call_Duration_def IsZero_def)

end
