(* ===== verification/Cache.thy ===== *)
theory Cache imports Prelude begin

text \<open>
  Package cache (cache/cache.go): the expiring cache with pass-through lookups.

  First the operations that run under the cache's lock, as functions on the record of the
  struct's fields, in the order of the file; the effects they leave behind (calls of Release or
  Close on their own goroutines, a cleanup goroutine) are fields as well. Then the machine: the
  lock, callers of Value and Lookup at their program points, the retrieve goroutines with the
  pending entries they share, and the cleanup goroutine. A section between taking and releasing
  the lock is one event; the sections that return without releasing it leave it held.
\<close>

section \<open>Data\<close>

text \<open>
  A Value is an interface value: None is nil. Which of the three interfaces of release a
  dynamic value implements is a property of its type, given by \<open>methods\<close>.
\<close>

record iface_methods =
  has_Release :: bool
  has_Close :: bool
  has_ioClose :: bool

datatype 'v release_call = CallRelease 'v | CallClose 'v | CallIoClose 'v

record ('k, 'v) cacheEntry =
  ce_Timestamp :: time
  ce_Key :: 'k
  ce_Value :: "'v option"

record 'v pendingEntry =
  pe_WG :: int
  pe_Value :: "'v option"
  pe_Err :: "gerr option"

record 'k logEntry =
  le_Timestamp :: time
  le_Key :: 'k

text \<open>
  \<open>c_data\<close> and \<open>c_pending\<close> are None once Close has set the maps to nil; \<open>c_lookup\<close> says
  whether the lookup function is still set. A pending entry is shared with the goroutines that
  wait for it, so the map holds its address. \<open>c_released\<close> is the sequence of calls started by
  release, \<open>c_cleaners\<close> holds the local variable next of every cleanup goroutine.
\<close>

record ('k, 'v) cache =
  c_d :: duration
  c_data :: "('k \<times> ('k, 'v) cacheEntry) list option"
  c_pending :: "('k \<times> nat) list option"
  c_log :: "'k logEntry list"
  c_cleaning :: bool
  c_lookup :: bool
  c_released :: "'v release_call list"
  c_cleaners :: "time list"

definition Cache_New :: "duration \<Rightarrow> ('k, 'v) cache" where
  "Cache_New duration = \<lparr>c_d = duration, c_data = Some [], c_pending = Some [], c_log = [],
     c_cleaning = False, c_lookup = True, c_released = [], c_cleaners = []\<rparr>"

section \<open>Operations under the lock\<close>

definition Cache_closed :: "('k, 'v) cache \<Rightarrow> bool" where
  "Cache_closed c \<longleftrightarrow> c_data c = None"

text \<open>Reading a nil map finds nothing and ranging over it does nothing.\<close>

definition data_of :: "('k, 'v) cache \<Rightarrow> ('k \<times> ('k, 'v) cacheEntry) list" where
  "data_of c = (case c_data c of None \<Rightarrow> [] | Some m \<Rightarrow> m)"

definition release :: "('v \<Rightarrow> iface_methods) \<Rightarrow> 'v option \<Rightarrow> 'v release_call list" where
  "release methods v =
     (case v of
        None \<Rightarrow> []
      | Some x \<Rightarrow>
          if has_Release (methods x) then [CallRelease x]
          else if has_Close (methods x) then [CallClose x]
          else if has_ioClose (methods x) then [CallIoClose x]
          else [])"

definition release_all ::
  "('v \<Rightarrow> iface_methods) \<Rightarrow> ('k \<times> ('k, 'v) cacheEntry) list \<Rightarrow> 'v release_call list" where
  "release_all methods m = concat (map (\<lambda>e. release methods (ce_Value (snd e))) m)"

definition Cache_Close :: "('v \<Rightarrow> iface_methods) \<Rightarrow> ('k, 'v) cache \<Rightarrow> ('k, 'v) cache" where
  "Cache_Close methods c =
     (if Cache_closed c then c
      else c\<lparr>c_released := c_released c @ release_all methods (data_of c),
             c_data := None, c_pending := None, c_log := [], c_lookup := False\<rparr>)"

definition Cache_Evict :: "('v \<Rightarrow> iface_methods) \<Rightarrow> ('k, 'v) cache \<Rightarrow> ('k, 'v) cache" where
  "Cache_Evict methods c =
     (if Cache_closed c then c
      else c\<lparr>c_released := c_released c @ release_all methods (data_of c),
             c_data := Some [], c_log := []\<rparr>)"

definition Cache_delete :: "('v \<Rightarrow> iface_methods) \<Rightarrow> 'k \<Rightarrow> ('k, 'v) cache \<Rightarrow> ('k, 'v) cache" where
  "Cache_delete methods k c =
     (case map_of (data_of c) k of
        None \<Rightarrow> c
      | Some entry \<Rightarrow>
          c\<lparr>c_released := c_released c @ release methods (ce_Value entry),
            c_data := Some (AList.delete k (data_of c))\<rparr>)"

definition Cache_spawnCleanup :: "('k, 'v) cache \<Rightarrow> ('k, 'v) cache" where
  "Cache_spawnCleanup c =
     (if c_log c \<noteq> [] \<and> \<not> c_cleaning c
      then c\<lparr>c_cleaning := True, c_cleaners := c_cleaners c @ [le_Timestamp (hd (c_log c))]\<rparr>
      else c)"

text \<open>
  set assigns into the map; its callers have checked that the cache is open, so the map is
  not nil there.
\<close>

definition Cache_set ::
  "('v \<Rightarrow> iface_methods) \<Rightarrow> time \<Rightarrow> 'k \<Rightarrow> 'v option \<Rightarrow> ('k, 'v) cache \<Rightarrow> ('k, 'v) cache" where
  "Cache_set methods timestamp k v c =
     (let c1 = Cache_delete methods k c;
          c2 = c1\<lparr>c_data := Some (AList.update k
                   \<lparr>ce_Timestamp = timestamp, ce_Key = k, ce_Value = v\<rparr> (data_of c1))\<rparr>;
          c3 = c2\<lparr>c_log := c_log c2 @ [\<lparr>le_Timestamp = timestamp, le_Key = k\<rparr>]\<rparr>
      in Cache_spawnCleanup c3)"

definition Cache_Set ::
  "('v \<Rightarrow> iface_methods) \<Rightarrow> time \<Rightarrow> 'k \<Rightarrow> 'v option \<Rightarrow> ('k, 'v) cache \<Rightarrow> ('k, 'v) cache" where
  "Cache_Set methods now key v c =
     (if Cache_closed c then c else Cache_set methods now key v c)"

text \<open>value returns (nil, false) as None and (v, true) as Some v; v itself may be nil.\<close>

definition Cache_value :: "time \<Rightarrow> 'k \<Rightarrow> ('k, 'v) cache \<Rightarrow> 'v option option" where
  "Cache_value now k c =
     (case map_of (data_of c) k of
        None \<Rightarrow> None
      | Some entry \<Rightarrow>
          (let expiration = TimeAdd (ce_Timestamp entry) (c_d c)
           in if After expiration now then Some (ce_Value entry) else None))"

text \<open>
  The loop of validate: the log that is left, the map, the releases, and the expiration of the
  first entry left (None where the loop has emptied the log).
\<close>

fun validate_loop ::
  "('v \<Rightarrow> iface_methods) \<Rightarrow> duration \<Rightarrow> time \<Rightarrow> 'k logEntry list \<Rightarrow>
   ('k \<times> ('k, 'v) cacheEntry) list \<Rightarrow> 'v release_call list \<Rightarrow>
   'k logEntry list \<times> ('k \<times> ('k, 'v) cacheEntry) list \<times> 'v release_call list \<times> time option" where
  "validate_loop methods d now [] m rel = ([], m, rel, None)"
| "validate_loop methods d now (le # lg) m rel =
     (let expiration = TimeAdd (le_Timestamp le) d
      in if After expiration now then (le # lg, m, rel, Some expiration)
         else
           (let k = le_Key le
            in case map_of m k of
                 None \<Rightarrow> validate_loop methods d now lg m rel
               | Some entry \<Rightarrow>
                   if Before (TimeAdd (ce_Timestamp entry) d) now
                   then validate_loop methods d now lg (AList.delete k m)
                          (rel @ release methods (ce_Value entry))
                   else validate_loop methods d now lg m rel))"

definition Cache_validate ::
  "('v \<Rightarrow> iface_methods) \<Rightarrow> time \<Rightarrow> ('k, 'v) cache \<Rightarrow> ('k, 'v) cache \<times> time option" where
  "Cache_validate methods now c =
     (case validate_loop methods (c_d c) now (c_log c) (data_of c) [] of
        (lg, m, rel, next) \<Rightarrow>
          (c\<lparr>c_log := lg, c_data := map_option (\<lambda>_. m) (c_data c),
             c_released := c_released c @ rel\<rparr>, next))"

lemmas cache_op_defs [go_defs] =
  Cache_Close_def Cache_Evict_def Cache_delete_def Cache_spawnCleanup_def Cache_set_def
  Cache_Set_def Cache_value_def Cache_validate_def Cache_closed_def data_of_def

section \<open>Facts about single operations\<close>

definition ok_cache :: "('k, 'v) cache \<Rightarrow> bool" where
  "ok_cache c \<longleftrightarrow> ok_map (data_of c) \<and> (\<forall>k e. map_of (data_of c) k = Some e \<longrightarrow> ce_Key e = k)"

lemma data_of_simps [simp]:
  "data_of (c\<lparr>c_data := x\<rparr>) = (case x of None \<Rightarrow> [] | Some m \<Rightarrow> m)"
  "data_of (c\<lparr>c_released := r\<rparr>) = data_of c"
  "data_of (c\<lparr>c_log := lg\<rparr>) = data_of c"
  "data_of (c\<lparr>c_pending := pd\<rparr>) = data_of c"
  "data_of (c\<lparr>c_lookup := b\<rparr>) = data_of c"
  "data_of (c\<lparr>c_cleaning := b\<rparr>) = data_of c"
  "data_of (c\<lparr>c_cleaners := cl\<rparr>) = data_of c"
  by (simp_all add: data_of_def)

lemma Cache_closed_simps [simp]:
  "Cache_closed (c\<lparr>c_data := x\<rparr>) \<longleftrightarrow> x = None"
  "Cache_closed (c\<lparr>c_released := r\<rparr>) \<longleftrightarrow> Cache_closed c"
  "Cache_closed (c\<lparr>c_log := lg\<rparr>) \<longleftrightarrow> Cache_closed c"
  "Cache_closed (c\<lparr>c_pending := pd\<rparr>) \<longleftrightarrow> Cache_closed c"
  "Cache_closed (c\<lparr>c_lookup := b\<rparr>) \<longleftrightarrow> Cache_closed c"
  "Cache_closed (c\<lparr>c_cleaning := b\<rparr>) \<longleftrightarrow> Cache_closed c"
  "Cache_closed (c\<lparr>c_cleaners := cl\<rparr>) \<longleftrightarrow> Cache_closed c"
  by (simp_all add: Cache_closed_def)

lemma spawnCleanup_frame [simp]:
  "data_of (Cache_spawnCleanup c) = data_of c"
  "c_data (Cache_spawnCleanup c) = c_data c"
  "c_log (Cache_spawnCleanup c) = c_log c"
  "c_d (Cache_spawnCleanup c) = c_d c"
  "c_pending (Cache_spawnCleanup c) = c_pending c"
  "c_lookup (Cache_spawnCleanup c) = c_lookup c"
  "c_released (Cache_spawnCleanup c) = c_released c"
  by (simp_all add: Cache_spawnCleanup_def data_of_def)

lemma delete_frame [simp]:
  "c_log (Cache_delete M k c) = c_log c"
  "c_d (Cache_delete M k c) = c_d c"
  "c_pending (Cache_delete M k c) = c_pending c"
  "c_lookup (Cache_delete M k c) = c_lookup c"
  "c_cleaning (Cache_delete M k c) = c_cleaning c"
  "c_cleaners (Cache_delete M k c) = c_cleaners c"
  by (simp_all add: Cache_delete_def split: option.splits)

lemma data_of_delete: "data_of (Cache_delete M k c) = AList.delete k (data_of c)"
  by (auto simp: Cache_delete_def AList_delete_absent split: option.splits)

lemma data_of_set:
  "data_of (Cache_set M t k v c) =
   AList.update k \<lparr>ce_Timestamp = t, ce_Key = k, ce_Value = v\<rparr> (AList.delete k (data_of c))"
  by (simp add: Cache_set_def Let_def data_of_delete)

lemma set_frame [simp]:
  "c_d (Cache_set M t k v c) = c_d c"
  "c_log (Cache_set M t k v c) = c_log c @ [\<lparr>le_Timestamp = t, le_Key = k\<rparr>]"
  "c_pending (Cache_set M t k v c) = c_pending c"
  "c_lookup (Cache_set M t k v c) = c_lookup c"
  "\<not> Cache_closed (Cache_set M t k v c)"
  by (simp_all add: Cache_set_def Let_def Cache_closed_def)

lemma map_of_data_set:
  "ok_cache c \<Longrightarrow> map_of (data_of (Cache_set M t k v c)) k' =
    (if k = k' then Some \<lparr>ce_Timestamp = t, ce_Key = k, ce_Value = v\<rparr> else map_of (data_of c) k')"
  unfolding data_of_set by (rule amap.look_replace) (simp add: ok_cache_def)

lemma ok_map_data_set: "ok_map (data_of c) \<Longrightarrow> ok_map (data_of (Cache_set M t k v c))"
  by (simp add: data_of_set amap.ok_put amap.ok_del)

lemma ok_cache_set: "ok_cache c \<Longrightarrow> ok_cache (Cache_set M t k v c)"
  unfolding ok_cache_def [of "Cache_set M t k v c"]
  by (auto simp: map_of_data_set) (auto simp: ok_cache_def ok_map_data_set)

lemma New_simps [simp]:
  "c_released (Cache_New d) = []" "data_of (Cache_New d) = []" "\<not> Cache_closed (Cache_New d)"
  "c_log (Cache_New d) = []" "c_d (Cache_New d) = d"
  by (simp_all add: Cache_New_def data_of_def Cache_closed_def)

lemma ok_cache_New [simp]: "ok_cache (Cache_New d)"
  by (simp add: ok_cache_def Cache_New_def data_of_def)

lemma ok_cache_Set: "ok_cache c \<Longrightarrow> ok_cache (Cache_Set M t k v c)"
  by (simp add: Cache_Set_def ok_cache_set)

lemma ok_cache_Evict: "ok_cache c \<Longrightarrow> ok_cache (Cache_Evict M c)"
  by (simp add: Cache_Evict_def ok_cache_def)

lemma ok_cache_Close: "ok_cache c \<Longrightarrow> ok_cache (Cache_Close M c)"
  by (simp add: Cache_Close_def ok_cache_def)

subsection \<open>The loop of validate\<close>

text \<open>One turn of the loop on an expired log entry: what it does to the map and the releases.\<close>

definition stale :: "duration \<Rightarrow> time \<Rightarrow> 'k \<Rightarrow> ('k \<times> ('k, 'v) cacheEntry) list \<Rightarrow> ('k, 'v) cacheEntry option" where
  "stale d now k m =
     (case map_of m k of None \<Rightarrow> None
      | Some e \<Rightarrow> if Before (TimeAdd (ce_Timestamp e) d) now then Some e else None)"

lemma validate_loop_Cons:
  "validate_loop M d now (le # lg) m rel =
     (if After (TimeAdd (le_Timestamp le) d) now
      then (le # lg, m, rel, Some (TimeAdd (le_Timestamp le) d))
      else case stale d now (le_Key le) m of
             None \<Rightarrow> validate_loop M d now lg m rel
           | Some e \<Rightarrow> validate_loop M d now lg (AList.delete (le_Key le) m) (rel @ release M (ce_Value e)))"
  by (simp add: stale_def Let_def split: option.splits)

lemma stale_SomeD:
  "stale d now k m = Some e \<Longrightarrow> map_of m k = Some e \<and> Before (TimeAdd (ce_Timestamp e) d) now"
  by (auto simp: stale_def split: option.splits if_splits)

declare validate_loop.simps(2) [simp del]
declare validate_loop_Cons [simp]

lemma validate_loop_ok: "validate_loop M d now lg m rel = (lg', m', rel', nx) \<Longrightarrow> ok_map m \<Longrightarrow> ok_map m'"
  by (induction lg arbitrary: m rel)
    (auto simp: amap.ok_del split: if_splits option.splits)

lemma validate_loop_sub:
  "validate_loop M d now lg m rel = (lg', m', rel', nx) \<Longrightarrow> ok_map m \<Longrightarrow>
   map_of m' k = Some e \<Longrightarrow> map_of m k = Some e"
proof (induction lg arbitrary: m rel)
  case (Cons le lg)
  show ?case
  proof (cases "stale d now (le_Key le) m")
    case None
    with Cons show ?thesis by (auto split: if_splits)
  next
    case (Some x)
    show ?thesis
    proof (cases "After (TimeAdd (le_Timestamp le) d) now")
      case False
      with Some Cons have "map_of (AList.delete (le_Key le) m) k = Some e"
        by (simp add: amap.ok_del)
      with Cons.prems show ?thesis by (simp add: amap.look_del split: if_splits)
    qed (use Cons in simp)
  qed
qed simp

lemma validate_loop_keeps:
  "validate_loop M d now lg m rel = (lg', m', rel', nx) \<Longrightarrow> ok_map m \<Longrightarrow>
   map_of m k = Some e \<Longrightarrow> \<not> Before (TimeAdd (ce_Timestamp e) d) now \<Longrightarrow> map_of m' k = Some e"
proof (induction lg arbitrary: m rel)
  case (Cons le lg)
  show ?case
  proof (cases "After (TimeAdd (le_Timestamp le) d) now")
    case True
    with Cons.prems show ?thesis by (simp add: Let_def)
  next
    case False
    show ?thesis
    proof (cases "stale d now (le_Key le) m")
      case None
      with False Cons show ?thesis by (simp)
    next
      case (Some x)
      then have "le_Key le \<noteq> k" using Cons.prems by (auto dest!: stale_SomeD)
      with Some False Cons show ?thesis
        by (simp add: amap.ok_del amap.look_del)
    qed
  qed
qed simp

definition loop_result :: "duration \<Rightarrow> time \<Rightarrow> 'k logEntry list \<Rightarrow> 'k logEntry list \<Rightarrow> time option \<Rightarrow> bool" where
  "loop_result d now lg lg' nx \<longleftrightarrow>
     (\<exists>pre. lg = pre @ lg' \<and> (\<forall>le \<in> set pre. \<not> After (TimeAdd (le_Timestamp le) d) now)) \<and>
     (case nx of None \<Rightarrow> lg' = []
      | Some x \<Rightarrow> lg' \<noteq> [] \<and> x = TimeAdd (le_Timestamp (hd lg')) d \<and> After x now)"

lemma loop_result_stop:
  "After (TimeAdd (le_Timestamp le) d) now \<Longrightarrow>
   loop_result d now (le # lg) (le # lg) (Some (TimeAdd (le_Timestamp le) d))"
  by (auto simp: loop_result_def)

lemma loop_result_skip:
  assumes "loop_result d now lg lg' nx" "\<not> After (TimeAdd (le_Timestamp le) d) now"
  shows "loop_result d now (le # lg) lg' nx"
proof -
  from assms obtain pre where "lg = pre @ lg'" "\<forall>le \<in> set pre. \<not> After (TimeAdd (le_Timestamp le) d) now"
    by (auto simp: loop_result_def)
  with assms show ?thesis
    unfolding loop_result_def by (intro conjI exI [of _ "le # pre"]) auto
qed

lemma validate_loop_log:
  "validate_loop M d now lg m rel = (lg', m', rel', nx) \<Longrightarrow> loop_result d now lg lg' nx"
proof (induction lg arbitrary: m rel)
  case (Cons le lg)
  then show ?case
    by (auto split: if_splits option.splits
        intro: loop_result_stop loop_result_skip)
qed (simp add: loop_result_def)

definition held :: "('v \<Rightarrow> iface_methods) \<Rightarrow> ('k \<times> ('k, 'v) cacheEntry) list \<Rightarrow> 'v release_call multiset" where
  "held M m = (\<Sum>e \<in># mset m. mset (release M (ce_Value (snd e))))"

lemma mset_release_all: "mset (release_all M m) = held M m"
  by (induction m) (auto simp: release_all_def held_def)

lemma held_Nil [simp]: "held M [] = {#}"
  by (simp add: held_def)

lemma held_del:
  "ok_map m \<Longrightarrow> map_of m k = Some e \<Longrightarrow>
   held M m = mset (release M (ce_Value e)) + held M (AList.delete k m)"
  using amap.total_del [of m k e "\<lambda>e. mset (release M (ce_Value (snd e)))"] by (simp add: held_def)

lemma held_put:
  "ok_map m \<Longrightarrow> map_of m k = None \<Longrightarrow>
   held M (AList.update k e m) = mset (release M (ce_Value e)) + held M m"
  using amap.total_put [of m k "\<lambda>e. mset (release M (ce_Value (snd e)))" e] by (simp add: held_def)

lemma validate_loop_held:
  "validate_loop M d now lg m rel = (lg', m', rel', nx) \<Longrightarrow> ok_map m \<Longrightarrow>
   mset rel' + held M m' = mset rel + held M m"
proof (induction lg arbitrary: m rel)
  case (Cons le lg)
  then show ?case
    by (auto simp: amap.ok_del held_del ac_simps
        split: if_splits option.splits dest: stale_SomeD)
qed simp

lemma validate_data:
  "validate_loop M (c_d c) now (c_log c) (data_of c) [] = (lg, m, rel, nx) \<Longrightarrow>
   c_log c \<noteq> [] \<longrightarrow> \<not> Cache_closed c \<Longrightarrow> data_of (fst (Cache_validate M now c)) = m"
  by (cases "c_data c"; cases "c_log c")
    (auto simp: Cache_validate_def Cache_closed_def data_of_def)

text \<open>
  The boundary between the two comparisons of validate: an entry that expires at the very
  instant of the cleanup loses its log entry (the expiration is not after now) but stays in the
  map (nor is it before now). With the log empty the cleanup ends, and nothing is left that
  would remove the entry later.
\<close>

lemma boundary_entry_stays:
  assumes "map_of m k = Some e" "ce_Timestamp e = t"
  shows "validate_loop M d (TimeAdd t d) [\<lparr>le_Timestamp = t, le_Key = k\<rparr>] m rel = ([], m, rel, None)"
  using assms by (simp add: stale_def)

section \<open>Sequences of operations\<close>

datatype ('k, 'v) cache_op = OpSet time 'k "'v option" | OpEvict | OpClose | OpValidate time

fun cache_apply :: "('v \<Rightarrow> iface_methods) \<Rightarrow> ('k, 'v) cache_op \<Rightarrow> ('k, 'v) cache \<Rightarrow> ('k, 'v) cache" where
  "cache_apply M (OpSet t k v) c = Cache_Set M t k v c"
| "cache_apply M OpEvict c = Cache_Evict M c"
| "cache_apply M OpClose c = Cache_Close M c"
| "cache_apply M (OpValidate t) c = fst (Cache_validate M t c)"

fun cache_run :: "('v \<Rightarrow> iface_methods) \<Rightarrow> ('k, 'v) cache_op list \<Rightarrow> ('k, 'v) cache \<Rightarrow> ('k, 'v) cache" where
  "cache_run M [] c = c"
| "cache_run M (x # xs) c = cache_run M xs (cache_apply M x c)"

text \<open>The release calls that the values handed to an open cache are worth.\<close>

fun accepted :: "('v \<Rightarrow> iface_methods) \<Rightarrow> ('k, 'v) cache_op list \<Rightarrow> bool \<Rightarrow> 'v release_call multiset" where
  "accepted M [] closed = {#}"
| "accepted M (OpSet t k v # xs) closed =
     (if closed then {#} else mset (release M v)) + accepted M xs closed"
| "accepted M (OpClose # xs) closed = accepted M xs True"
| "accepted M (x # xs) closed = accepted M xs closed"

definition consistent :: "('k, 'v) cache \<Rightarrow> bool" where
  "consistent c \<longleftrightarrow> ok_cache c \<and> (Cache_closed c \<longrightarrow> c_log c = [])"

lemma consistent_New: "consistent (Cache_New d)"
  by (simp add: consistent_def)

lemma set_released:
  "ok_cache c \<Longrightarrow> mset (c_released (Cache_set M t k v c)) + held M (data_of (Cache_set M t k v c)) =
    mset (c_released c) + held M (data_of c) + mset (release M v)"
  unfolding data_of_set
  by (cases "map_of (data_of c) k")
    (auto simp: Cache_set_def Let_def Cache_delete_def held_put held_del amap.look_del amap.ok_del
       AList_delete_absent ok_cache_def ac_simps)

lemma validate_consistent:
  assumes "consistent c" shows "consistent (fst (Cache_validate M t c))"
proof -
  obtain lg m rel nx where v: "validate_loop M (c_d c) t (c_log c) (data_of c) [] = (lg, m, rel, nx)"
    by (metis prod.exhaust)
  from assms have ok: "ok_map (data_of c)" by (simp add: consistent_def ok_cache_def)
  from assms validate_data [OF v] have "data_of (fst (Cache_validate M t c)) = m"
    by (auto simp: consistent_def)
  moreover have "Cache_closed c \<Longrightarrow> lg = []"
    using v assms by (simp add: consistent_def)
  ultimately show ?thesis
    using v assms validate_loop_ok [OF v ok] validate_loop_sub [OF v ok]
    by (auto simp: consistent_def ok_cache_def Cache_validate_def Cache_closed_def)
qed

lemma consistent_apply: "consistent c \<Longrightarrow> consistent (cache_apply M x c)"
proof (cases x)
  case (OpValidate t)
  then show "consistent c \<Longrightarrow> ?thesis" by (simp add: validate_consistent)
next
  case (OpSet t k v)
  then show "consistent c \<Longrightarrow> ?thesis" by (simp add: consistent_def Cache_Set_def ok_cache_set)
qed (auto simp: consistent_def Cache_Close_def Cache_Evict_def ok_cache_def)

lemma validate_closed [simp]: "Cache_closed (fst (Cache_validate M t c)) = Cache_closed c"
  by (simp add: Cache_validate_def Cache_closed_def split: prod.splits)

lemma apply_closed: "Cache_closed (cache_apply M x c) \<longleftrightarrow> Cache_closed c \<or> x = OpClose"
  by (cases x) (simp_all add: Cache_Set_def Cache_Close_def Cache_Evict_def)

lemma apply_released:
  assumes "consistent c"
  shows "mset (c_released (cache_apply M x c)) + held M (data_of (cache_apply M x c)) =
    mset (c_released c) + held M (data_of c) + accepted M [x] (Cache_closed c)"
proof (cases x)
  case (OpSet t k v)
  with assms show ?thesis by (simp add: Cache_Set_def set_released consistent_def)
next
  case (OpValidate t)
  obtain lg m rel nx where v: "validate_loop M (c_d c) t (c_log c) (data_of c) [] = (lg, m, rel, nx)"
    by (metis prod.exhaust)
  from assms validate_data [OF v] have "data_of (fst (Cache_validate M t c)) = m"
    by (auto simp: consistent_def)
  with OpValidate v validate_loop_held [OF v] assms show ?thesis
    by (simp add: Cache_validate_def consistent_def ok_cache_def ac_simps)
qed (auto simp: Cache_Evict_def Cache_Close_def mset_release_all Cache_closed_def data_of_def)

lemma run_released:
  "consistent c \<Longrightarrow>
   mset (c_released (cache_run M xs c)) + held M (data_of (cache_run M xs c)) =
   mset (c_released c) + held M (data_of c) + accepted M xs (Cache_closed c)"
proof (induction xs arbitrary: c)
  case (Cons x xs)
  have "accepted M (x # xs) (Cache_closed c) =
      accepted M [x] (Cache_closed c) + accepted M xs (Cache_closed (cache_apply M x c))"
    using apply_closed [of M x c] by (cases x) auto
  with Cons.IH [OF consistent_apply [OF Cons.prems]] apply_released [OF Cons.prems, of M x]
  show ?case by (simp add: ac_simps)
qed simp

section \<open>Properties\<close>

text \<open>
  A value that has been set is returned by value for its key until its duration has passed,
  and no longer; the other keys are not affected. A second set for one key replaces the first.
\<close>

theorem set_then_value:
  assumes "ok_cache c"
  shows "Cache_value now k' (Cache_set M t k v c) =
    (if k = k' then (if now < t + c_d c then Some v else None) else Cache_value now k' c)"
  using assms by (simp add: Cache_value_def map_of_data_set Let_def split: option.split)

theorem set_then_value_witness:
  "Cache_value 34 ''a'' (Cache_set (\<lambda>_::nat. \<lparr>has_Release = True, has_Close = False, has_ioClose = False\<rparr>)
     5 ''a'' (Some 7) (Cache_New 30)) = Some (Some 7)"
  by (subst set_then_value) simp_all

text \<open>
  C1. Running validate changes no answer of the cache: every lookup at that instant or later
  returns what it would have returned without the cleanup. In particular no live value is
  evicted, whatever order the log entries are in.
\<close>

theorem validate_transparent:
  assumes "consistent c" "now \<le> t"
  shows "Cache_value t k (fst (Cache_validate M now c)) = Cache_value t k c"
proof -
  obtain lg m rel nx where v: "validate_loop M (c_d c) now (c_log c) (data_of c) [] = (lg, m, rel, nx)"
    by (metis prod.exhaust)
  have ok: "ok_map (data_of c)" and d: "data_of (fst (Cache_validate M now c)) = m"
    using assms validate_data [OF v] by (auto simp: consistent_def ok_cache_def)
  have "c_d (fst (Cache_validate M now c)) = c_d c" using v by (simp add: Cache_validate_def)
  moreover have "map_of (data_of c) k = Some e \<Longrightarrow> t < ce_Timestamp e + c_d c \<Longrightarrow> map_of m k = Some e" for e
    using validate_loop_keeps [OF v ok] assms(2) by simp
  ultimately show ?thesis
    using validate_loop_sub [OF v ok, of k] d
    by (cases "map_of m k"; cases "map_of (data_of c) k") (fastforce simp: Cache_value_def Let_def)+
qed

theorem validate_transparent_witness:
  "Cache_value 40 ''a'' (fst (Cache_validate (\<lambda>_::nat. \<lparr>has_Release = True, has_Close = False, has_ioClose = False\<rparr>)
     36 (Cache_New 30))) = Cache_value 40 ''a'' (Cache_New 30)"
  by (rule validate_transparent [OF consistent_New]) simp


end
