(* ===== verification/CacheMachine.thy ===== *)
theory CacheMachine imports Cache begin

text \<open>
  The cache under concurrent callers (Value, Lookup, pend, retrieve and cleanup of
  cache/cache.go): the readers-writer lock, the callers at the points where they may block, the
  goroutines of retrieve with the pending entries they share with their callers, and the
  cleanup goroutines. Each event is the stretch of one goroutine between two such points.

  The lock is free between events except where the code returns while it holds it: Value and
  Lookup, on a closed cache, return without RUnlock (cache.go lines 153 to 157 and 181 to 184),
  and the second attempt of Lookup without Unlock (lines 192 to 195). \<open>cs_rlocks\<close> counts the
  read locks lost that way and \<open>cs_wlock\<close> says whether the write lock is lost.
\<close>

section \<open>State\<close>

datatype ('k, 'v) caller_pc =
    Idle
  | SecondAttempt 'k
  | Waiting nat
  | ReturnedValue "'v option option"
  | ReturnedLookup "'v option" "gerr option"

datatype retrieve_pc =
    RtStart             \<comment> \<open>spawned by pend\<close>
  | RtCalling           \<comment> \<open>inside the lookup function\<close>
  | RtCalled time       \<comment> \<open>the lookup has returned; now holds the time\<close>
  | RtCancelled         \<comment> \<open>has returned early because the context was done\<close>
  | RtExited

record 'k retriever =
  rt_Key :: 'k
  rt_Addr :: nat
  rt_PC :: retrieve_pc

record ('k, 'v) csys =
  cs_cache :: "('k, 'v) cache"
  cs_now :: time
  cs_rlocks :: nat
  cs_wlock :: bool
  cs_heap :: "'v pendingEntry list"
  cs_retrievers :: "'k retriever list"
  cs_pc :: "nat \<Rightarrow> ('k, 'v) caller_pc"
  cs_panic :: bool

text \<open>
  Events. \<open>EvSet t k v\<close> carries the instant that Set read before it took the lock,
  \<open>EvCleanup i t\<close> the instant that the cleanup goroutine i read before it took the lock.
\<close>

datatype ('k, 'v) cache_event =
    EvTick time
  | EvClose
  | EvEvict
  | EvSet time 'k "'v option"
  | EvValue nat 'k
  | EvLookup nat 'k
  | EvLookupSecond nat
  | EvLookupWake nat
  | EvRetrieveCancelled nat gerr
  | EvRetrieveCall nat
  | EvRetrieveReturn nat "'v option" "gerr option"
  | EvRetrieveStore nat
  | EvCleanup nat time

definition csys_init :: "('k, 'v) csys \<Rightarrow> bool" where
  "csys_init s \<longleftrightarrow> (\<exists>d now. s = \<lparr>cs_cache = Cache_New d, cs_now = now, cs_rlocks = 0, cs_wlock = False,
     cs_heap = [], cs_retrievers = [], cs_pc = (\<lambda>_. Idle), cs_panic = False\<rparr>)"

definition can_Lock :: "('k, 'v) csys \<Rightarrow> bool" where
  "can_Lock s \<longleftrightarrow> cs_rlocks s = 0 \<and> \<not> cs_wlock s"

definition can_RLock :: "('k, 'v) csys \<Rightarrow> bool" where
  "can_RLock s \<longleftrightarrow> \<not> cs_wlock s"

section \<open>Steps\<close>

definition pending_of :: "('k, 'v) cache \<Rightarrow> ('k \<times> nat) list" where
  "pending_of c = (case c_pending c of None \<Rightarrow> [] | Some m \<Rightarrow> m)"

text \<open>pend: the address of the pending entry for k, which may be a new one with a new goroutine.\<close>

definition Cache_pend :: "'k \<Rightarrow> ('k, 'v) csys \<Rightarrow> nat \<times> ('k, 'v) csys" where
  "Cache_pend k s =
     (case map_of (pending_of (cs_cache s)) k of
        Some p \<Rightarrow> (p, s)
      | None \<Rightarrow>
          (let p = length (cs_heap s)
           in (p, s\<lparr>cs_heap := cs_heap s @ [\<lparr>pe_WG = 1, pe_Value = None, pe_Err = None\<rparr>],
                    cs_cache := (cs_cache s)\<lparr>c_pending :=
                       Some (AList.update k p (pending_of (cs_cache s)))\<rparr>,
                    cs_retrievers := cs_retrievers s @ [\<lparr>rt_Key = k, rt_Addr = p, rt_PC = RtStart\<rparr>]\<rparr>)))"

definition set_pc :: "nat \<Rightarrow> ('k, 'v) caller_pc \<Rightarrow> ('k, 'v) csys \<Rightarrow> ('k, 'v) csys" where
  "set_pc i pc s = s\<lparr>cs_pc := (cs_pc s)(i := pc)\<rparr>"

definition set_rt :: "nat \<Rightarrow> retrieve_pc \<Rightarrow> ('k, 'v) csys \<Rightarrow> ('k, 'v) csys" where
  "set_rt g pc s = s\<lparr>cs_retrievers := (cs_retrievers s)[g := (cs_retrievers s ! g)\<lparr>rt_PC := pc\<rparr>]\<rparr>"

text \<open>Value: the early return on a closed cache keeps the read lock.\<close>

definition step_Value :: "nat \<Rightarrow> 'k \<Rightarrow> ('k, 'v) csys \<Rightarrow> ('k, 'v) csys option" where
  "step_Value i key s =
     (if cs_pc s i = Idle \<and> can_RLock s then
        Some (if Cache_closed (cs_cache s)
              then set_pc i (ReturnedValue None) (s\<lparr>cs_rlocks := Suc (cs_rlocks s)\<rparr>)
              else set_pc i (ReturnedValue (Cache_value (cs_now s) key (cs_cache s))) s)
      else None)"

text \<open>Lookup up to the release of the read lock.\<close>

definition step_Lookup :: "nat \<Rightarrow> 'k \<Rightarrow> ('k, 'v) csys \<Rightarrow> ('k, 'v) csys option" where
  "step_Lookup i key s =
     (if cs_pc s i = Idle \<and> can_RLock s then
        Some (if Cache_closed (cs_cache s)
              then set_pc i (ReturnedLookup None (Some ErrCacheClosed)) (s\<lparr>cs_rlocks := Suc (cs_rlocks s)\<rparr>)
              else (case Cache_value (cs_now s) key (cs_cache s) of
                      Some value \<Rightarrow> set_pc i (ReturnedLookup value None) s
                    | None \<Rightarrow> set_pc i (SecondAttempt key) s))
      else None)"

text \<open>Lookup under the write lock.\<close>

definition step_LookupSecond :: "nat \<Rightarrow> ('k, 'v) csys \<Rightarrow> ('k, 'v) csys option" where
  "step_LookupSecond i s =
     (case cs_pc s i of
        SecondAttempt key \<Rightarrow>
          if can_Lock s then
            Some (if Cache_closed (cs_cache s)
                  then set_pc i (ReturnedLookup None (Some ErrCacheClosed)) (s\<lparr>cs_wlock := True\<rparr>)
                  else (case Cache_value (cs_now s) key (cs_cache s) of
                          Some value \<Rightarrow> set_pc i (ReturnedLookup value None) s
                        | None \<Rightarrow> (case Cache_pend key s of (p, s') \<Rightarrow> set_pc i (Waiting p) s')))
          else None
      | _ \<Rightarrow> None)"

text \<open>Lookup past p.WG.Wait().\<close>

definition step_LookupWake :: "nat \<Rightarrow> ('k, 'v) csys \<Rightarrow> ('k, 'v) csys option" where
  "step_LookupWake i s =
     (case cs_pc s i of
        Waiting p \<Rightarrow>
          if p < length (cs_heap s) \<and> pe_WG (cs_heap s ! p) = 0
          then Some (set_pc i (ReturnedLookup (pe_Value (cs_heap s ! p)) (pe_Err (cs_heap s ! p))) s)
          else None
      | _ \<Rightarrow> None)"

definition rt_at :: "('k, 'v) csys \<Rightarrow> nat \<Rightarrow> retrieve_pc option" where
  "rt_at s g = (if g < length (cs_retrievers s) then Some (rt_PC (cs_retrievers s ! g)) else None)"

text \<open>retrieve, the branch of the select where the context is done.\<close>

definition step_RetrieveCancelled :: "nat \<Rightarrow> gerr \<Rightarrow> ('k, 'v) csys \<Rightarrow> ('k, 'v) csys option" where
  "step_RetrieveCancelled g err s =
     (if rt_at s g = Some RtStart then
        (let p = rt_Addr (cs_retrievers s ! g)
         in Some (set_rt g RtCancelled
                    (s\<lparr>cs_heap := (cs_heap s)[p := (cs_heap s ! p)\<lparr>pe_Err := Some err\<rparr>]\<rparr>)))
      else None)"

text \<open>retrieve calls cache.lookup, which it reads without the lock; a nil function panics.\<close>

definition step_RetrieveCall :: "nat \<Rightarrow> ('k, 'v) csys \<Rightarrow> ('k, 'v) csys option" where
  "step_RetrieveCall g s =
     (if rt_at s g = Some RtStart then
        Some (if c_lookup (cs_cache s) then set_rt g RtCalling s else s\<lparr>cs_panic := True\<rparr>)
      else None)"

definition step_RetrieveReturn ::
  "nat \<Rightarrow> 'v option \<Rightarrow> gerr option \<Rightarrow> ('k, 'v) csys \<Rightarrow> ('k, 'v) csys option" where
  "step_RetrieveReturn g v err s =
     (if rt_at s g = Some RtCalling then
        (let p = rt_Addr (cs_retrievers s ! g)
         in Some (set_rt g (RtCalled (cs_now s))
                    (s\<lparr>cs_heap := (cs_heap s)[p := (cs_heap s ! p)\<lparr>pe_Value := v, pe_Err := err\<rparr>]\<rparr>)))
      else None)"

text \<open>retrieve from taking the lock to p.WG.Done(), which panics on a negative counter.\<close>

definition step_RetrieveStore ::
  "('v \<Rightarrow> iface_methods) \<Rightarrow> nat \<Rightarrow> ('k, 'v) csys \<Rightarrow> ('k, 'v) csys option" where
  "step_RetrieveStore M g s =
     (case rt_at s g of
        Some (RtCalled now) \<Rightarrow>
          if can_Lock s then
            (let k = rt_Key (cs_retrievers s ! g);
                 p = rt_Addr (cs_retrievers s ! g);
                 pe = cs_heap s ! p;
                 c = cs_cache s;
                 c' = (if Cache_closed c then c
                       else
                         (let c1 = (if pe_Err pe = None then Cache_set M now k (pe_Value pe) c else c)
                          in c1\<lparr>c_pending := Some (AList.delete k (pending_of c1))\<rparr>))
             in Some (set_rt g RtExited
                        (s\<lparr>cs_cache := c',
                           cs_heap := (cs_heap s)[p := pe\<lparr>pe_WG := pe_WG pe - 1\<rparr>],
                           cs_panic := (cs_panic s \<or> pe_WG pe - 1 < 0)\<rparr>)))
          else None
      | _ \<Rightarrow> None)"

text \<open>
  One turn of the loop of cleanup: it waits until next, reads the time t, takes the lock and
  validates. The goroutine goes on with the new next, or exits and clears cleaning.
\<close>

definition step_Cleanup ::
  "('v \<Rightarrow> iface_methods) \<Rightarrow> nat \<Rightarrow> time \<Rightarrow> ('k, 'v) csys \<Rightarrow> ('k, 'v) csys option" where
  "step_Cleanup M i t s =
     (let c = cs_cache s
      in if i < length (c_cleaners c) \<and> \<not> After (c_cleaners c ! i) t \<and> t \<le> cs_now s \<and> can_Lock s then
           (case Cache_validate M t c of
              (c', Some next) \<Rightarrow> Some (s\<lparr>cs_cache := c'\<lparr>c_cleaners := (c_cleaners c')[i := next]\<rparr>\<rparr>)
            | (c', None) \<Rightarrow>
                Some (s\<lparr>cs_cache := c'\<lparr>c_cleaning := False,
                  c_cleaners := take i (c_cleaners c') @ drop (Suc i) (c_cleaners c')\<rparr>\<rparr>))
         else None)"

fun cache_step ::
  "('v \<Rightarrow> iface_methods) \<Rightarrow> ('k, 'v) cache_event \<Rightarrow> ('k, 'v) csys \<Rightarrow> ('k, 'v) csys option" where
  "cache_step M (EvTick t) s = (if cs_now s \<le> t then Some (s\<lparr>cs_now := t\<rparr>) else None)"
| "cache_step M EvClose s =
     (if can_Lock s then Some (s\<lparr>cs_cache := Cache_Close M (cs_cache s)\<rparr>) else None)"
| "cache_step M EvEvict s =
     (if can_Lock s then Some (s\<lparr>cs_cache := Cache_Evict M (cs_cache s)\<rparr>) else None)"
| "cache_step M (EvSet t k v) s =
     (if can_Lock s \<and> t \<le> cs_now s then Some (s\<lparr>cs_cache := Cache_Set M t k v (cs_cache s)\<rparr>) else None)"
| "cache_step M (EvValue i k) s = step_Value i k s"
| "cache_step M (EvLookup i k) s = step_Lookup i k s"
| "cache_step M (EvLookupSecond i) s = step_LookupSecond i s"
| "cache_step M (EvLookupWake i) s = step_LookupWake i s"
| "cache_step M (EvRetrieveCancelled g err) s = step_RetrieveCancelled g err s"
| "cache_step M (EvRetrieveCall g) s = step_RetrieveCall g s"
| "cache_step M (EvRetrieveReturn g v err) s = step_RetrieveReturn g v err s"
| "cache_step M (EvRetrieveStore g) s = step_RetrieveStore M g s"
| "cache_step M (EvCleanup i t) s = step_Cleanup M i t s"

text \<open>A panic ends the program: nothing steps after it.\<close>

definition csys_step ::
  "('v \<Rightarrow> iface_methods) \<Rightarrow> ('k, 'v) cache_event \<Rightarrow> ('k, 'v) csys \<Rightarrow> ('k, 'v) csys option" where
  "csys_step M e s = (if cs_panic s then None else cache_step M e s)"

lemmas cache_step_defs =
  step_Value_def step_Lookup_def step_LookupSecond_def step_LookupWake_def
  step_RetrieveCancelled_def step_RetrieveCall_def step_RetrieveReturn_def
  step_RetrieveStore_def step_Cleanup_def

section \<open>The invariant\<close>

definition alive :: "retrieve_pc \<Rightarrow> bool" where
  "alive pc \<longleftrightarrow> pc \<noteq> RtExited \<and> pc \<noteq> RtCancelled"

text \<open>Each goroutine of retrieve owns the pending entry of its own index.\<close>

definition inv_retrievers :: "'v pendingEntry list \<Rightarrow> 'k retriever list \<Rightarrow> bool" where
  "inv_retrievers h rs \<longleftrightarrow> length h = length rs \<and>
     (\<forall>g < length rs. rt_Addr (rs ! g) = g \<and>
        pe_WG (h ! g) = (if rt_PC (rs ! g) = RtExited then 0 else 1))"

definition inv_pending :: "('k \<times> nat) list \<Rightarrow> 'k retriever list \<Rightarrow> bool" where
  "inv_pending pm rs \<longleftrightarrow> ok_map pm \<and>
     (\<forall>k p. map_of pm k = Some p \<longrightarrow> p < length rs \<and> rt_Key (rs ! p) = k \<and> rt_PC (rs ! p) \<noteq> RtExited) \<and>
     (\<forall>g < length rs. alive (rt_PC (rs ! g)) \<longrightarrow> map_of pm (rt_Key (rs ! g)) = Some g)"

definition inv_cleanup :: "('k, 'v) cache \<Rightarrow> bool" where
  "inv_cleanup c \<longleftrightarrow> length (c_cleaners c) = (if c_cleaning c then 1 else 0) \<and>
     (c_log c \<noteq> [] \<longrightarrow> c_cleaning c)"

definition inv_cache :: "('k, 'v) cache \<Rightarrow> bool" where
  "inv_cache c \<longleftrightarrow> consistent c \<and> inv_cleanup c \<and>
     (Cache_closed c \<longleftrightarrow> c_pending c = None) \<and> (Cache_closed c \<longleftrightarrow> \<not> c_lookup c)"

definition inv_callers :: "'v pendingEntry list \<Rightarrow> (nat \<Rightarrow> ('k, 'v) caller_pc) \<Rightarrow> bool" where
  "inv_callers h pcs \<longleftrightarrow> (\<forall>i p. pcs i = Waiting p \<longrightarrow> p < length h)"

definition inv_lock :: "('k, 'v) csys \<Rightarrow> bool" where
  "inv_lock s \<longleftrightarrow> (\<not> Cache_closed (cs_cache s) \<longrightarrow> cs_rlocks s = 0 \<and> \<not> cs_wlock s \<and> \<not> cs_panic s)"

definition csys_inv :: "('k, 'v) csys \<Rightarrow> bool" where
  "csys_inv s \<longleftrightarrow> inv_cache (cs_cache s) \<and> inv_retrievers (cs_heap s) (cs_retrievers s) \<and>
     (\<not> Cache_closed (cs_cache s) \<longrightarrow> inv_pending (pending_of (cs_cache s)) (cs_retrievers s)) \<and>
     inv_callers (cs_heap s) (cs_pc s) \<and> inv_lock s"

subsection \<open>The operations keep the cache's own part\<close>

lemma cleanup_Close [simp]: "inv_cleanup c \<Longrightarrow> inv_cleanup (Cache_Close M c)"
  by (auto simp: inv_cleanup_def Cache_Close_def split: if_splits)

lemma cleanup_Evict [simp]: "inv_cleanup c \<Longrightarrow> inv_cleanup (Cache_Evict M c)"
  by (auto simp: inv_cleanup_def Cache_Evict_def split: if_splits)

lemma cleanup_spawn: "length (c_cleaners c) = (if c_cleaning c then 1 else 0) \<Longrightarrow> inv_cleanup (Cache_spawnCleanup c)"
  by (auto simp: inv_cleanup_def Cache_spawnCleanup_def)

lemma cleanup_set: "inv_cleanup c \<Longrightarrow> inv_cleanup (Cache_set M t k v c)"
  unfolding Cache_set_def Let_def by (rule cleanup_spawn) (simp add: inv_cleanup_def)

lemma inv_cache_Close: "inv_cache c \<Longrightarrow> inv_cache (Cache_Close M c)"
  using consistent_apply [of c M OpClose]
  by (auto simp: inv_cache_def) (auto simp: Cache_Close_def)

lemma inv_cache_Evict: "inv_cache c \<Longrightarrow> inv_cache (Cache_Evict M c)"
  using consistent_apply [of c M OpEvict]
  by (auto simp: inv_cache_def) (auto simp: Cache_Evict_def)

lemma inv_cache_set: "inv_cache c \<Longrightarrow> \<not> Cache_closed c \<Longrightarrow> inv_cache (Cache_set M t k v c)"
  by (auto simp: inv_cache_def consistent_def ok_cache_set cleanup_set)

lemma inv_cache_Set: "inv_cache c \<Longrightarrow> inv_cache (Cache_Set M t k v c)"
  by (simp add: Cache_Set_def inv_cache_set)

lemma inv_cache_pending:
  "inv_cache c \<Longrightarrow> \<not> Cache_closed c \<Longrightarrow> inv_cache (c\<lparr>c_pending := Some pm\<rparr>)"
  by (auto simp: inv_cache_def consistent_def ok_cache_def inv_cleanup_def)

lemma validate_frame [simp]:
  "c_pending (fst (Cache_validate M t c)) = c_pending c"
  "c_lookup (fst (Cache_validate M t c)) = c_lookup c"
  "c_cleaners (fst (Cache_validate M t c)) = c_cleaners c"
  "c_cleaning (fst (Cache_validate M t c)) = c_cleaning c"
  "c_d (fst (Cache_validate M t c)) = c_d c"
  by (simp_all add: Cache_validate_def split: prod.splits)

lemma validate_stop: "snd (Cache_validate M t c) = None \<Longrightarrow> c_log (fst (Cache_validate M t c)) = []"
  by (auto simp: Cache_validate_def loop_result_def dest!: validate_loop_log split: prod.splits)

lemma validate_more: "snd (Cache_validate M t c) = Some next \<Longrightarrow> c_log c \<noteq> []"
  by (auto simp: Cache_validate_def loop_result_def dest!: validate_loop_log split: prod.splits)

lemma inv_cache_more:
  "inv_cache c \<Longrightarrow> snd (Cache_validate M t c) = Some next \<Longrightarrow>
   inv_cache (fst (Cache_validate M t c)\<lparr>c_cleaners := (c_cleaners c)[i := next]\<rparr>)"
  using validate_consistent [of c M t]
  by (auto simp: inv_cache_def inv_cleanup_def consistent_def ok_cache_def dest: validate_more)

lemma inv_cache_stop:
  "inv_cache c \<Longrightarrow> snd (Cache_validate M t c) = None \<Longrightarrow> i < length (c_cleaners c) \<Longrightarrow>
   inv_cache (fst (Cache_validate M t c)\<lparr>c_cleaning := False, c_cleaners := take i (c_cleaners c) @ drop (Suc i) (c_cleaners c)\<rparr>)"
  using validate_consistent [of c M t]
  by (auto simp: inv_cache_def inv_cleanup_def consistent_def ok_cache_def validate_stop split: if_splits)

lemma pending_of_frame [simp]:
  "pending_of (Cache_set M t k v c) = pending_of c"
  "pending_of (Cache_Set M t k v c) = pending_of c"
  "pending_of (Cache_Evict M c) = pending_of c"
  "pending_of (fst (Cache_validate M t c)) = pending_of c"
  "pending_of (c\<lparr>c_cleaners := cl\<rparr>) = pending_of c"
  "pending_of (c\<lparr>c_cleaning := b\<rparr>) = pending_of c"
  "pending_of (c\<lparr>c_pending := Some pm\<rparr>) = pm"
  by (simp_all add: pending_of_def Cache_Set_def Cache_Evict_def)

lemma closed_frame [simp]:
  "Cache_closed (Cache_Set M t k v c) = Cache_closed c"
  "Cache_closed (Cache_Evict M c) = Cache_closed c"
  "Cache_closed (Cache_Close M c)"
  using apply_closed [of M "OpSet t k v" c] apply_closed [of M OpEvict c] apply_closed [of M OpClose c]
  by simp_all

subsection \<open>The pending entries and their goroutines\<close>

lemma inv_retrievers_pend:
  "inv_retrievers h rs \<Longrightarrow>
   inv_retrievers (h @ [\<lparr>pe_WG = 1, pe_Value = None, pe_Err = None\<rparr>])
     (rs @ [\<lparr>rt_Key = k, rt_Addr = length h, rt_PC = RtStart\<rparr>])"
  by (auto simp: inv_retrievers_def nth_append less_Suc_eq)

lemma inv_pending_pend:
  "inv_pending pm rs \<Longrightarrow> map_of pm k = None \<Longrightarrow>
   inv_pending (AList.update k (length rs) pm) (rs @ [\<lparr>rt_Key = k, rt_Addr = length rs, rt_PC = RtStart\<rparr>])"
  by (auto simp: inv_pending_def amap.ok_put amap.look_put nth_append less_Suc_eq split: if_splits)

lemma inv_retrievers_pc:
  assumes "inv_retrievers h rs" "g < length rs" "pc \<noteq> RtExited" "rt_PC (rs ! g) \<noteq> RtExited"
    "pe_WG pe = pe_WG (h ! g)"
  shows "inv_retrievers (h[g := pe]) (rs[g := (rs ! g)\<lparr>rt_PC := pc\<rparr>])"
  using assms by (auto simp: inv_retrievers_def nth_list_update)

lemma inv_retrievers_exit:
  assumes "inv_retrievers h rs" "g < length rs" "pe_WG pe = 0"
  shows "inv_retrievers (h[g := pe]) (rs[g := (rs ! g)\<lparr>rt_PC := RtExited\<rparr>])"
  using assms by (auto simp: inv_retrievers_def nth_list_update)

lemma inv_pending_pc:
  assumes "inv_pending pm rs" "g < length rs" "alive (rt_PC (rs ! g))" "pc \<noteq> RtExited"
  shows "inv_pending pm (rs[g := (rs ! g)\<lparr>rt_PC := pc\<rparr>])"
  using assms unfolding inv_pending_def
  by (auto simp: nth_list_update split: if_splits)

lemma inv_pending_exit:
  assumes "inv_pending pm rs" "g < length rs" "alive (rt_PC (rs ! g))"
  shows "inv_pending (AList.delete (rt_Key (rs ! g)) pm) (rs[g := (rs ! g)\<lparr>rt_PC := RtExited\<rparr>])"
proof -
  from assms have own: "map_of pm (rt_Key (rs ! g)) = Some g" by (simp add: inv_pending_def)
  have uniq: "k = rt_Key (rs ! g)" if "map_of pm k = Some g" for k
    using that assms(1) by (auto simp: inv_pending_def)
  have other: "rt_Key (rs ! g') \<noteq> rt_Key (rs ! g)"
    if "g' < length rs" "g' \<noteq> g" "alive (rt_PC (rs ! g'))" for g'
    using that own assms(1) unfolding inv_pending_def by (metis option.inject)
  have ok: "ok_map pm" using assms(1) by (simp add: inv_pending_def)
  show ?thesis
    unfolding inv_pending_def
  proof (intro conjI allI impI)
    show "ok_map (AList.delete (rt_Key (rs ! g)) pm)" using ok by (rule amap.ok_del)
  next
    fix k p assume "map_of (AList.delete (rt_Key (rs ! g)) pm) k = Some p"
    then have k: "k \<noteq> rt_Key (rs ! g)" and p: "map_of pm k = Some p"
      using ok by (auto simp: amap.look_del split: if_splits)
    then have "p \<noteq> g" using uniq by blast
    with p assms(1) show "p < length (rs[g := (rs ! g)\<lparr>rt_PC := RtExited\<rparr>])"
      "rt_Key (rs[g := (rs ! g)\<lparr>rt_PC := RtExited\<rparr>] ! p) = k"
      "rt_PC (rs[g := (rs ! g)\<lparr>rt_PC := RtExited\<rparr>] ! p) \<noteq> RtExited"
      by (auto simp: inv_pending_def)
  next
    fix g' assume g': "g' < length (rs[g := (rs ! g)\<lparr>rt_PC := RtExited\<rparr>])"
      "alive (rt_PC (rs[g := (rs ! g)\<lparr>rt_PC := RtExited\<rparr>] ! g'))"
    then have "g' \<noteq> g" using assms(2) by (auto simp: alive_def)
    with g' other [of g'] ok assms(1)
    show "map_of (AList.delete (rt_Key (rs ! g)) pm) (rt_Key (rs[g := (rs ! g)\<lparr>rt_PC := RtExited\<rparr>] ! g')) = Some g'"
      by (simp add: amap.look_del inv_pending_def)
  qed
qed

lemma inv_callers_wait: "inv_callers h pcs \<Longrightarrow> p < length h \<Longrightarrow> inv_callers h (pcs(i := Waiting p))"
  by (simp add: inv_callers_def)

lemma inv_callers_pc: "inv_callers h pcs \<Longrightarrow> (\<And>p. pc \<noteq> Waiting p) \<Longrightarrow> inv_callers h (pcs(i := pc))"
  by (simp add: inv_callers_def)

lemma inv_callers_more: "inv_callers h pcs \<Longrightarrow> length h \<le> length h' \<Longrightarrow> inv_callers h' pcs"
  unfolding inv_callers_def by (meson order_less_le_trans)

subsection \<open>Every event keeps the invariant\<close>

lemma inv_pend:
  assumes "csys_inv s" "\<not> Cache_closed (cs_cache s)" "Cache_pend k s = (p, s')"
  shows "csys_inv s' \<and> p < length (cs_heap s') \<and> length (cs_heap s) \<le> length (cs_heap s')"
proof (cases "map_of (pending_of (cs_cache s)) k")
  case None
  have len: "length (cs_heap s) = length (cs_retrievers s)"
    using assms(1) by (simp add: csys_inv_def inv_retrievers_def)
  from None assms show ?thesis
    by (auto simp: Cache_pend_def Let_def csys_inv_def inv_lock_def len inv_pending_pend inv_cache_pending
        intro: inv_callers_more inv_retrievers_pend [of "cs_heap s", unfolded len])
next
  case (Some p')
  with assms show ?thesis
    by (auto simp: Cache_pend_def csys_inv_def inv_pending_def inv_retrievers_def)
qed

lemma inv_set_pc:
  "csys_inv s \<Longrightarrow> (\<And>p. pc = Waiting p \<Longrightarrow> p < length (cs_heap s)) \<Longrightarrow> csys_inv (set_pc i pc s)"
  by (auto simp: csys_inv_def set_pc_def inv_callers_def inv_lock_def)

lemma inv_set_pc' [simp]: "csys_inv s \<Longrightarrow> (\<And>p. pc \<noteq> Waiting p) \<Longrightarrow> csys_inv (set_pc i pc s)"
  by (rule inv_set_pc) auto

lemma inv_leak_R [simp]: "csys_inv s \<Longrightarrow> Cache_closed (cs_cache s) \<Longrightarrow> csys_inv (s\<lparr>cs_rlocks := n\<rparr>)"
  by (simp add: csys_inv_def inv_lock_def)

lemma inv_leak_W [simp]: "csys_inv s \<Longrightarrow> Cache_closed (cs_cache s) \<Longrightarrow> csys_inv (s\<lparr>cs_wlock := b\<rparr>)"
  by (simp add: csys_inv_def inv_lock_def)

lemma inv_step_callers:
  "csys_inv s \<Longrightarrow> step_Value i k s = Some t \<Longrightarrow> csys_inv t"
  "csys_inv s \<Longrightarrow> step_Lookup i k s = Some t \<Longrightarrow> csys_inv t"
  "csys_inv s \<Longrightarrow> step_LookupWake i s = Some t \<Longrightarrow> csys_inv t"
  by (auto simp: step_Value_def step_Lookup_def step_LookupWake_def
      split: if_splits option.splits caller_pc.splits)

lemma inv_step_second: "csys_inv s \<Longrightarrow> step_LookupSecond i s = Some t \<Longrightarrow> csys_inv t"
  by (auto simp: step_LookupSecond_def split: if_splits option.splits caller_pc.splits prod.splits
      dest: inv_pend intro!: inv_set_pc)

lemma rt_atD: "rt_at s g = Some pc \<Longrightarrow> g < length (cs_retrievers s) \<and> rt_PC (cs_retrievers s ! g) = pc"
  by (auto simp: rt_at_def split: if_splits)

lemma addr_self: "csys_inv s \<Longrightarrow> g < length (cs_retrievers s) \<Longrightarrow> rt_Addr (cs_retrievers s ! g) = g"
  by (simp add: csys_inv_def inv_retrievers_def)

lemma inv_callers_upd [simp]: "inv_callers (h[p := e]) pcs = inv_callers h pcs"
  by (simp add: inv_callers_def)

lemma inv_rt_pc:
  assumes "csys_inv s" "g < length (cs_retrievers s)" "alive (rt_PC (cs_retrievers s ! g))"
    and "pc \<noteq> RtExited" "pe_WG pe = pe_WG (cs_heap s ! g)"
  shows "csys_inv (set_rt g pc (s\<lparr>cs_heap := (cs_heap s)[g := pe]\<rparr>))"
  using assms
  by (auto simp: csys_inv_def set_rt_def inv_lock_def alive_def
      intro!: inv_retrievers_pc inv_pending_pc)

lemma inv_step_retrieve:
  "csys_inv s \<Longrightarrow> step_RetrieveCancelled g err s = Some t \<Longrightarrow> csys_inv t"
  "csys_inv s \<Longrightarrow> step_RetrieveReturn g v e s = Some t \<Longrightarrow> csys_inv t"
  by (auto simp: step_RetrieveCancelled_def step_RetrieveReturn_def Let_def addr_self alive_def
      split: if_splits dest!: rt_atD intro!: inv_rt_pc)

lemma heap_self [simp]: "s\<lparr>cs_heap := (cs_heap s)[g := cs_heap s ! g]\<rparr> = s"
  by simp

lemma inv_step_call: "csys_inv s \<Longrightarrow> step_RetrieveCall g s = Some t \<Longrightarrow> csys_inv t"
  using inv_rt_pc [of s g RtCalling "cs_heap s ! g"]
  by (auto simp: step_RetrieveCall_def alive_def csys_inv_def inv_lock_def inv_cache_def
      split: if_splits dest!: rt_atD)

lemma inv_step_store:
  assumes "csys_inv s" "step_RetrieveStore M g s = Some t"
  shows "csys_inv t"
proof -
  let ?c = "cs_cache s" and ?rs = "cs_retrievers s" and ?pe = "cs_heap s ! g"
  from assms(2) obtain now where pc: "g < length ?rs" "rt_PC (?rs ! g) = RtCalled now"
    by (auto simp: step_RetrieveStore_def split: option.splits retrieve_pc.splits dest!: rt_atD)
  have addr: "rt_Addr (?rs ! g) = g" using assms(1) pc addr_self by blast
  have al: "alive (rt_PC (?rs ! g))" using pc by (simp add: alive_def)
  have wg: "pe_WG ?pe = 1" using assms(1) pc by (simp add: csys_inv_def inv_retrievers_def)
  define c1 where "c1 = (if pe_Err ?pe = None then Cache_set M now (rt_Key (?rs ! g)) (pe_Value ?pe) ?c else ?c)"
  define c' where "c' = (if Cache_closed ?c then ?c
    else c1\<lparr>c_pending := Some (AList.delete (rt_Key (?rs ! g)) (pending_of c1))\<rparr>)"
  have t: "t = set_rt g RtExited (s\<lparr>cs_cache := c', cs_heap := (cs_heap s)[g := ?pe\<lparr>pe_WG := 0\<rparr>]\<rparr>)"
    using assms(2) pc addr wg
    by (auto simp: step_RetrieveStore_def rt_at_def Let_def c'_def c1_def set_rt_def split: if_splits)
  have c1: "Cache_closed c1 \<longleftrightarrow> Cache_closed ?c" "pending_of c1 = pending_of ?c"
    if "\<not> Cache_closed ?c" using that by (simp_all add: c1_def)
  have "inv_cache c'"
    using assms(1) c1 by (auto simp: c'_def c1_def csys_inv_def inv_cache_set inv_cache_pending)
  moreover have "Cache_closed c' \<longleftrightarrow> Cache_closed ?c"
    using c1 by (auto simp: c'_def)
  moreover have "inv_retrievers ((cs_heap s)[g := ?pe\<lparr>pe_WG := 0\<rparr>]) (?rs[g := (?rs ! g)\<lparr>rt_PC := RtExited\<rparr>])"
    using assms(1) pc by (simp add: csys_inv_def inv_retrievers_exit)
  moreover have "inv_pending (pending_of c') (?rs[g := (?rs ! g)\<lparr>rt_PC := RtExited\<rparr>])"
    if "\<not> Cache_closed ?c"
    using that assms(1) pc al c1 by (simp add: c'_def csys_inv_def inv_pending_exit)
  ultimately show ?thesis
    using assms(1) unfolding t by (simp add: csys_inv_def set_rt_def inv_lock_def)
qed

lemma step_Cleanup_frame:
  assumes "step_Cleanup M i u s = Some t"
  shows "\<exists>c. t = s\<lparr>cs_cache := c\<rparr> \<and> pending_of c = pending_of (cs_cache s) \<and>
    Cache_closed c = Cache_closed (cs_cache s)"
proof -
  obtain c' nx where v: "Cache_validate M u (cs_cache s) = (c', nx)" by (metis prod.exhaust)
  then have "Cache_closed c' = Cache_closed (cs_cache s)" "pending_of c' = pending_of (cs_cache s)"
    by (metis fst_conv validate_closed pending_of_frame(4))+
  with assms v show ?thesis
    by (auto simp: step_Cleanup_def Let_def split: if_splits option.splits)
qed

lemma inv_step_cleanup:
  assumes "csys_inv s" "step_Cleanup M i u s = Some t"
  shows "csys_inv t"
proof -
  obtain c' nx where v: "Cache_validate M u (cs_cache s) = (c', nx)" by (metis prod.exhaust)
  then have cl: "c_cleaners c' = c_cleaners (cs_cache s)" "Cache_closed c' = Cache_closed (cs_cache s)"
    "pending_of c' = pending_of (cs_cache s)"
    by (metis fst_conv validate_frame(3) validate_closed pending_of_frame(4))+
  have i: "i < length (c_cleaners (cs_cache s))" using assms(2) by (simp add: step_Cleanup_def Let_def split: if_splits)
  have ic: "inv_cache (cs_cache s)" using assms(1) by (simp add: csys_inv_def)
  show ?thesis
  proof (cases nx)
    case None
    with assms(2) v cl have "t = s\<lparr>cs_cache := c'\<lparr>c_cleaning := False,
        c_cleaners := take i (c_cleaners (cs_cache s)) @ drop (Suc i) (c_cleaners (cs_cache s))\<rparr>\<rparr>"
      by (simp add: step_Cleanup_def Let_def split: if_splits)
    with assms(1) inv_cache_stop [OF ic _ i, of M u] None v cl show ?thesis
      by (simp add: csys_inv_def inv_lock_def)
  next
    case (Some x)
    with assms(2) v cl have "t = s\<lparr>cs_cache := c'\<lparr>c_cleaners := (c_cleaners (cs_cache s))[i := x]\<rparr>\<rparr>"
      by (simp add: step_Cleanup_def Let_def split: if_splits)
    with assms(1) inv_cache_more [OF ic, of M u] Some v cl show ?thesis
      by (simp add: csys_inv_def inv_lock_def)
  qed
qed

lemma inv_step:
  assumes "csys_inv s" "csys_step M e s = Some t"
  shows "csys_inv t"
proof -
  have st: "cache_step M e s = Some t"
    using assms(2) by (simp add: csys_step_def split: if_splits)
  show ?thesis
  proof (cases e)
    case EvClose
    with st assms(1) show ?thesis
      by (auto simp: csys_inv_def inv_cache_Close inv_lock_def split: if_splits)
  next
    case EvEvict
    with st assms(1) show ?thesis
      by (auto simp: csys_inv_def inv_cache_Evict inv_lock_def split: if_splits)
  next
    case (EvSet t k v)
    with st assms(1) show ?thesis
      by (auto simp: csys_inv_def inv_cache_Set inv_lock_def split: if_splits)
  next
    case (EvTick t)
    with st assms(1) show ?thesis by (auto simp: csys_inv_def inv_lock_def split: if_splits)
  qed (use st assms(1) in \<open>auto intro: inv_step_callers inv_step_second inv_step_retrieve inv_step_call
        inv_step_store inv_step_cleanup\<close>)
qed

lemma inv_init: "csys_init s \<Longrightarrow> csys_inv s"
  by (auto simp: csys_init_def csys_inv_def inv_cache_def consistent_New inv_cleanup_def inv_retrievers_def
      inv_callers_def inv_lock_def inv_pending_def pending_of_def) (auto simp: Cache_New_def)

interpretation cache_machine: inductive_invariant "csys_step M" csys_init csys_inv
  by unfold_locales (auto intro: inv_init inv_step)

section \<open>Uncontended lookups\<close>

text \<open>
  What Lookup computes for a single caller: the value, the error and the cache afterwards.
  \<open>lookup\<close> is the lookup function, \<open>now\<close> the instant of the call and \<open>later\<close> the instant at
  which the lookup function has returned.
\<close>

definition Cache_Lookup ::
  "('v \<Rightarrow> iface_methods) \<Rightarrow> ('k \<Rightarrow> 'v option \<times> gerr option) \<Rightarrow> time \<Rightarrow> time \<Rightarrow> 'k \<Rightarrow> ('k, 'v) cache \<Rightarrow>
   'v option \<times> gerr option \<times> ('k, 'v) cache" where
  "Cache_Lookup M lookup now later key c =
     (if Cache_closed c then (None, Some ErrCacheClosed, c)
      else (case Cache_value now key c of
              Some value \<Rightarrow> (value, None, c)
            | None \<Rightarrow>
                (case lookup key of
                   (v, None) \<Rightarrow> (v, None, Cache_set M later key v c)
                 | (v, Some err) \<Rightarrow> (v, Some err, c))))"

text \<open>The events of one caller i whose lookup is run by the goroutine g.\<close>

definition lookup_schedule ::
  "('k \<Rightarrow> 'v option \<times> gerr option) \<Rightarrow> time \<Rightarrow> nat \<Rightarrow> nat \<Rightarrow> 'k \<Rightarrow> ('k, 'v) cache_event list" where
  "lookup_schedule lookup later i g key =
     [EvLookup i key, EvLookupSecond i, EvRetrieveCall g, EvTick later,
      EvRetrieveReturn g (fst (lookup key)) (snd (lookup key)), EvRetrieveStore g, EvLookupWake i]"

lemma delete_update_absent: "map_of m k = None \<Longrightarrow> AList.delete k (AList.update k v m) = m"
  by (induction m) (auto simp: AList_delete_absent split: if_splits)

text \<open>A state in which the caller i has nothing to wait for.\<close>

definition quiet :: "nat \<Rightarrow> 'k \<Rightarrow> ('k, 'v) csys \<Rightarrow> bool" where
  "quiet i key s \<longleftrightarrow> csys_inv s \<and> \<not> cs_panic s \<and> cs_pc s i = Idle \<and> \<not> Cache_closed (cs_cache s) \<and>
     map_of (pending_of (cs_cache s)) key = None"

lemma quiet_retrievers: "quiet i key s \<Longrightarrow> length (cs_heap s) = length (cs_retrievers s)"
  by (simp add: quiet_def csys_inv_def inv_retrievers_def)

lemma quiet_lock: "quiet i key s \<Longrightarrow> can_Lock s \<and> can_RLock s"
  by (simp add: quiet_def csys_inv_def inv_lock_def can_Lock_def can_RLock_def)

lemma quiet_pending:
  "quiet i key s \<Longrightarrow> c_pending (cs_cache s) = Some (pending_of (cs_cache s))"
  by (auto simp: quiet_def csys_inv_def inv_cache_def pending_of_def split: option.splits)

lemma quiet_lookup: "quiet i key s \<Longrightarrow> c_lookup (cs_cache s)"
  by (auto simp: quiet_def csys_inv_def inv_cache_def)

lemma set_pending_commute:
  "Cache_set M t k v (c\<lparr>c_pending := x\<rparr>) = Cache_set M t k v c\<lparr>c_pending := x\<rparr>"
  by (auto simp: Cache_set_def Let_def Cache_spawnCleanup_def Cache_delete_def data_of_def split: option.splits)

lemma lookup_run_miss:
  assumes q: "quiet i key s" and miss: "Cache_value (cs_now s) key (cs_cache s) = None"
    and later: "cs_now s \<le> later"
  shows "\<exists>t. run (csys_step M) s (lookup_schedule lookup later i (length (cs_retrievers s)) key) = Some t \<and>
     cs_pc t i = ReturnedLookup (fst (lookup key)) (snd (lookup key)) \<and>
     cs_cache t = (if snd (lookup key) = None
       then Cache_set M later key (fst (lookup key)) (cs_cache s) else cs_cache s)"
proof -
  let ?g = "length (cs_retrievers s)" and ?c = "cs_cache s" and ?pm = "pending_of (cs_cache s)"
  have st: "csys_step M e u = cache_step M e u" if "\<not> cs_panic u" for e and u :: "('a, 'b) csys"
    using that by (simp add: csys_step_def)
  note facts = quiet_retrievers [OF q] quiet_lock [OF q, unfolded can_Lock_def can_RLock_def] miss later q [unfolded quiet_def] quiet_lookup [OF q]
  have del: "AList.delete key (AList.update key ?g ?pm) = ?pm"
    using q by (simp add: quiet_def delete_update_absent)
  have pend: "?c\<lparr>c_pending := Some ?pm\<rparr> = ?c" "Cache_set M later key v ?c\<lparr>c_pending := Some ?pm\<rparr> = Cache_set M later key v ?c" for v
    using quiet_pending [OF q] by simp_all
  show ?thesis
    using facts del pend
    by (auto simp: set_pending_commute nth_append list_update_append lookup_schedule_def st step_Lookup_def step_LookupSecond_def Cache_pend_def step_RetrieveCall_def
      step_RetrieveReturn_def step_RetrieveStore_def step_LookupWake_def Let_def set_pc_def set_rt_def rt_at_def
      can_Lock_def can_RLock_def)
qed

lemma lookup_run_hit:
  assumes q: "quiet i key s" and hit: "Cache_value (cs_now s) key (cs_cache s) = Some value"
  shows "\<exists>t. run (csys_step M) s [EvLookup i key] = Some t \<and>
     cs_pc t i = ReturnedLookup value None \<and> cs_cache t = cs_cache s"
  using q quiet_lock [OF q] hit
  by (auto simp: csys_step_def step_Lookup_def set_pc_def quiet_def)

section \<open>States the machine does not leave\<close>

definition cancelled_wait :: "nat \<Rightarrow> nat \<Rightarrow> 'k \<Rightarrow> ('k, 'v) csys \<Rightarrow> bool" where
  "cancelled_wait i g key s \<longleftrightarrow> csys_inv s \<and> cs_pc s i = Waiting g \<and> rt_at s g = Some RtCancelled \<and>
     (\<not> Cache_closed (cs_cache s) \<longrightarrow> map_of (pending_of (cs_cache s)) key = Some g)"

lemma rt_at_set_rt [simp]:
  "g < length (cs_retrievers s) \<Longrightarrow> rt_at (set_rt g pc s) g' = (if g = g' then Some pc else rt_at s g')"
  by (auto simp: rt_at_def set_rt_def)

lemma set_rt_frame:
  "cs_pc (set_rt g pc s) = cs_pc s" "cs_cache (set_rt g pc s) = cs_cache s"
  by (simp_all add: set_rt_def)

lemma rt_at_frame [simp]:
  "rt_at (set_pc i pc s) g = rt_at s g" "rt_at (s\<lparr>cs_cache := c\<rparr>) g = rt_at s g"
  "rt_at (s\<lparr>cs_heap := h\<rparr>) g = rt_at s g" "rt_at (s\<lparr>cs_rlocks := n\<rparr>) g = rt_at s g"
  "rt_at (s\<lparr>cs_wlock := b\<rparr>) g = rt_at s g" "rt_at (s\<lparr>cs_now := t\<rparr>) g = rt_at s g"
  "rt_at (s\<lparr>cs_panic := b\<rparr>) g = rt_at s g"
  "rt_at (s\<lparr>cs_pc := q\<rparr>) g = rt_at s g"
  by (simp_all add: rt_at_def set_pc_def)

lemma pend_frame:
  assumes "Cache_pend k s = (p, s')"
  shows "cs_pc s' = cs_pc s" and "rt_at s g = Some pc \<Longrightarrow> rt_at s' g = Some pc"
    and "map_of (pending_of (cs_cache s)) k' = Some q \<Longrightarrow> map_of (pending_of (cs_cache s')) k' = Some q"
    and "Cache_closed (cs_cache s') = Cache_closed (cs_cache s)"
  using assms
  by (auto simp: Cache_pend_def Let_def rt_at_def nth_append amap.look_put split: option.splits if_splits)

lemma retrieve_other:
  assumes "csys_inv s" "\<not> Cache_closed (cs_cache s)" "rt_at s g = Some RtCancelled"
    "map_of (pending_of (cs_cache s)) key = Some g" "g' < length (cs_retrievers s)"
    "alive (rt_PC (cs_retrievers s ! g'))"
  shows "rt_Key (cs_retrievers s ! g') \<noteq> key"
  using assms by (auto simp: csys_inv_def inv_pending_def rt_at_def alive_def split: if_splits)

lemma cancelled_cache:
  "cancelled_wait i g key s \<Longrightarrow> csys_inv (s\<lparr>cs_cache := c\<rparr>) \<Longrightarrow>
   pending_of c = pending_of (cs_cache s) \<Longrightarrow> Cache_closed c = Cache_closed (cs_cache s) \<Longrightarrow>
   cancelled_wait i g key (s\<lparr>cs_cache := c\<rparr>)"
  by (simp add: cancelled_wait_def)

lemma cancelled_store:
  assumes w: "cancelled_wait i g key s" and st: "step_RetrieveStore M g' s = Some t"
  shows "cs_pc t i = Waiting g \<and> rt_at t g = Some RtCancelled \<and>
     (\<not> Cache_closed (cs_cache t) \<longrightarrow> map_of (pending_of (cs_cache t)) key = Some g)"
proof -
  have inv: "csys_inv s" using w by (simp add: cancelled_wait_def)
  from st obtain now where pc: "g' < length (cs_retrievers s)" "rt_PC (cs_retrievers s ! g') = RtCalled now"
    by (auto simp: step_RetrieveStore_def split: option.splits retrieve_pc.splits dest!: rt_atD)
  then have ne: "g' \<noteq> g" using w by (auto simp: cancelled_wait_def rt_at_def)
  have key: "\<not> Cache_closed (cs_cache s) \<Longrightarrow> rt_Key (cs_retrievers s ! g') \<noteq> key"
    using retrieve_other [OF inv, of g key g'] w pc by (auto simp: cancelled_wait_def alive_def)
  have ok: "\<not> Cache_closed (cs_cache s) \<Longrightarrow> ok_map (pending_of (cs_cache s))"
    using inv by (simp add: csys_inv_def inv_pending_def)
  have cl: "Cache_closed (cs_cache t) = Cache_closed (cs_cache s)"
    using st pc by (auto simp: step_RetrieveStore_def rt_at_def Let_def set_rt_def split: if_splits)
  have pn: "pending_of (cs_cache t) = AList.delete (rt_Key (cs_retrievers s ! g')) (pending_of (cs_cache s))"
    if "\<not> Cache_closed (cs_cache s)"
    using st pc that by (auto simp: step_RetrieveStore_def rt_at_def Let_def set_rt_def split: if_splits)
  have "cs_pc t = cs_pc s" "rt_at t g = rt_at s g"
    using st pc ne by (auto simp: step_RetrieveStore_def rt_at_def Let_def set_rt_def split: if_splits)
  with w cl pn key ok show ?thesis by (simp add: cancelled_wait_def amap.look_del)
qed

lemma cancelled_step:
  assumes w: "cancelled_wait i g key s" and st: "csys_step M e s = Some t"
  shows "cancelled_wait i g key t"
proof -
  have inv: "csys_inv t" using inv_step [OF _ st] w by (simp add: cancelled_wait_def)
  have cs: "cache_step M e s = Some t" using st by (simp add: csys_step_def split: if_splits)
  have g: "g < length (cs_heap s)" "pe_WG (cs_heap s ! g) = 1"
    using w by (auto simp: cancelled_wait_def csys_inv_def inv_retrievers_def dest!: rt_atD)
  show ?thesis
  proof (cases e)
    case (EvLookupWake j)
    with cs w g inv show ?thesis
      by (cases "j = i") (auto simp: cancelled_wait_def step_LookupWake_def set_pc_def split: caller_pc.splits if_splits)
  next
    case (EvRetrieveStore g')
    with cs cancelled_store [OF w] inv show ?thesis by (auto simp: cancelled_wait_def)
  next
    case (EvCleanup j u)
    then obtain c where "t = s\<lparr>cs_cache := c\<rparr>" "pending_of c = pending_of (cs_cache s)"
      "Cache_closed c = Cache_closed (cs_cache s)"
      using cs step_Cleanup_frame [of M j u s t] by auto
    with inv w show ?thesis by (auto intro: cancelled_cache)
  next
    case (EvLookupSecond j)
    with cs inv w show ?thesis
      by (auto simp: cancelled_wait_def step_LookupSecond_def set_pc_def pend_frame
          split: caller_pc.splits if_splits option.splits prod.splits)
  next
    case (EvRetrieveCancelled g' err)
    then have r: "rt_at s g' = Some RtStart" using cs by (simp add: step_RetrieveCancelled_def split: if_splits)
    with EvRetrieveCancelled cs rt_atD [OF r] inv w show ?thesis
      by (auto simp: cancelled_wait_def step_RetrieveCancelled_def Let_def set_rt_frame)
  next
    case (EvRetrieveCall g')
    then have r: "rt_at s g' = Some RtStart" using cs by (simp add: step_RetrieveCall_def split: if_splits)
    with EvRetrieveCall cs rt_atD [OF r] inv w show ?thesis
      by (auto simp: cancelled_wait_def step_RetrieveCall_def set_rt_frame split: if_splits)
  next
    case (EvRetrieveReturn g' v err)
    then have r: "rt_at s g' = Some RtCalling" using cs by (simp add: step_RetrieveReturn_def split: if_splits)
    with EvRetrieveReturn cs rt_atD [OF r] inv w show ?thesis
      by (auto simp: cancelled_wait_def step_RetrieveReturn_def Let_def set_rt_frame)
  next
    case EvClose
    with cs inv w show ?thesis by (auto simp: cancelled_wait_def split: if_splits)
  qed (use cs inv w in \<open>auto simp: cancelled_wait_def step_Value_def step_Lookup_def set_pc_def
        split: if_splits option.splits\<close>)
qed

interpretation cancelled: trap "csys_step M" "cancelled_wait i g key"
  by unfold_locales (auto intro: cancelled_step)

definition lock_lost :: "('k, 'v) csys \<Rightarrow> bool" where
  "lock_lost s \<longleftrightarrow> \<not> can_Lock s"

lemma rt_locks [simp]:
  "can_Lock (set_rt g pc s) = can_Lock s" "can_Lock (set_pc i p s) = can_Lock s"
  "can_Lock (s\<lparr>cs_heap := h\<rparr>) = can_Lock s" "can_Lock (s\<lparr>cs_now := t\<rparr>) = can_Lock s"
  "can_Lock (s\<lparr>cs_panic := b\<rparr>) = can_Lock s" "\<not> can_Lock (s\<lparr>cs_rlocks := Suc n\<rparr>)"
  by (simp_all add: can_Lock_def set_rt_def set_pc_def)

lemma lock_lost_step: "lock_lost s \<Longrightarrow> csys_step M e s = Some t \<Longrightarrow> lock_lost t"
  by (cases e)
    (auto simp: lock_lost_def csys_step_def cache_step_defs Let_def
      split: if_splits option.splits caller_pc.splits retrieve_pc.splits)

interpretation lost: trap "csys_step M" lock_lost
  by unfold_locales (auto intro: lock_lost_step)

section \<open>Properties\<close>

text \<open>A starting state and a method table for the witnesses.\<close>

definition csys0 :: "(nat, nat) csys" where
  "csys0 = \<lparr>cs_cache = Cache_New 30, cs_now = 100, cs_rlocks = 0, cs_wlock = False,
     cs_heap = [], cs_retrievers = [], cs_pc = (\<lambda>_. Idle), cs_panic = False\<rparr>"

definition methods0 :: "nat \<Rightarrow> iface_methods" where
  "methods0 v = \<lparr>has_Release = False, has_Close = True, has_ioClose = False\<rparr>"

lemma csys0_init: "csys_init csys0"
  by (auto simp: csys_init_def csys0_def)

lemma csys0_reach: "run (csys_step M) csys0 es = Some s \<Longrightarrow> reach (csys_step M) csys_init s"
  by (rule run_reach [where init = csys_init]) (rule csys0_init)

lemmas run_simps = csys_step_def cache_step_defs Let_def set_pc_def set_rt_def rt_at_def Cache_pend_def
  can_Lock_def can_RLock_def pending_of_def

text \<open>
  C3. At most one lookup per key is in flight: while the cache is open, two goroutines of
  retrieve that have not finished never work on the same key, whatever callers do and however
  sets, evictions and cleanups interleave with them.
\<close>

theorem single_flight:
  assumes "reach (csys_step M) csys_init s" "\<not> Cache_closed (cs_cache s)"
    and "g < length (cs_retrievers s)" "alive (rt_PC (cs_retrievers s ! g))"
    and "g' < length (cs_retrievers s)" "alive (rt_PC (cs_retrievers s ! g'))"
    and "rt_Key (cs_retrievers s ! g) = rt_Key (cs_retrievers s ! g')"
  shows "g = g'"
proof -
  have "csys_inv s" using assms(1) by (rule cache_machine.reach_inv)
  with assms(2) have "inv_pending (pending_of (cs_cache s)) (cs_retrievers s)"
    by (simp add: csys_inv_def)
  with assms(3-7) show ?thesis unfolding inv_pending_def by (metis option.inject)
qed

theorem single_flight_witness:
  "\<exists>s :: (nat, nat) csys. reach (csys_step methods0) csys_init s \<and> length (cs_retrievers s) = 1 \<and>
     (\<forall>g < 1. \<forall>g' < 1. rt_Key (cs_retrievers s ! g) = rt_Key (cs_retrievers s ! g') \<longrightarrow> g = g')"
proof -
  define es :: "(nat, nat) cache_event list" where "es = [EvLookup 0 7, EvLookup 1 7, EvLookupSecond 1, EvLookupSecond 0]"
  obtain s where r: "run (csys_step methods0) csys0 es = Some s" and l: "length (cs_retrievers s) = 1"
    "\<not> Cache_closed (cs_cache s)" "rt_PC (cs_retrievers s ! 0) = RtStart"
    by (simp add: es_def run_simps csys0_def Cache_New_def Cache_closed_def Cache_value_def data_of_def)
  have "reach (csys_step methods0) csys_init s" using csys0_reach [OF r] .
  with l single_flight [OF this l(2)] show ?thesis by (auto simp: alive_def)
qed

text \<open>
  C4. A caller with nobody to wait for gets from the interleaved program exactly what the
  sequential reading of Lookup computes: ErrClosed apart, a live cached value without a lookup,
  and otherwise the value and the error of the lookup function, which is stored when and only
  when there was no error. Some schedule of the goroutines ends there.
\<close>

theorem lookup_refines:
  assumes "quiet i key s" "cs_now s \<le> later"
    and "Cache_Lookup M lookup (cs_now s) later key (cs_cache s) = (v, err, c')"
  shows "\<exists>es t. run (csys_step M) s es = Some t \<and> cs_pc t i = ReturnedLookup v err \<and> cs_cache t = c'"
proof (cases "Cache_value (cs_now s) key (cs_cache s)")
  case None
  with assms have "v = fst (lookup key)" "err = snd (lookup key)"
    "c' = (if snd (lookup key) = None then Cache_set M later key (fst (lookup key)) (cs_cache s) else cs_cache s)"
    by (auto simp: Cache_Lookup_def quiet_def split: prod.splits option.splits)
  with lookup_run_miss [OF assms(1) None assms(2), of M lookup] show ?thesis by metis
next
  case (Some w)
  with assms have "v = w" "err = None" "c' = cs_cache s" by (auto simp: Cache_Lookup_def quiet_def)
  with lookup_run_hit [OF assms(1) Some, of M] show ?thesis by blast
qed

theorem lookup_refines_witness:
  "\<exists>es t. run (csys_step methods0) csys0 es = Some t \<and> cs_pc t 3 = ReturnedLookup (Some 9) None \<and>
     cs_cache t = Cache_set methods0 120 4 (Some 9) (Cache_New 30)"
proof (rule lookup_refines [where lookup = "\<lambda>_. (Some 9, None)" and later = "120" and key = "4"])
  show "quiet 3 4 csys0"
    using inv_init [OF csys0_init] by (simp add: quiet_def csys0_def pending_of_def Cache_New_def Cache_closed_def)
  show "cs_now csys0 \<le> 120" by (simp add: csys0_def)
  show "Cache_Lookup methods0 (\<lambda>_. (Some 9, None)) (cs_now csys0) 120 4 (cs_cache csys0) =
      (Some 9, None, Cache_set methods0 120 4 (Some 9) (Cache_New 30))"
    by (simp add: Cache_Lookup_def csys0_def Cache_value_def)
qed

text \<open>
  C5. An open cache is healthy in every reachable state: no goroutine has panicked, both locks
  are free between events, and whenever there is an entry to expire there is exactly one
  cleanup goroutine to expire it, never two.
\<close>

theorem open_cache_healthy:
  assumes "reach (csys_step M) csys_init s" "\<not> Cache_closed (cs_cache s)"
  shows "\<not> cs_panic s \<and> can_Lock s \<and> length (c_cleaners (cs_cache s)) \<le> 1 \<and>
     (c_log (cs_cache s) \<noteq> [] \<longrightarrow> length (c_cleaners (cs_cache s)) = 1)"
  using cache_machine.reach_inv [OF assms(1)] assms(2)
  by (auto simp: csys_inv_def inv_lock_def can_Lock_def inv_cache_def inv_cleanup_def split: if_splits)

theorem open_cache_healthy_witness:
  "\<exists>s :: (nat, nat) csys. reach (csys_step methods0) csys_init s \<and> c_log (cs_cache s) \<noteq> [] \<and> length (c_cleaners (cs_cache s)) = 1"
proof -
  obtain s where r: "run (csys_step methods0) csys0 [EvSet 90 1 (Some 2), EvSet 95 2 (Some 3)] = Some s"
    and l: "c_log (cs_cache s) \<noteq> []" "\<not> Cache_closed (cs_cache s)"
    by (simp add: run_simps csys0_def Cache_Set_def)
  have "reach (csys_step methods0) csys_init s" using csys0_reach [OF r] .
  with l open_cache_healthy [OF this l(2)] show ?thesis by blast
qed

text \<open>
  A caller whose retrieve goroutine finds its context done never returns: retrieve leaves
  without calling Done on the entry's wait group and without removing the entry. However the
  program goes on, the caller stays blocked; and as long as the cache is open the dead entry
  remains the pending entry of its key, which every later lookup that misses joins.
\<close>

theorem cancelled_lookup_blocks:
  assumes "reach (csys_step M) csys_init s" "cs_pc s i = Waiting g"
    and "csys_step M (EvRetrieveCancelled g err) s = Some t" "run (csys_step M) t es = Some u"
  shows "cs_pc u i = Waiting g \<and> csys_step M (EvLookupWake i) u = None \<and>
     (\<not> Cache_closed (cs_cache u) \<longrightarrow> map_of (pending_of (cs_cache u)) (rt_Key (cs_retrievers s ! g)) = Some g)"
proof -
  let ?key = "rt_Key (cs_retrievers s ! g)"
  have inv: "csys_inv s" using assms(1) by (rule cache_machine.reach_inv)
  have r: "rt_at s g = Some RtStart" using assms(3) by (simp add: csys_step_def step_RetrieveCancelled_def split: if_splits)
  have "\<not> Cache_closed (cs_cache s) \<Longrightarrow> map_of (pending_of (cs_cache s)) ?key = Some g"
    using inv rt_atD [OF r] by (simp add: csys_inv_def inv_pending_def alive_def)
  with assms(2,3) rt_atD [OF r] inv_step [OF inv assms(3)] have "cancelled_wait i g ?key t"
    by (auto simp: cancelled_wait_def csys_step_def step_RetrieveCancelled_def Let_def set_rt_frame split: if_splits)
  then have "cancelled_wait i g ?key u" using assms(4) by (rule cancelled.stays)
  then show ?thesis
    by (auto simp: cancelled_wait_def csys_inv_def inv_retrievers_def csys_step_def step_LookupWake_def dest!: rt_atD)
qed

theorem cancelled_lookup_blocks_witness:
  "\<exists>s t u. run (csys_step methods0) csys0 [EvLookup 0 7, EvLookupSecond 0] = Some s \<and>
     csys_step methods0 (EvRetrieveCancelled 0 ErrCanceled) s = Some t \<and>
     run (csys_step methods0) t [EvTick 900, EvEvict, EvLookup 1 7, EvLookupSecond 1] = Some u \<and>
     cs_pc u 0 = Waiting 0 \<and> csys_step methods0 (EvLookupWake 0) u = None"
proof -
  obtain s t u where r: "run (csys_step methods0) csys0 [EvLookup 0 7, EvLookupSecond 0] = Some s"
    and p: "cs_pc s 0 = Waiting 0" and t: "csys_step methods0 (EvRetrieveCancelled 0 ErrCanceled) s = Some t"
    and u: "run (csys_step methods0) t [EvTick 900, EvEvict, EvLookup 1 7, EvLookupSecond 1] = Some u"
    by (simp add: run_simps csys0_def Cache_New_def Cache_closed_def Cache_value_def data_of_def Cache_Evict_def)
  from cancelled_lookup_blocks [OF csys0_reach [OF r] p t u] r t u show ?thesis by blast
qed

text \<open>
  One call of Value (or of Lookup) on a closed cache shuts every writer out for good: the
  read lock it took is never released, so no later Close, Evict or Set, no second attempt of a
  Lookup, no storing retrieve and no cleanup can ever take the lock, in any continuation.
\<close>

theorem closed_value_locks_out:
  assumes "Cache_closed (cs_cache s)" "csys_step M (EvValue i key) s = Some t \<or> csys_step M (EvLookup i key) s = Some t"
    and "run (csys_step M) t es = Some u"
  shows "csys_step M EvClose u = None \<and> csys_step M EvEvict u = None \<and> csys_step M (EvSet now k v) u = None \<and>
     csys_step M (EvLookupSecond j) u = None \<and> csys_step M (EvRetrieveStore g) u = None \<and>
     csys_step M (EvCleanup c w) u = None"
proof -
  have "lock_lost t"
    using assms(1,2) by (auto simp: csys_step_def step_Value_def step_Lookup_def lock_lost_def split: if_splits)
  then have "lock_lost u" using assms(3) by (rule lost.stays)
  then show ?thesis
    by (auto simp: lock_lost_def csys_step_def step_LookupSecond_def step_RetrieveStore_def step_Cleanup_def Let_def
        split: caller_pc.splits option.splits retrieve_pc.splits)
qed

theorem closed_value_locks_out_witness:
  "\<exists>s t u. run (csys_step methods0) csys0 [EvClose] = Some s \<and> csys_step methods0 (EvValue 0 7) s = Some t \<and>
     run (csys_step methods0) t [EvTick 500] = Some u \<and> csys_step methods0 EvClose u = None"
proof -
  obtain s t u where s: "run (csys_step methods0) csys0 [EvClose] = Some s" "Cache_closed (cs_cache s)"
    and t: "csys_step methods0 (EvValue 0 7) s = Some t" and u: "run (csys_step methods0) t [EvTick 500] = Some u"
    by (simp add: run_simps csys0_def Cache_New_def Cache_closed_def Cache_Close_def)
  from closed_value_locks_out [OF s(2) disjI1 [OF t] u] s t u show ?thesis by blast
qed

text \<open>
  Close while a retrieve goroutine has been spawned but has not called the lookup function
  makes that goroutine call a nil function: the program panics.
\<close>

theorem close_before_call_panics:
  assumes "reach (csys_step M) csys_init s" "rt_at s g = Some RtStart" "csys_step M EvClose s = Some t"
  shows "\<exists>u. csys_step M (EvRetrieveCall g) t = Some u \<and> cs_panic u"
  using assms cache_machine.reach_inv [OF assms(1)]
  by (auto simp: csys_step_def step_RetrieveCall_def csys_inv_def inv_cache_def Cache_Close_def split: if_splits)

theorem close_before_call_panics_witness:
  "\<exists>s t u. run (csys_step methods0) csys0 [EvLookup 0 7, EvLookupSecond 0] = Some s \<and>
     csys_step methods0 EvClose s = Some t \<and> csys_step methods0 (EvRetrieveCall 0) t = Some u \<and> cs_panic u"
proof -
  obtain s t where r: "run (csys_step methods0) csys0 [EvLookup 0 7, EvLookupSecond 0] = Some s"
    and p: "rt_at s 0 = Some RtStart" and t: "csys_step methods0 EvClose s = Some t"
    by (simp add: run_simps csys0_def Cache_New_def Cache_closed_def Cache_value_def data_of_def)
  from close_before_call_panics [OF csys0_reach [OF r] p t] r t show ?thesis by blast
qed

end
