(* ===== verification/VersionVector.thy ===== *)
theory VersionVector imports Callstat CacheMachine begin

text \<open>
  Package versionvector (vector.go and cache.go): version vectors and their expiring cache.

  A *Vector is the address of a cell of a store; the cell holds the vector's safe array, and
  nothing once Close has released it. The safe arrays and SafeArrayCopy belong to other packages:
  the type of their contents and the copying function are parameters. Two vectors never share a
  safe array, as SafeArrayCopy allocates a new one, so a cell owns its content.
\<close>

section \<open>Vectors\<close>

type_synonym 'a vstore = "'a option list"

definition Vector_New :: "'a \<Rightarrow> 'a vstore \<Rightarrow> nat \<times> 'a vstore" where
  "Vector_New sa st = (length st, st @ [Some sa])"

definition Vector_Data :: "nat \<Rightarrow> 'a vstore \<Rightarrow> 'a option" where
  "Vector_Data v st = (if v < length st then st ! v else None)"

text \<open>Duplicate dereferences the safe array, so it panics on a vector that has been closed.\<close>

definition Vector_Duplicate ::
  "('a \<Rightarrow> gerr + 'a) \<Rightarrow> nat \<Rightarrow> 'a vstore \<Rightarrow> (nat option \<times> gerr option \<times> 'a vstore) outcome" where
  "Vector_Duplicate SafeArrayCopy v st =
     (case Vector_Data v st of
        None \<Rightarrow> Panic ''nil pointer dereference''
      | Some sa \<Rightarrow>
          (case SafeArrayCopy sa of
             Inl err \<Rightarrow> Ret (None, Some err, st)
           | Inr sa' \<Rightarrow> (case Vector_New sa' st of (v', st') \<Rightarrow> Ret (Some v', None, st'))))"

definition Vector_Close :: "nat \<Rightarrow> 'a vstore \<Rightarrow> 'a vstore" where
  "Vector_Close v st = st[v := None]"

section \<open>The cache\<close>

text \<open>
  The struct entry. It has no method, so a cached entry implements neither Releaser nor one of
  the two Closers, whatever its vector can do.
\<close>

record ventry =
  ve_vector :: "nat option"
  ve_call :: Call

definition entry_methods :: "ventry \<Rightarrow> iface_methods" where
  "entry_methods e = \<lparr>has_Release = False, has_Close = False, has_ioClose = False\<rparr>"

type_synonym vcache = "(uuid, ventry) cache"

text \<open>A lookup function may allocate vectors, so it also maps the store.\<close>

type_synonym 'a vlookup = "uuid \<Rightarrow> 'a vstore \<Rightarrow> (nat option \<times> Call \<times> gerr option) \<times> 'a vstore"

definition castLookup :: "(uuid \<Rightarrow> nat option \<times> Call \<times> gerr option) \<Rightarrow> uuid \<Rightarrow> ventry option \<times> gerr option" where
  "castLookup lookup key =
     (case lookup key of (vector, call, err) \<Rightarrow> (Some \<lparr>ve_vector = vector, ve_call = call\<rparr>, err))"

definition NewCache :: "duration \<Rightarrow> vcache" where
  "NewCache duration = Cache_New duration"

definition VCache_Close :: "vcache \<Rightarrow> vcache" where
  "VCache_Close c = Cache_Close entry_methods c"

definition VCache_Evict :: "vcache \<Rightarrow> vcache" where
  "VCache_Evict c = Cache_Evict entry_methods c"

definition VCache_Set :: "time \<Rightarrow> uuid \<Rightarrow> nat option \<Rightarrow> Call \<Rightarrow> vcache \<Rightarrow> vcache" where
  "VCache_Set now guid vector call c =
     Cache_Set entry_methods now guid (Some \<lparr>ve_vector = vector, ve_call = call\<rparr>) c"

text \<open>e.vector.Duplicate() for a pointer that may be nil.\<close>

definition dup_ptr ::
  "('a \<Rightarrow> gerr + 'a) \<Rightarrow> nat option \<Rightarrow> 'a vstore \<Rightarrow> (nat option \<times> gerr option \<times> 'a vstore) outcome" where
  "dup_ptr SafeArrayCopy p st =
     (case p of None \<Rightarrow> Panic ''nil pointer dereference'' | Some v \<Rightarrow> Vector_Duplicate SafeArrayCopy v st)"

definition VCache_Value ::
  "('a \<Rightarrow> gerr + 'a) \<Rightarrow> time \<Rightarrow> uuid \<Rightarrow> vcache \<Rightarrow> 'a vstore \<Rightarrow>
   (nat option \<times> Call \<times> bool \<times> 'a vstore) outcome" where
  "VCache_Value SafeArrayCopy now guid c st =
     (case Cache_value now guid c of
        None \<Rightarrow> Ret (None, Call_zero, False, st)
      | Some None \<Rightarrow> Panic ''interface conversion''
      | Some (Some e) \<Rightarrow>
          (case dup_ptr SafeArrayCopy (ve_vector e) st of
             Panic m \<Rightarrow> Panic m
           | Ret (vector, Some err, st') \<Rightarrow> Ret (vector, Call_zero, False, st')
           | Ret (vector, None, st') \<Rightarrow> Ret (vector, ve_call e, True, st')))"

text \<open>
  Lookup of a single caller, over the sequential reading of the underlying cache: \<open>t0\<close> and \<open>t1\<close>
  are the instants of Begin and of the deferred Complete, \<open>now\<close> and \<open>later\<close> those of the
  underlying Lookup.
\<close>

definition VCache_Lookup ::
  "('a \<Rightarrow> gerr + 'a) \<Rightarrow> 'a vlookup \<Rightarrow> time \<Rightarrow> time \<Rightarrow> time \<Rightarrow> time \<Rightarrow> uuid \<Rightarrow> vcache \<Rightarrow> 'a vstore \<Rightarrow>
   (nat option \<times> Call \<times> gerr option \<times> vcache \<times> 'a vstore) outcome" where
  "VCache_Lookup SafeArrayCopy lookup t0 now later t1 guid c st =
     (let call = Call_Begin t0 ''Cache.Lookup'' Call_zero;
          miss = (\<not> Cache_closed c \<and> Cache_value now guid c = None);
          st1 = (if miss then snd (lookup guid st) else st)
      in case Cache_Lookup entry_methods (castLookup (\<lambda>g. fst (lookup g st))) now later guid c of
           (None, Some err, c') \<Rightarrow> Ret (None, deferred_Complete t1 call, Some err, c', st1)
         | (None, None, c') \<Rightarrow> Panic ''interface conversion''
         | (Some e, Some err, c') \<Rightarrow>
             Ret (ve_vector e, deferred_Complete t1 (Call_Add (ve_call e) call), Some err, c', st1)
         | (Some e, None, c') \<Rightarrow>
             (case dup_ptr SafeArrayCopy (ve_vector e) st1 of
                Panic m \<Rightarrow> Panic m
              | Ret (vector, err, st2) \<Rightarrow>
                  Ret (vector, deferred_Complete t1 (Call_Add (ve_call e) call), err, c', st2)))"

section \<open>Facts\<close>

lemma release_entry [simp]: "release entry_methods v = []"
  by (cases v) (simp_all add: release_def entry_methods_def)

lemma accepted_entry [simp]: "accepted entry_methods xs b = {#}"
  by (induction "entry_methods" xs b rule: accepted.induct) auto

lemma held_entry [simp]: "held entry_methods m = {#}"
  by (simp add: held_def)

lemma Data_Close: "Vector_Data w (Vector_Close v st) = (if v = w then None else Vector_Data w st)"
  by (auto simp: Vector_Data_def Vector_Close_def)

lemma Duplicate_Ret:
  assumes "Vector_Duplicate cp v st = Ret (Some v', err, st')"
  shows "v' = length st \<and> err = None \<and> (\<exists>sa. cp (the (Vector_Data v st)) = Inr sa \<and> st' = st @ [Some sa])"
  using assms by (auto simp: Vector_Duplicate_def Vector_New_def split: option.splits sum.splits)

text \<open>The vectors that the cache holds, live or not.\<close>

definition cached_vectors :: "vcache \<Rightarrow> nat set" where
  "cached_vectors c = {v. \<exists>k e x. map_of (data_of c) k = Some e \<and> ce_Value e = Some x \<and> ve_vector x = Some v}"

lemma cached_vectors_set:
  "ok_cache c \<Longrightarrow> cached_vectors (Cache_set M t k v c) \<subseteq>
    cached_vectors c \<union> {a. \<exists>x. v = Some x \<and> ve_vector x = Some a}"
  by (auto simp: cached_vectors_def map_of_data_set split: if_splits)

text \<open>Every vector the cache holds is a cell of the store.\<close>

definition in_store :: "vcache \<Rightarrow> 'a vstore \<Rightarrow> bool" where
  "in_store c st \<longleftrightarrow> ok_cache c \<and> (\<forall>v \<in> cached_vectors c. v < length st)"

text \<open>A lookup function keeps the cells there are and returns a cell of its result.\<close>

definition store_extends :: "'a vlookup \<Rightarrow> bool" where
  "store_extends lookup \<longleftrightarrow> (\<forall>g st. \<exists>ext. snd (lookup g st) = st @ ext \<and>
     (\<forall>v. fst (fst (lookup g st)) = Some v \<longrightarrow> v < length st + length ext))"

lemma Lookup_data:
  assumes "Cache_Lookup entry_methods (castLookup lk) now later k c = (v, err, c')" "ok_cache c"
  shows "ok_cache c' \<and> cached_vectors c' \<subseteq> cached_vectors c \<union>
    (if \<not> Cache_closed c \<and> Cache_value now k c = None then {a. fst (lk k) = Some a} else {})"
  using assms
  by (auto simp: Cache_Lookup_def castLookup_def ok_cache_set split: if_splits option.splits prod.splits
      dest!: cached_vectors_set [THEN subsetD, rotated])

text \<open>
  Nothing that enters a vector cache is ever released: neither replacing, expiring, evicting nor
  closing starts a call, although the cache accounts for every value that has a Release or a Close.
\<close>

lemma vector_cache_never_releases: "c_released (cache_run entry_methods xs (NewCache d)) = []"
  using run_released [OF consistent_New, of entry_methods xs d]
  by (simp add: NewCache_def)

section \<open>Properties\<close>

text \<open>
  The vector that a successful Lookup hands out is the caller's own: it is not one of the
  vectors in the cache, and closing it leaves every cached vector as it was. So a caller that
  closes its result, as Client.Backlog does, cannot spoil a later hit. This rests on the lookup
  function only adding cells to the store.
\<close>

theorem lookup_hands_out_private_copy:
  assumes "in_store c st" "store_extends lookup"
    and "VCache_Lookup cp lookup t0 now later t1 guid c st = Ret (Some v, call, None, c', st')"
  shows "v \<notin> cached_vectors c' \<and> in_store c' st' \<and>
    (\<forall>w \<in> cached_vectors c'. Vector_Data w (Vector_Close v st') = Vector_Data w st')"
proof -
  define st1 where "st1 = (if \<not> Cache_closed c \<and> Cache_value now guid c = None then snd (lookup guid st) else st)"
  obtain x err d where l: "Cache_Lookup entry_methods (castLookup (\<lambda>g. fst (lookup g st))) now later guid c = (x, err, d)"
    by (metis prod.exhaust)
  from assms(3) l obtain e where "x = Some e" "err = None" and d: "d = c'"
    and dup: "dup_ptr cp (ve_vector e) st1 = Ret (Some v, None, st')"
    by (auto simp: VCache_Lookup_def Let_def st1_def split: option.splits outcome.splits prod.splits)
  from dup have v: "v = length st1" and st': "length st' = Suc (length st1)"
    by (auto simp: dup_ptr_def dest!: Duplicate_Ret split: option.splits)
  from assms(2) obtain ext where ext: "snd (lookup guid st) = st @ ext"
    "\<forall>v. fst (fst (lookup guid st)) = Some v \<longrightarrow> v < length st + length ext"
    unfolding store_extends_def by blast
  have "ok_cache c'" and cv: "cached_vectors c' \<subseteq> cached_vectors c \<union>
      (if \<not> Cache_closed c \<and> Cache_value now guid c = None then {a. fst (fst (lookup guid st)) = Some a} else {})"
    using Lookup_data [OF l] assms(1) d by (auto simp: in_store_def)
  have lt: "w < length st1" if "w \<in> cached_vectors c'" for w
    using that cv assms(1) ext by (fastforce simp: in_store_def st1_def split: if_splits)
  with v have "v \<notin> cached_vectors c'" by blast
  with lt \<open>ok_cache c'\<close> st' show ?thesis
    by (fastforce simp: in_store_def Data_Close)
qed

theorem lookup_hands_out_private_copy_witness:
  "\<exists>call c' st'. VCache_Lookup Inr (\<lambda>g st. ((Some (length st), Call_zero, None), st @ [Some ''vv'']))
      10 11 12 13 5 (NewCache 30) [] = Ret (Some 1, call, None, c', st') \<and> 1 \<notin> cached_vectors c'"
proof -
  let ?lk = "\<lambda>g st. ((Some (length st), Call_zero, None), st @ [Some ''vv''])"
  have e: "store_extends ?lk" by (simp add: store_extends_def)
  have i: "in_store (NewCache 30) []"
    by (simp add: in_store_def NewCache_def cached_vectors_def)
  obtain call c' st' where l: "VCache_Lookup Inr ?lk 10 11 12 13 5 (NewCache 30) [] = Ret (Some 1, call, None, c', st')"
    by (simp add: VCache_Lookup_def Let_def NewCache_def Cache_Lookup_def Cache_value_def castLookup_def dup_ptr_def
        Vector_Duplicate_def Vector_Data_def Vector_New_def)
  from lookup_hands_out_private_copy [OF i e l] l show ?thesis by blast
qed

end
