(* ===== verification/Endpoint.thy ===== *)
theory Endpoint imports Callstat "HOL-Library.Word" "HOL-Library.Multiset" begin

text \<open>
  The endpoint of package helper (helper/endpoint.go): one managed connection to a member.

  The machine holds the fields of the struct, the two buffered channels, the goroutine of run
  with its timer, one goroutine per call of updateConnection and per retired connection, and the
  callers of Vector, Backlog, Report and Close. A section under the mutex is one event; where it
  ends in a send on a channel it happens when there is room, as nobody else can see the mutex
  taken in between. A reporter is named by the number of its creation; the limiter and the
  cacher wrapped around it close it exactly when they are closed. Values of the package
  calltracker are opaque, with its functions Len and MaxElapsed as parameters.
\<close>

section \<open>Configuration and state\<close>

record EndpointConfig =
  ec_Caching :: bool
  ec_CacheDuration :: duration
  ec_Limiting :: bool
  ec_Limit :: nat
  ec_OnlineReconnectionInterval :: duration
  ec_OfflineReconnectionInterval :: duration
  ec_AcceptableCallDuration :: duration

definition DefaultEndpointConfig :: EndpointConfig where
  "DefaultEndpointConfig = \<lparr>ec_Caching = True, ec_CacheDuration = Second * 30, ec_Limiting = True, ec_Limit = 1,
     ec_OnlineReconnectionInterval = Minute * 30, ec_OfflineReconnectionInterval = Minute * 2,
     ec_AcceptableCallDuration = Second * 30\<rparr>"

record 'c EndpointState =
  es_Err :: "gerr option"
  es_Changed :: time
  es_Updated :: time
  es_IdleSince :: time
  es_Calls :: 'c

definition State_Online :: "'c EndpointState \<Rightarrow> bool" where
  "State_Online s \<longleftrightarrow> es_Err s = None"

definition State_Unresponsive :: "('c \<Rightarrow> nat) \<Rightarrow> ('c \<Rightarrow> duration) \<Rightarrow> duration \<Rightarrow> 'c EndpointState \<Rightarrow> bool" where
  "State_Unresponsive Len MaxElapsed threshold s \<longleftrightarrow>
     (if Len (es_Calls s) = 0 then False else MaxElapsed (es_Calls s) > threshold)"

definition State_Closed :: "'c EndpointState \<Rightarrow> bool" where
  "State_Closed s \<longleftrightarrow> es_Err s = Some ErrHelperClosed"

record 'c Endpoint =
  e_config :: EndpointConfig
  e_state :: "'c EndpointState"
  e_sequence :: "64 word"
  e_r :: "nat option"

datatype timer = Armed time | Fired | Drained

datatype 'c runner =
    RunLoop (rn_config: EndpointConfig) (rn_state: "'c EndpointState") (rn_connTimestamp: time) (rn_initialized: bool)
  | RunConnecting (rn_config: EndpointConfig) (rn_state: "'c EndpointState") (rn_connTimestamp: time) (rn_initialized: bool)
  | RunExited

datatype ecaller =
    CallIdle
  | CallWaitReady bool
  | Calling nat
  | CallDone nat "gerr option" time
  | CallReturned "gerr option"

datatype ecloser = ClsIdle | ClsWait | ClsReturned

record 'c esys =
  ep_e :: "'c Endpoint"
  ep_ready :: int
  ep_closed :: int
  ep_configChange :: "EndpointConfig list"
  ep_configClosed :: bool
  ep_stateChange :: "'c EndpointState list"
  ep_stateClosed :: bool
  ep_run :: "'c runner"
  ep_timer :: timer
  ep_updates :: "(nat option \<times> gerr option \<times> time \<times> bool) list"
  ep_retiring :: "nat list"
  ep_created :: nat
  ep_released :: "nat list"
  ep_callers :: "nat \<Rightarrow> ecaller"
  ep_closers :: "nat \<Rightarrow> ecloser"
  ep_now :: time
  ep_panic :: bool

definition endpointChanSize :: nat where "endpointChanSize = 32"

definition NewEndpoint :: "EndpointConfig \<Rightarrow> time \<Rightarrow> 'c \<Rightarrow> 'c esys" where
  "NewEndpoint config now calls0 =
     (let st = \<lparr>es_Err = Some ErrDisconnected, es_Changed = now, es_Updated = now, es_IdleSince = time_zero, es_Calls = calls0\<rparr>
      in \<lparr>ep_e = \<lparr>e_config = config, e_state = st, e_sequence = 0, e_r = None\<rparr>, ep_ready = 1, ep_closed = 1,
          ep_configChange = [], ep_configClosed = False, ep_stateChange = [], ep_stateClosed = False,
          ep_run = RunLoop config st time_zero False, ep_timer = Armed now, ep_updates = [], ep_retiring = [],
          ep_created = 0, ep_released = [], ep_callers = (\<lambda>_. CallIdle), ep_closers = (\<lambda>_. ClsIdle),
          ep_now = now, ep_panic = False\<rparr>)"

section \<open>The methods under the mutex\<close>

definition Endpoint_Config :: "'c esys \<Rightarrow> EndpointConfig" where
  "Endpoint_Config s = e_config (ep_e s)"

definition Endpoint_State :: "'c esys \<Rightarrow> 'c EndpointState" where
  "Endpoint_State s = e_state (ep_e s)"

definition set_state :: "('c EndpointState \<Rightarrow> 'c EndpointState) \<Rightarrow> 'c esys \<Rightarrow> 'c esys" where
  "set_state f s = s\<lparr>ep_e := (ep_e s)\<lparr>e_state := f (e_state (ep_e s))\<rparr>\<rparr>"

text \<open>The sends on stateChange and configChange: a panic if closed, blocked (None) if full.\<close>

definition send_state :: "'c esys \<Rightarrow> 'c esys option" where
  "send_state s =
     (if ep_stateClosed s then Some (s\<lparr>ep_panic := True\<rparr>)
      else if endpointChanSize \<le> length (ep_stateChange s) then None
      else Some (s\<lparr>ep_stateChange := ep_stateChange s @ [e_state (ep_e s)]\<rparr>))"

definition Endpoint_UpdateConfig :: "EndpointConfig \<Rightarrow> 'c esys \<Rightarrow> 'c esys option" where
  "Endpoint_UpdateConfig config s =
     (let s1 = s\<lparr>ep_e := (ep_e s)\<lparr>e_config := config\<rparr>\<rparr>
      in if State_Closed (e_state (ep_e s)) then Some s1
         else if ep_configClosed s then Some (s1\<lparr>ep_panic := True\<rparr>)
         else if endpointChanSize \<le> length (ep_configChange s) then None
         else Some (s1\<lparr>ep_configChange := ep_configChange s @ [config]\<rparr>))"

definition updateConnectionState :: "gerr option \<Rightarrow> time \<Rightarrow> bool \<Rightarrow> 'c esys \<Rightarrow> 'c esys option" where
  "updateConnectionState err when onlyIfNewer s =
     (let st = e_state (ep_e s)
      in if State_Closed st then Some s
         else if onlyIfNewer \<and> After (es_Updated st) when then Some s
         else
           (let s1 = (if es_Err st \<noteq> err then set_state (\<lambda>st. st\<lparr>es_Changed := when\<rparr>) s else s)
            in send_state (set_state (\<lambda>st. st\<lparr>es_Err := err, es_Updated := when\<rparr>) s1)))"

definition retire :: "nat option \<Rightarrow> 'c esys \<Rightarrow> 'c esys" where
  "retire r s = (case r of None \<Rightarrow> s | Some i \<Rightarrow> s\<lparr>ep_retiring := ep_retiring s @ [i]\<rparr>)"

definition ready_Done :: "'c esys \<Rightarrow> 'c esys" where
  "ready_Done s = s\<lparr>ep_ready := ep_ready s - 1, ep_panic := (ep_panic s \<or> ep_ready s \<le> 0)\<rparr>"

definition updateConnection :: "nat option \<times> gerr option \<times> time \<times> bool \<Rightarrow> 'c esys \<Rightarrow> 'c esys option" where
  "updateConnection u s =
     (case u of (r, err, when, makeReady) \<Rightarrow>
       (let result =
          (if State_Closed (e_state (ep_e s)) then Some (r, s)
           else
             (let s1 = set_state (\<lambda>st. st\<lparr>es_Err := err\<rparr>) (s\<lparr>ep_e := (ep_e s)\<lparr>e_r := r\<rparr>\<rparr>)
              in case updateConnectionState err when False s1 of
                   None \<Rightarrow> None
                 | Some s2 \<Rightarrow> Some (e_r (ep_e s), s2)))
        in case result of
             None \<Rightarrow> None
           | Some (retired, s2) \<Rightarrow>
               (let s3 = retire retired s2 in Some (if makeReady then ready_Done s3 else s3))))"

text \<open>IsUnavailableErr is in helper/utility.go.\<close>

definition IsUnavailableErr :: "gerr option \<Rightarrow> bool" where
  "IsUnavailableErr err =
     (case err of None \<Rightarrow> False | Some e \<Rightarrow> Contains (Error e) ''The RPC server is unavailable'')"

definition updateStateAfterCall :: "nat \<Rightarrow> gerr option \<Rightarrow> time \<Rightarrow> 'c esys \<Rightarrow> 'c esys option" where
  "updateStateAfterCall r err when s =
     (let s1 = (if Before (es_IdleSince (e_state (ep_e s))) when
                then set_state (\<lambda>st. st\<lparr>es_IdleSince := when\<rparr>) s else s)
      in if IsUnavailableErr err \<and> e_r (ep_e s) = Some r then updateConnectionState err when True s1 else Some s1)"

definition updateHealth :: "64 word \<Rightarrow> 'c \<Rightarrow> 'c esys \<Rightarrow> 'c esys option" where
  "updateHealth sequence calls s =
     (if State_Closed (e_state (ep_e s)) then Some s
      else if e_sequence (ep_e s) > sequence then Some s
      else
        (let s1 = set_state (\<lambda>st. st\<lparr>es_Updated := ep_now s, es_Calls := calls\<rparr>) s
         in send_state (s1\<lparr>ep_e := (ep_e s1)\<lparr>e_sequence := sequence\<rparr>\<rparr>)))"

section \<open>Close, in two sections\<close>

definition Endpoint_Close :: "nat \<Rightarrow> 'c esys \<Rightarrow> 'c esys option" where
  "Endpoint_Close i s =
     (if ep_closers s i = ClsIdle then
        Some (if es_Err (e_state (ep_e s)) = Some ErrHelperClosed
              then s\<lparr>ep_closers := (ep_closers s)(i := ClsReturned)\<rparr>
              else (set_state (\<lambda>st. st\<lparr>es_Err := Some ErrHelperClosed\<rparr>) s)
                     \<lparr>ep_panic := (ep_panic s \<or> ep_configClosed s \<or> ep_stateClosed s),
                      ep_configClosed := True, ep_stateClosed := True,
                      ep_closers := (ep_closers s)(i := ClsWait)\<rparr>)
      else None)"

definition Endpoint_CloseFinish :: "nat \<Rightarrow> 'c esys \<Rightarrow> 'c esys option" where
  "Endpoint_CloseFinish i s =
     (if ep_closers s i = ClsWait \<and> ep_closed s = 0 then
        (let s1 = s\<lparr>ep_closers := (ep_closers s)(i := ClsReturned)\<rparr>
         in Some (case e_r (ep_e s) of
                    None \<Rightarrow> s1
                  | Some r \<Rightarrow> s1\<lparr>ep_released := ep_released s @ [r], ep_e := (ep_e s)\<lparr>e_r := None\<rparr>\<rparr>))
      else None)"

section \<open>Calls\<close>

text \<open>
  Vector and Backlog (report = False) and Report (report = True): they wait for the first
  connection attempt, read the state, and call the reporter, or fail at once.
\<close>

definition Call_Begin_ep :: "nat \<Rightarrow> bool \<Rightarrow> 'c esys \<Rightarrow> 'c esys option" where
  "Call_Begin_ep i report s =
     (if ep_callers s i = CallIdle then Some (s\<lparr>ep_callers := (ep_callers s)(i := CallWaitReady report)\<rparr>) else None)"

definition Call_Ready :: "('c \<Rightarrow> nat) \<Rightarrow> ('c \<Rightarrow> duration) \<Rightarrow> nat \<Rightarrow> 'c esys \<Rightarrow> 'c esys option" where
  "Call_Ready Len MaxElapsed i s =
     (case ep_callers s i of
        CallWaitReady report \<Rightarrow>
          (if ep_ready s = 0 then
             Some (let st = e_state (ep_e s); threshold = ec_AcceptableCallDuration (e_config (ep_e s));
                       go = (\<lambda>c. s\<lparr>ep_callers := (ep_callers s)(i := c)\<rparr>)
                   in if es_Err st \<noteq> None then go (CallReturned (es_Err st))
                      else if \<not> report \<and> State_Unresponsive Len MaxElapsed threshold st
                           then go (CallReturned (Some ErrUnresponsive))
                      else (case e_r (ep_e s) of
                              None \<Rightarrow> s\<lparr>ep_panic := True\<rparr>
                            | Some r \<Rightarrow> go (Calling r)))
           else None)
      | _ \<Rightarrow> None)"

definition Call_Return :: "nat \<Rightarrow> gerr option \<Rightarrow> 'c esys \<Rightarrow> 'c esys option" where
  "Call_Return i err s =
     (case ep_callers s i of
        Calling r \<Rightarrow> Some (s\<lparr>ep_callers := (ep_callers s)(i := CallDone r err (ep_now s))\<rparr>)
      | _ \<Rightarrow> None)"

definition Call_Finish :: "nat \<Rightarrow> 'c esys \<Rightarrow> 'c esys option" where
  "Call_Finish i s =
     (case ep_callers s i of
        CallDone r err when \<Rightarrow>
          (case updateStateAfterCall r err when s of
             None \<Rightarrow> None
           | Some t \<Rightarrow> Some (t\<lparr>ep_callers := (ep_callers t)(i := CallReturned err)\<rparr>))
      | _ \<Rightarrow> None)"

section \<open>The goroutine of run\<close>

text \<open>Stop on a timer that has fired and been read leaves resetActiveTimer waiting for ever.\<close>

definition resetActiveTimer :: "time \<Rightarrow> duration \<Rightarrow> timer \<Rightarrow> timer option" where
  "resetActiveTimer now d t = (case t of Drained \<Rightarrow> None | _ \<Rightarrow> Some (Armed (now + d)))"

definition resetConnectionTimer :: "time \<Rightarrow> bool \<Rightarrow> EndpointConfig \<Rightarrow> time \<Rightarrow> timer \<Rightarrow> timer option" where
  "resetConnectionTimer now online config connTimestamp t =
     (let interval = (if online then ec_OnlineReconnectionInterval config else ec_OfflineReconnectionInterval config)
      in resetActiveTimer now (TimeSub (TimeAdd connTimestamp interval) now) t)"

definition set_timer :: "'c esys \<Rightarrow> timer option \<Rightarrow> 'c esys option" where
  "set_timer s t = (case t of None \<Rightarrow> None | Some t \<Rightarrow> Some (s\<lparr>ep_timer := t\<rparr>))"

definition run_config :: "'c esys \<Rightarrow> 'c esys option" where
  "run_config s =
     (case (ep_run s, ep_configChange s) of
        (RunLoop config st ts ini, newConfig # rest) \<Rightarrow>
          (let cacheChange = (ec_Caching config \<noteq> ec_Caching newConfig \<or> ec_CacheDuration config \<noteq> ec_CacheDuration newConfig);
               limitChange = (ec_Limiting config \<noteq> ec_Limiting newConfig \<or> ec_Limit config \<noteq> ec_Limit newConfig);
               connTimerChange = (ec_OfflineReconnectionInterval config \<noteq> ec_OfflineReconnectionInterval newConfig \<or>
                 ec_OnlineReconnectionInterval config \<noteq> ec_OnlineReconnectionInterval newConfig);
               s1 = s\<lparr>ep_run := RunLoop newConfig st ts ini, ep_configChange := rest\<rparr>
           in if cacheChange \<or> limitChange then set_timer s1 (resetActiveTimer (ep_now s) 0 (ep_timer s))
              else if connTimerChange
                   then set_timer s1 (resetConnectionTimer (ep_now s) (State_Online st) newConfig ts (ep_timer s))
              else Some s1)
      | _ \<Rightarrow> None)"

definition run_state :: "'c esys \<Rightarrow> 'c esys option" where
  "run_state s =
     (case (ep_run s, ep_stateChange s) of
        (RunLoop config st ts ini, newState # rest) \<Rightarrow>
          (let onlineChange = (State_Online st \<noteq> State_Online newState);
               s1 = s\<lparr>ep_run := RunLoop config newState ts ini, ep_stateChange := rest\<rparr>
           in if onlineChange \<and> \<not> State_Online newState
              then set_timer s1 (resetActiveTimer (ep_now s) 0 (ep_timer s)) else Some s1)
      | _ \<Rightarrow> None)"

definition run_exit :: "'c esys \<Rightarrow> 'c esys option" where
  "run_exit s =
     (case ep_run s of
        RunLoop config st ts ini \<Rightarrow>
          (if ep_configChange s = [] \<and> ep_configClosed s \<or> ep_stateChange s = [] \<and> ep_stateClosed s
           then Some (s\<lparr>ep_run := RunExited, ep_closed := ep_closed s - 1\<rparr>) else None)
      | _ \<Rightarrow> None)"

text \<open>
  createEndpointConnection, with the errors of NewReporter and of opening the work pool as
  arguments; it returns the reporter, if any, and the number and the releases of the reporters
  that it has created.
\<close>

definition NewLimiter_err :: "gerr option \<Rightarrow> nat \<Rightarrow> gerr option" where
  "NewLimiter_err pool_err limit = (if limit = 0 then Some ErrZeroWorkers else pool_err)"

definition createEndpointConnection ::
  "gerr option \<Rightarrow> gerr option \<Rightarrow> EndpointConfig \<Rightarrow> nat \<Rightarrow> nat option \<times> gerr option \<times> nat \<times> nat list" where
  "createEndpointConnection reporter_err pool_err config next =
     (case reporter_err of
        Some e \<Rightarrow> (None, Some e, next, [])
      | None \<Rightarrow>
          (case (if ec_Limiting config then NewLimiter_err pool_err (ec_Limit config) else None) of
             Some e \<Rightarrow> (None, Some e, Suc next, [next])
           | None \<Rightarrow> (Some next, None, Suc next, [])))"

text \<open>
  run is inside createEndpointConnection from the event of the timer to the event of its return;
  the timestamp is the time of the first, the timer is set again at the time of the second.
\<close>

definition run_connect :: "'c esys \<Rightarrow> 'c esys option" where
  "run_connect s =
     (case ep_run s of
        RunLoop config st ts ini \<Rightarrow>
          (if ep_timer s = Fired
           then Some (s\<lparr>ep_run := RunConnecting config st (ep_now s) ini, ep_timer := Drained\<rparr>) else None)
      | _ \<Rightarrow> None)"

definition run_connected :: "gerr option \<Rightarrow> gerr option \<Rightarrow> 'c esys \<Rightarrow> 'c esys option" where
  "run_connected reporter_err pool_err s =
     (case ep_run s of
        RunConnecting config st ts ini \<Rightarrow>
          (case createEndpointConnection reporter_err pool_err config (ep_created s) of
             (r, err, created, rel) \<Rightarrow>
               Some (s\<lparr>ep_run := RunLoop config st ts True, ep_created := created,
                       ep_released := ep_released s @ rel,
                       ep_updates := ep_updates s @ [(r, err, ts, \<not> ini)],
                       ep_timer := Armed (ep_now s + (if err = None then ec_OnlineReconnectionInterval config
                                                     else ec_OfflineReconnectionInterval config))\<rparr>))
      | _ \<Rightarrow> None)"

section \<open>The machine\<close>

datatype 'c endpoint_event =
    EvTick time
  | EvTimer
  | EvRunConfig
  | EvRunState
  | EvRunExit
  | EvRunConnect
  | EvRunConnected "gerr option" "gerr option"
  | EvUpdateConnection nat
  | EvRetire nat
  | EvUpdateConfig EndpointConfig
  | EvHealth "64 word" 'c
  | EvCallBegin nat bool
  | EvCallReady nat
  | EvCallReturn nat "gerr option"
  | EvCallFinish nat
  | EvClose nat
  | EvCloseFinish nat

definition remove_at :: "nat \<Rightarrow> 'a list \<Rightarrow> 'a list" where
  "remove_at k xs = take k xs @ drop (Suc k) xs"

text \<open>NewReporter and the work pool never fail with the ErrClosed of this package.\<close>

definition foreign :: "gerr option \<Rightarrow> bool" where
  "foreign err \<longleftrightarrow> err \<noteq> Some ErrHelperClosed"

definition timer_fires :: "'c esys \<Rightarrow> 'c esys option" where
  "timer_fires s = (case ep_timer s of Armed t \<Rightarrow> if t \<le> ep_now s then Some (s\<lparr>ep_timer := Fired\<rparr>) else None | _ \<Rightarrow> None)"

fun endpoint_live :: "('c \<Rightarrow> nat) \<Rightarrow> ('c \<Rightarrow> duration) \<Rightarrow> 'c endpoint_event \<Rightarrow> 'c esys \<Rightarrow> 'c esys option" where
  "endpoint_live L M (EvTick t) s = (if ep_now s \<le> t then Some (s\<lparr>ep_now := t\<rparr>) else None)"
| "endpoint_live L M EvTimer s = timer_fires s"
| "endpoint_live L M EvRunConfig s = run_config s"
| "endpoint_live L M EvRunState s = run_state s"
| "endpoint_live L M EvRunExit s = run_exit s"
| "endpoint_live L M EvRunConnect s = run_connect s"
| "endpoint_live L M (EvRunConnected e1 e2) s = (if foreign e1 \<and> foreign e2 then run_connected e1 e2 s else None)"
| "endpoint_live L M (EvUpdateConnection k) s =
     (if k < length (ep_updates s)
      then updateConnection (ep_updates s ! k) (s\<lparr>ep_updates := remove_at k (ep_updates s)\<rparr>) else None)"
| "endpoint_live L M (EvRetire k) s =
     (if k < length (ep_retiring s)
      then Some (s\<lparr>ep_retiring := remove_at k (ep_retiring s), ep_released := ep_released s @ [ep_retiring s ! k]\<rparr>)
      else None)"
| "endpoint_live L M (EvUpdateConfig c) s = Endpoint_UpdateConfig c s"
| "endpoint_live L M (EvHealth q c) s = updateHealth q c s"
| "endpoint_live L M (EvCallBegin i report) s = Call_Begin_ep i report s"
| "endpoint_live L M (EvCallReady i) s = Call_Ready L M i s"
| "endpoint_live L M (EvCallReturn i err) s = Call_Return i err s"
| "endpoint_live L M (EvCallFinish i) s = Call_Finish i s"
| "endpoint_live L M (EvClose i) s = Endpoint_Close i s"
| "endpoint_live L M (EvCloseFinish i) s = Endpoint_CloseFinish i s"

definition endpoint_step :: "('c \<Rightarrow> nat) \<Rightarrow> ('c \<Rightarrow> duration) \<Rightarrow> 'c endpoint_event \<Rightarrow> 'c esys \<Rightarrow> 'c esys option" where
  "endpoint_step L M e s = (if ep_panic s then None else endpoint_live L M e s)"

definition endpoint_init :: "'c esys \<Rightarrow> bool" where
  "endpoint_init s \<longleftrightarrow> (\<exists>config now calls. s = NewEndpoint config now calls)"

section \<open>The invariant\<close>

definition makeReady :: "nat option \<times> gerr option \<times> time \<times> bool \<Rightarrow> bool" where
  "makeReady u = snd (snd (snd u))"

definition readies :: "(nat option \<times> gerr option \<times> time \<times> bool) list \<Rightarrow> int" where
  "readies us = int (length (filter makeReady us))"

definition reporters :: "(nat option \<times> gerr option \<times> time \<times> bool) list \<Rightarrow> nat multiset" where
  "reporters us = mset (concat (map (\<lambda>u. case fst u of None \<Rightarrow> [] | Some r \<Rightarrow> [r]) us))"

definition in_use :: "nat option \<Rightarrow> nat multiset" where
  "in_use r = (case r of None \<Rightarrow> {#} | Some i \<Rightarrow> {#i#})"

definition update_ok :: "nat option \<times> gerr option \<times> time \<times> bool \<Rightarrow> bool" where
  "update_ok u \<longleftrightarrow> foreign (fst (snd u)) \<and> (fst (snd u) = None \<longrightarrow> fst u \<noteq> None)"

text \<open>The mutex's data and the channels.\<close>

definition inv_chans :: "'c esys \<Rightarrow> bool" where
  "inv_chans s \<longleftrightarrow> ep_configClosed s = State_Closed (e_state (ep_e s)) \<and>
     ep_stateClosed s = State_Closed (e_state (ep_e s)) \<and> \<not> ep_panic s \<and>
     (es_Err (e_state (ep_e s)) = None \<longrightarrow> e_r (ep_e s) \<noteq> None) \<and>
     (\<forall>u \<in> set (ep_updates s). update_ok u)"

text \<open>Every reporter created is in one place: released, about to be, on its way, or in use.\<close>

definition inv_reporters :: "'c esys \<Rightarrow> bool" where
  "inv_reporters s \<longleftrightarrow> mset [0..<ep_created s] =
     mset (ep_released s) + mset (ep_retiring s) + reporters (ep_updates s) + in_use (e_r (ep_e s))"

definition inv_ready :: "'c runner \<Rightarrow> int \<Rightarrow> int \<Rightarrow> bool" where
  "inv_ready rn ready pend \<longleftrightarrow> 0 \<le> pend \<and> pend \<le> 1 \<and>
     (case rn of
        RunLoop c st ts ini \<Rightarrow> (if ini then ready = pend else ready = 1 \<and> pend = 0)
      | RunConnecting c st ts ini \<Rightarrow> (if ini then ready = pend else ready = 1 \<and> pend = 0)
      | RunExited \<Rightarrow> ready = pend \<or> ready = 1 \<and> pend = 0)"

definition inv_run :: "'c esys \<Rightarrow> bool" where
  "inv_run s \<longleftrightarrow> inv_ready (ep_run s) (ep_ready s) (readies (ep_updates s)) \<and>
     (case ep_run s of
        RunLoop c st ts ini \<Rightarrow> ep_timer s \<noteq> Drained \<and> ep_closed s = 1
      | RunConnecting c st ts ini \<Rightarrow> ep_timer s = Drained \<and> ep_closed s = 1
      | RunExited \<Rightarrow> ep_closed s = 0 \<and> State_Closed (e_state (ep_e s)))"

definition endpoint_inv :: "'c esys \<Rightarrow> bool" where
  "endpoint_inv s \<longleftrightarrow> inv_chans s \<and> inv_reporters s \<and> inv_run s"

lemma mset_remove_at: "k < length xs \<Longrightarrow> mset xs = add_mset (xs ! k) (mset (remove_at k xs))"
  using id_take_nth_drop [of k xs] by (metis remove_at_def mset.simps(2) mset_append union_mset_add_mset_right)

lemma set_remove_at: "k < length xs \<Longrightarrow> set xs = insert (xs ! k) (set (remove_at k xs))"
  using mset_remove_at by (metis set_mset_add_mset_insert set_mset_mset)

lemma readies_simps [simp]:
  "readies [] = 0" "readies (us @ vs) = readies us + readies vs"
  "readies (u # us) = (if makeReady u then 1 else 0) + readies us"
  by (simp_all add: readies_def)

lemma reporters_simps [simp]:
  "reporters [] = {#}" "reporters (us @ vs) = reporters us + reporters vs"
  "reporters (u # us) = in_use (fst u) + reporters us"
  by (simp_all add: reporters_def in_use_def split: option.split)

lemma in_use_simps [simp]: "in_use None = {#}" "in_use (Some r) = {#r#}"
  by (simp_all add: in_use_def)

lemma readies_remove: "k < length us \<Longrightarrow> readies us = (if makeReady (us ! k) then 1 else 0) + readies (remove_at k us)"
  using id_take_nth_drop [of k us] unfolding remove_at_def
  by (metis (no_types) append.assoc add.left_commute readies_simps(2,3))

lemma reporters_remove: "k < length us \<Longrightarrow> reporters us = in_use (fst (us ! k)) + reporters (remove_at k us)"
  using id_take_nth_drop [of k us] unfolding remove_at_def
  by (metis (no_types) union_lcomm reporters_simps(2,3))

lemma readies_nonneg [simp]: "0 \<le> readies us"
  by (simp add: readies_def)

lemma unavailable_foreign: "IsUnavailableErr err \<Longrightarrow> foreign err \<and> err \<noteq> None"
  by (auto simp: IsUnavailableErr_def foreign_def split: option.splits)

text \<open>What a section does to the parts of the state that the invariant is about.\<close>

definition same_rest :: "'c esys \<Rightarrow> 'c esys \<Rightarrow> bool" where
  "same_rest s t \<longleftrightarrow> ep_configClosed t = ep_configClosed s \<and> ep_stateClosed t = ep_stateClosed s \<and>
     ep_panic t = ep_panic s \<and> e_r (ep_e t) = e_r (ep_e s) \<and> ep_updates t = ep_updates s \<and>
     ep_created t = ep_created s \<and> ep_released t = ep_released s \<and> ep_retiring t = ep_retiring s \<and>
     ep_run t = ep_run s \<and> ep_ready t = ep_ready s \<and> ep_closed t = ep_closed s \<and> ep_timer t = ep_timer s"

lemma inv_same_rest:
  assumes "endpoint_inv s" "same_rest s t" "es_Err (e_state (ep_e t)) = es_Err (e_state (ep_e s))"
  shows "endpoint_inv t"
  using assms
  by (cases "ep_run s") (simp_all add: endpoint_inv_def inv_chans_def inv_reporters_def inv_run_def same_rest_def State_Closed_def)

lemma send_state_same:
  assumes "send_state s = Some t" "\<not> ep_stateClosed s"
  shows "same_rest s t \<and> ep_e t = ep_e s"
  using assms by (auto simp: send_state_def same_rest_def split: if_splits)

lemma updateConnectionState_same:
  assumes "updateConnectionState err when newer s = Some t"
    "ep_stateClosed s = State_Closed (e_state (ep_e s))"
  shows "same_rest s t \<and> (es_Err (e_state (ep_e t)) = es_Err (e_state (ep_e s)) \<or>
     \<not> State_Closed (e_state (ep_e s)) \<and> es_Err (e_state (ep_e t)) = err)"
proof -
  let ?st = "e_state (ep_e s)"
  let ?s1 = "if es_Err ?st \<noteq> err then set_state (\<lambda>st. st\<lparr>es_Changed := when\<rparr>) s else s"
  let ?s2 = "set_state (\<lambda>st. st\<lparr>es_Err := err, es_Updated := when\<rparr>) ?s1"
  have r: "same_rest s ?s2" "es_Err (e_state (ep_e ?s2)) = err" "ep_stateClosed ?s2 = ep_stateClosed s"
    by (simp_all add: same_rest_def set_state_def)
  show ?thesis
  proof (cases "State_Closed ?st \<or> newer \<and> After (es_Updated ?st) when")
    case True
    with assms show ?thesis by (auto simp: updateConnectionState_def same_rest_def split: if_splits)
  next
    case False
    with assms(1) have "send_state ?s2 = Some t" by (auto simp: updateConnectionState_def Let_def split: if_splits)
    moreover have "\<not> ep_stateClosed ?s2" using False assms(2) r(3) by simp
    ultimately have "same_rest ?s2 t" "ep_e t = ep_e ?s2" by (auto dest: send_state_same)
    with r False show ?thesis by (auto simp: same_rest_def)
  qed
qed

lemma inv_loop:
  assumes "endpoint_inv s" "ep_run s = RunLoop c st ts ini" "tm \<noteq> Drained"
  shows "endpoint_inv (s\<lparr>ep_run := RunLoop c' st' ts' ini, ep_configChange := q, ep_stateChange := q', ep_timer := tm\<rparr>)"
  using assms by (simp add: endpoint_inv_def inv_chans_def inv_reporters_def inv_run_def inv_ready_def)

lemma loop_timer: "endpoint_inv s \<Longrightarrow> ep_run s = RunLoop c st ts ini \<Longrightarrow> ep_timer s \<noteq> Drained"
  by (simp add: endpoint_inv_def inv_run_def)

lemma resetActiveTimer_cases: "resetActiveTimer now d tm = Some tm' \<Longrightarrow> tm' \<noteq> Drained"
  by (auto simp: resetActiveTimer_def split: timer.splits)

lemma run_config_cases:
  assumes "run_config s = Some t"
  shows "\<exists>c st ts ini c' q tm. ep_run s = RunLoop c st ts ini \<and> (tm = ep_timer s \<or> tm \<noteq> Drained) \<and>
     t = s\<lparr>ep_run := RunLoop c' st ts ini, ep_configChange := q, ep_stateChange := ep_stateChange s, ep_timer := tm\<rparr>"
proof -
  obtain c st ts ini c' q where f: "ep_run s = RunLoop c st ts ini" "ep_configChange s = c' # q"
    using assms by (auto simp: run_config_def split: runner.splits list.splits)
  let ?s1 = "s\<lparr>ep_run := RunLoop c' st ts ini, ep_configChange := q\<rparr>"
  have "t = ?s1 \<or> (\<exists>tm. tm \<noteq> Drained \<and> t = ?s1\<lparr>ep_timer := tm\<rparr>)"
    using assms f
    by (auto simp: run_config_def Let_def set_timer_def resetConnectionTimer_def split: if_splits option.splits
        dest: resetActiveTimer_cases)
  then obtain tm where "tm = ep_timer s \<or> tm \<noteq> Drained" "t = ?s1\<lparr>ep_timer := tm\<rparr>" by fastforce
  with f show ?thesis by fastforce
qed

lemma run_state_cases:
  assumes "run_state s = Some t"
  shows "\<exists>c st ts ini st' q tm. ep_run s = RunLoop c st ts ini \<and> (tm = ep_timer s \<or> tm \<noteq> Drained) \<and>
     t = s\<lparr>ep_run := RunLoop c st' ts ini, ep_configChange := ep_configChange s, ep_stateChange := q, ep_timer := tm\<rparr>"
proof -
  obtain c st ts ini st' q where f: "ep_run s = RunLoop c st ts ini" "ep_stateChange s = st' # q"
    using assms by (auto simp: run_state_def split: runner.splits list.splits)
  let ?s1 = "s\<lparr>ep_run := RunLoop c st' ts ini, ep_stateChange := q\<rparr>"
  have "t = ?s1 \<or> (\<exists>tm. tm \<noteq> Drained \<and> t = ?s1\<lparr>ep_timer := tm\<rparr>)"
    using assms f
    by (auto simp: run_state_def Let_def set_timer_def split: if_splits option.splits dest: resetActiveTimer_cases)
  then obtain tm where "tm = ep_timer s \<or> tm \<noteq> Drained" "t = ?s1\<lparr>ep_timer := tm\<rparr>" by fastforce
  with f show ?thesis by fastforce
qed

lemma inv_run_config: "endpoint_inv s \<Longrightarrow> run_config s = Some t \<Longrightarrow> endpoint_inv t"
  using run_config_cases loop_timer inv_loop by metis

lemma inv_run_state: "endpoint_inv s \<Longrightarrow> run_state s = Some t \<Longrightarrow> endpoint_inv t"
  using run_state_cases loop_timer inv_loop by metis

lemma inv_timer:
  assumes "endpoint_inv s" "timer_fires s = Some t"
  shows "endpoint_inv t"
proof -
  from assms(2) obtain x where "ep_timer s = Armed x" "t = s\<lparr>ep_timer := Fired\<rparr>"
    by (auto simp: timer_fires_def split: timer.splits if_splits)
  with assms(1) show ?thesis
    by (cases "ep_run s") (simp_all add: endpoint_inv_def inv_chans_def inv_reporters_def inv_run_def)
qed

lemma inv_run_exit:
  assumes "endpoint_inv s" "run_exit s = Some t"
  shows "endpoint_inv t"
proof -
  from assms(2) obtain c st ts ini where "ep_run s = RunLoop c st ts ini" "ep_configClosed s \<or> ep_stateClosed s"
    "t = s\<lparr>ep_run := RunExited, ep_closed := ep_closed s - 1\<rparr>"
    by (auto simp: run_exit_def split: runner.splits if_splits)
  with assms(1) show ?thesis
    by (cases ini) (auto simp: endpoint_inv_def inv_chans_def inv_reporters_def inv_run_def inv_ready_def)
qed

lemma inv_run_connect:
  assumes "endpoint_inv s" "run_connect s = Some t"
  shows "endpoint_inv t"
proof -
  from assms(2) obtain c st ts ini where "ep_run s = RunLoop c st ts ini"
    "t = s\<lparr>ep_run := RunConnecting c st (ep_now s) ini, ep_timer := Drained\<rparr>"
    by (auto simp: run_connect_def split: runner.splits if_splits)
  with assms(1) show ?thesis
    by (simp add: endpoint_inv_def inv_chans_def inv_reporters_def inv_run_def inv_ready_def)
qed

lemma createEndpointConnection_cases:
  assumes "createEndpointConnection e1 e2 config next = (r, err, created, rel)"
  shows "mset [0..<created] = mset [0..<next] + mset rel + in_use r \<and> (err = None \<longleftrightarrow> r \<noteq> None) \<and>
     (foreign e1 \<and> foreign e2 \<longrightarrow> foreign err)"
  using assms
  by (auto simp: createEndpointConnection_def NewLimiter_err_def foreign_def atLeastLessThanSuc
      split: option.splits if_splits)

lemma inv_run_connected:
  assumes inv: "endpoint_inv s" and st: "run_connected e1 e2 s = Some t" and f: "foreign e1 \<and> foreign e2"
  shows "endpoint_inv t"
proof -
  from st obtain config st ts ini where rn: "ep_run s = RunConnecting config st ts ini"
    by (auto simp: run_connected_def split: runner.splits)
  obtain r err created rel where c: "createEndpointConnection e1 e2 config (ep_created s) = (r, err, created, rel)"
    by (metis prod.exhaust)
  note cc = createEndpointConnection_cases [OF c]
  have t: "t = s\<lparr>ep_run := RunLoop config st ts True, ep_created := created, ep_released := ep_released s @ rel,
     ep_updates := ep_updates s @ [(r, err, ts, \<not> ini)], ep_timer := ep_timer t\<rparr>" "ep_timer t \<noteq> Drained"
    using st rn c by (auto simp: run_connected_def)
  show ?thesis
    unfolding endpoint_inv_def
  proof (intro conjI)
    show "inv_chans t" using inv cc f by (subst t(1)) (auto simp: endpoint_inv_def inv_chans_def update_ok_def)
    show "inv_reporters t" using inv cc by (subst t(1)) (simp add: endpoint_inv_def inv_reporters_def)
    show "inv_run t"
      using inv rn t(2) by (subst t(1)) (auto simp: endpoint_inv_def inv_run_def inv_ready_def makeReady_def split: if_splits)
  qed
qed

lemma retire_fields [simp]:
  "ep_configClosed (retire r s) = ep_configClosed s" "ep_stateClosed (retire r s) = ep_stateClosed s"
  "ep_panic (retire r s) = ep_panic s" "ep_e (retire r s) = ep_e s" "ep_updates (retire r s) = ep_updates s"
  "ep_created (retire r s) = ep_created s" "ep_released (retire r s) = ep_released s"
  "mset (ep_retiring (retire r s)) = mset (ep_retiring s) + in_use r" "ep_run (retire r s) = ep_run s"
  "ep_ready (retire r s) = ep_ready s" "ep_closed (retire r s) = ep_closed s" "ep_timer (retire r s) = ep_timer s"
  by (simp_all add: retire_def split: option.split)

text \<open>The effect of updateConnection, seen by the invariant.\<close>

lemma updateConnection_cases:
  assumes st: "updateConnection (r, err, when, mk) s = Some t"
    and c: "ep_stateClosed s = State_Closed (e_state (ep_e s))"
  shows "\<exists>old s2. same_rest (s\<lparr>ep_e := (ep_e s)\<lparr>e_r := e_r (ep_e s2)\<rparr>\<rparr>) s2 \<and>
     t = (if mk then ready_Done (retire old s2) else retire old s2) \<and>
     in_use old + in_use (e_r (ep_e s2)) = in_use r + in_use (e_r (ep_e s)) \<and>
     (if State_Closed (e_state (ep_e s)) then ep_e s2 = ep_e s
      else e_r (ep_e s2) = r \<and> es_Err (e_state (ep_e s2)) = err)"
proof (cases "State_Closed (e_state (ep_e s))")
  case True
  with st have "t = (if mk then ready_Done (retire r s) else retire r s)" by (simp add: updateConnection_def Let_def)
  with True show ?thesis by (intro exI [of _ r] exI [of _ s]) (simp add: same_rest_def)
next
  case False
  let ?s1 = "set_state (\<lambda>st. st\<lparr>es_Err := err\<rparr>) (s\<lparr>ep_e := (ep_e s)\<lparr>e_r := r\<rparr>\<rparr>)"
  from st False obtain s2 where u: "updateConnectionState err when False ?s1 = Some s2"
    and t: "t = (if mk then ready_Done (retire (e_r (ep_e s)) s2) else retire (e_r (ep_e s)) s2)"
    by (auto simp: updateConnection_def Let_def split: option.splits)
  have s1: "e_r (ep_e ?s1) = r" "es_Err (e_state (ep_e ?s1)) = err" by (simp_all add: set_state_def)
  have "same_rest ?s1 s2 \<and> es_Err (e_state (ep_e s2)) = err"
  proof (cases "State_Closed (e_state (ep_e ?s1))")
    case True
    with u s1 show ?thesis by (simp add: updateConnectionState_def same_rest_def)
  next
    case sc: False
    with False c have "ep_stateClosed ?s1 = State_Closed (e_state (ep_e ?s1))" by (simp add: set_state_def)
    from updateConnectionState_same [OF u this] s1 show ?thesis by auto
  qed
  then have "same_rest ?s1 s2" "es_Err (e_state (ep_e s2)) = err" by blast+
  with False t show ?thesis
    by (intro exI [of _ "e_r (ep_e s)"] exI [of _ s2]) (auto simp: same_rest_def set_state_def)
qed

lemma inv_updateConnection:
  assumes inv: "endpoint_inv s" and k: "k < length (ep_updates s)"
    and st: "updateConnection (ep_updates s ! k) (s\<lparr>ep_updates := remove_at k (ep_updates s)\<rparr>) = Some t"
  shows "endpoint_inv t"
proof -
  let ?s = "s\<lparr>ep_updates := remove_at k (ep_updates s)\<rparr>"
  obtain r err tm mk where u: "ep_updates s ! k = (r, err, tm, mk)" by (metis prod.exhaust)
  have c: "ep_stateClosed ?s = State_Closed (e_state (ep_e ?s))" using inv by (simp add: endpoint_inv_def inv_chans_def)
  from updateConnection_cases [OF st [unfolded u] c] obtain old s2 where
    r: "same_rest (?s\<lparr>ep_e := (ep_e ?s)\<lparr>e_r := e_r (ep_e s2)\<rparr>\<rparr>) s2"
    and t: "t = (if mk then ready_Done (retire old s2) else retire old s2)"
    and b: "in_use old + in_use (e_r (ep_e s2)) = in_use r + in_use (e_r (ep_e s))"
    and e: "if State_Closed (e_state (ep_e s)) then ep_e s2 = ep_e s
      else e_r (ep_e s2) = r \<and> es_Err (e_state (ep_e s2)) = err" by auto
  have ud: "foreign err \<and> (err = None \<longrightarrow> r \<noteq> None)"
    using inv nth_mem [OF k] u by (auto simp: endpoint_inv_def inv_chans_def update_ok_def)
  have rd: "readies (ep_updates s) = (if mk then 1 else 0) + readies (remove_at k (ep_updates s))"
    using readies_remove [OF k] u by (simp add: makeReady_def)
  have rdy: "0 < ep_ready s" if mk
    using inv rd that readies_nonneg [of "remove_at k (ep_updates s)"]
    by (auto simp: endpoint_inv_def inv_run_def inv_ready_def split: runner.splits if_splits)
  have ch: "inv_chans s2 \<and> \<not> ep_panic t"
    using inv e r ud k set_remove_at [OF k] rdy t
    by (auto simp: endpoint_inv_def inv_chans_def same_rest_def State_Closed_def foreign_def ready_Done_def split: if_splits)
  have cl: "State_Closed (e_state (ep_e s2)) = State_Closed (e_state (ep_e s))"
    using e ud by (auto simp: State_Closed_def foreign_def split: if_splits)
  show ?thesis
    unfolding endpoint_inv_def
  proof (intro conjI)
    show "inv_chans t" using ch by (simp add: t inv_chans_def ready_Done_def)
    show "inv_reporters t"
      using inv r b reporters_remove [OF k] u
      by (simp add: t endpoint_inv_def inv_reporters_def same_rest_def ready_Done_def ac_simps)
    show "inv_run t"
    proof -
      have q: "ep_run s2 = ep_run s" "ep_updates s2 = remove_at k (ep_updates s)" "ep_ready s2 = ep_ready s"
        "ep_closed s2 = ep_closed s" "ep_timer s2 = ep_timer s" using r by (simp_all add: same_rest_def)
      have "inv_ready (ep_run s) (ep_ready s) (readies (ep_updates s))" using inv by (simp add: endpoint_inv_def inv_run_def)
      then have "inv_ready (ep_run s) (ep_ready s - (if mk then 1 else 0)) (readies (remove_at k (ep_updates s)))"
        using rd readies_nonneg [of "remove_at k (ep_updates s)"]
        by (cases mk) (auto simp: inv_ready_def split: runner.splits if_splits)
      then show ?thesis
        using inv q cl by (cases mk; cases "ep_run s") (simp_all add: t endpoint_inv_def inv_run_def ready_Done_def)
    qed
  qed
qed

lemma inv_Close:
  assumes "endpoint_inv s" "Endpoint_Close i s = Some t"
  shows "endpoint_inv t"
  using assms
  by (cases "ep_run s")
    (auto simp: Endpoint_Close_def set_state_def endpoint_inv_def inv_chans_def inv_reporters_def inv_run_def State_Closed_def
      split: if_splits)

lemma inv_CloseFinish:
  assumes inv: "endpoint_inv s" and st: "Endpoint_CloseFinish i s = Some t"
  shows "endpoint_inv t"
proof -
  from inv st have "ep_run s = RunExited" "State_Closed (e_state (ep_e s))"
    by (auto simp: Endpoint_CloseFinish_def endpoint_inv_def inv_run_def split: if_splits runner.splits)
  moreover have "t = s\<lparr>ep_closers := (ep_closers s)(i := ClsReturned)\<rparr> \<and> e_r (ep_e s) = None \<or>
     (\<exists>r. t = s\<lparr>ep_closers := (ep_closers s)(i := ClsReturned), ep_released := ep_released s @ [r],
        ep_e := (ep_e s)\<lparr>e_r := None\<rparr>\<rparr> \<and> e_r (ep_e s) = Some r)"
    using st by (cases "e_r (ep_e s)") (auto simp: Endpoint_CloseFinish_def Let_def split: if_splits)
  ultimately show ?thesis
    using inv by (elim disjE exE) (simp_all add: endpoint_inv_def inv_chans_def inv_reporters_def inv_run_def State_Closed_def)
qed

lemma inv_UpdateConfig:
  assumes "endpoint_inv s" "Endpoint_UpdateConfig c s = Some t"
  shows "endpoint_inv t"
proof (rule inv_same_rest [OF assms(1)])
  from assms show "same_rest s t" "es_Err (e_state (ep_e t)) = es_Err (e_state (ep_e s))"
    by (auto simp: Endpoint_UpdateConfig_def endpoint_inv_def inv_chans_def same_rest_def Let_def split: if_splits)
qed

lemma inv_updateHealth:
  assumes "endpoint_inv s" "updateHealth q c s = Some t"
  shows "endpoint_inv t"
proof (rule inv_same_rest [OF assms(1)])
  let ?s1 = "set_state (\<lambda>st. st\<lparr>es_Updated := ep_now s, es_Calls := c\<rparr>) s"
  let ?s2 = "?s1\<lparr>ep_e := (ep_e ?s1)\<lparr>e_sequence := q\<rparr>\<rparr>"
  have "t = s \<or> send_state ?s2 = Some t \<and> \<not> ep_stateClosed ?s2"
    using assms by (auto simp: updateHealth_def Let_def set_state_def endpoint_inv_def inv_chans_def split: if_splits)
  moreover have "same_rest s ?s2" "es_Err (e_state (ep_e ?s2)) = es_Err (e_state (ep_e s))"
    by (simp_all add: same_rest_def set_state_def)
  ultimately show "same_rest s t" "es_Err (e_state (ep_e t)) = es_Err (e_state (ep_e s))"
    using send_state_same [of ?s2 t] by (auto simp: same_rest_def)
qed

lemma inv_callers: "endpoint_inv (s\<lparr>ep_callers := f\<rparr>) = endpoint_inv s"
  by (cases "ep_run s") (simp_all add: endpoint_inv_def inv_chans_def inv_reporters_def inv_run_def)

lemma inv_Call_Ready:
  assumes "endpoint_inv s" "Call_Ready L M i s = Some t"
  shows "endpoint_inv t"
proof -
  have "\<exists>f. t = s\<lparr>ep_callers := f\<rparr>"
    using assms
    by (auto simp: Call_Ready_def Let_def endpoint_inv_def inv_chans_def split: ecaller.splits if_splits option.splits)
  with assms(1) show ?thesis by (auto simp: inv_callers)
qed

lemma updateStateAfterCall_same:
  assumes "endpoint_inv s" "updateStateAfterCall r err when s = Some t"
  shows "same_rest s t \<and> (es_Err (e_state (ep_e t)) = es_Err (e_state (ep_e s)) \<or>
     \<not> State_Closed (e_state (ep_e s)) \<and> foreign (es_Err (e_state (ep_e t))) \<and> es_Err (e_state (ep_e t)) \<noteq> None)"
proof -
  let ?s1 = "if Before (es_IdleSince (e_state (ep_e s))) when
                then set_state (\<lambda>st. st\<lparr>es_IdleSince := when\<rparr>) s else s"
  have s1: "same_rest s ?s1" "es_Err (e_state (ep_e ?s1)) = es_Err (e_state (ep_e s))"
    "ep_stateClosed ?s1 = State_Closed (e_state (ep_e ?s1))" "State_Closed (e_state (ep_e ?s1)) = State_Closed (e_state (ep_e s))"
    using assms(1) by (simp_all add: same_rest_def set_state_def endpoint_inv_def inv_chans_def State_Closed_def)
  show ?thesis
  proof (cases "IsUnavailableErr err \<and> e_r (ep_e s) = Some r")
    case True
    with assms(2) have "updateConnectionState err when True ?s1 = Some t" by (simp add: updateStateAfterCall_def Let_def)
    from updateConnectionState_same [OF this s1(3)] s1 unavailable_foreign True show ?thesis by (auto simp: same_rest_def)
  next
    case False
    with assms(2) s1 show ?thesis by (auto simp: updateStateAfterCall_def Let_def split: if_splits)
  qed
qed

lemma inv_same_but_err:
  assumes "endpoint_inv s" "same_rest s t" "\<not> State_Closed (e_state (ep_e s))" "foreign (es_Err (e_state (ep_e t)))"
    "es_Err (e_state (ep_e t)) \<noteq> None"
  shows "endpoint_inv t"
  using assms
  by (cases "ep_run s")
    (auto simp: endpoint_inv_def inv_chans_def inv_reporters_def inv_run_def same_rest_def State_Closed_def foreign_def)

lemma inv_Call_Finish:
  assumes "endpoint_inv s" "Call_Finish i s = Some t"
  shows "endpoint_inv t"
proof -
  from assms(2) obtain r err tm u where u: "updateStateAfterCall r err tm s = Some u"
    "t = u\<lparr>ep_callers := (ep_callers u)(i := CallReturned err)\<rparr>"
    by (auto simp: Call_Finish_def split: ecaller.splits option.splits)
  have "endpoint_inv u"
    using updateStateAfterCall_same [OF assms(1) u(1)] inv_same_rest [OF assms(1)] inv_same_but_err [OF assms(1)] by blast
  with u(2) show ?thesis by (simp add: inv_callers)
qed

lemma inv_retire:
  assumes "endpoint_inv s" "k < length (ep_retiring s)"
  shows "endpoint_inv (s\<lparr>ep_retiring := remove_at k (ep_retiring s), ep_released := ep_released s @ [ep_retiring s ! k]\<rparr>)"
  using assms mset_remove_at [OF assms(2)]
  by (cases "ep_run s") (simp_all add: endpoint_inv_def inv_chans_def inv_reporters_def inv_run_def)

lemma inv_now: "endpoint_inv (s\<lparr>ep_now := x\<rparr>) = endpoint_inv s"
  by (cases "ep_run s") (simp_all add: endpoint_inv_def inv_chans_def inv_reporters_def inv_run_def)

lemma endpoint_inv_step:
  assumes inv: "endpoint_inv s" and st: "endpoint_step L M e s = Some t"
  shows "endpoint_inv t"
proof (cases e)
  case (EvTick x)
  with st have "t = s\<lparr>ep_now := x\<rparr>" by (auto simp: endpoint_step_def split: if_splits)
  with inv show ?thesis by (simp add: inv_now)
next
  case (EvCallBegin i report)
  with inv st show ?thesis by (auto simp: endpoint_step_def Call_Begin_ep_def inv_callers split: if_splits)
next
  case (EvCallReturn i err)
  with inv st show ?thesis
    by (auto simp: endpoint_step_def Call_Return_def inv_callers split: if_splits ecaller.splits)
qed (use inv st in \<open>auto simp: endpoint_step_def split: if_splits
    intro: inv_timer inv_run_config inv_run_state inv_run_exit inv_run_connect inv_run_connected inv_updateConnection
      inv_retire inv_UpdateConfig inv_updateHealth inv_Call_Ready inv_Call_Finish inv_Close inv_CloseFinish\<close>)

lemma endpoint_inv_init: "endpoint_init s \<Longrightarrow> endpoint_inv s"
  by (auto simp: endpoint_init_def NewEndpoint_def Let_def endpoint_inv_def inv_chans_def inv_reporters_def inv_run_def
      inv_ready_def State_Closed_def)

interpretation endpoint_machine: inductive_invariant "endpoint_step L M" endpoint_init endpoint_inv for L M
  by unfold_locales (fact endpoint_inv_init, fact endpoint_inv_step)

section \<open>Callers that wait for a first connection that never comes\<close>

definition never_ready :: "nat \<Rightarrow> bool \<Rightarrow> 'c esys \<Rightarrow> bool" where
  "never_ready i report s \<longleftrightarrow> ep_run s = RunExited \<and> ep_ready s \<noteq> 0 \<and> readies (ep_updates s) = 0 \<and>
     ep_callers s i = CallWaitReady report"

lemma send_state_run: "send_state s = Some t \<Longrightarrow> ep_run t = ep_run s \<and> ep_ready t = ep_ready s \<and>
    ep_updates t = ep_updates s \<and> ep_callers t = ep_callers s"
  by (auto simp: send_state_def split: if_splits)

lemma updateConnectionState_run:
  "updateConnectionState err when newer s = Some t \<Longrightarrow> ep_run t = ep_run s \<and> ep_ready t = ep_ready s \<and>
    ep_updates t = ep_updates s \<and> ep_callers t = ep_callers s"
  by (auto simp: updateConnectionState_def Let_def set_state_def split: if_splits dest!: send_state_run)

lemma retire_more [simp]: "ep_callers (retire r s) = ep_callers s"
  by (simp add: retire_def split: option.split)

lemma updateConnection_run:
  "updateConnection (r, err, when, False) s = Some t \<Longrightarrow> ep_run t = ep_run s \<and> ep_ready t = ep_ready s \<and>
    ep_updates t = ep_updates s \<and> ep_callers t = ep_callers s"
  by (auto simp: updateConnection_def Let_def set_state_def split: if_splits option.splits dest!: updateConnectionState_run)

lemma never_ready_step:
  assumes inv: "never_ready i report s" and st: "endpoint_step L M e s = Some t"
  shows "never_ready i report t"
proof (cases e)
  case (EvUpdateConnection k)
  with st have k: "k < length (ep_updates s)" by (auto simp: endpoint_step_def split: if_splits)
  obtain r err tm mk where u: "ep_updates s ! k = (r, err, tm, mk)" by (metis prod.exhaust)
  obtain x where x: "readies (remove_at k (ep_updates s)) = x" "0 \<le> x" by simp
  have rd: "readies (remove_at k (ep_updates s)) = 0 \<and> \<not> mk"
    using readies_remove [OF k] inv u x by (auto simp: never_ready_def makeReady_def split: if_splits)
  with st EvUpdateConnection k u have "updateConnection (r, err, tm, False) (s\<lparr>ep_updates := remove_at k (ep_updates s)\<rparr>) = Some t"
    by (auto simp: endpoint_step_def split: if_splits)
  from updateConnection_run [OF this] inv rd show ?thesis by (simp add: never_ready_def)
next
  case (EvHealth q c)
  with st inv show ?thesis
    by (auto simp: endpoint_step_def never_ready_def updateHealth_def Let_def set_state_def split: if_splits
        dest!: send_state_run)
next
  case (EvCallFinish j)
  with st obtain r err tm u where u: "ep_callers s j = CallDone r err tm" "updateStateAfterCall r err tm s = Some u"
    "t = u\<lparr>ep_callers := (ep_callers u)(j := CallReturned err)\<rparr>"
    by (auto simp: endpoint_step_def Call_Finish_def split: ecaller.splits option.splits if_splits)
  have "ep_run u = ep_run s \<and> ep_ready u = ep_ready s \<and> ep_updates u = ep_updates s \<and> ep_callers u = ep_callers s"
    using u(2) by (auto simp: updateStateAfterCall_def Let_def set_state_def split: if_splits dest!: updateConnectionState_run)
  with u inv show ?thesis by (auto simp: never_ready_def)
next
  case (EvCallReady j)
  with st inv show ?thesis by (auto simp: endpoint_step_def never_ready_def Call_Ready_def split: ecaller.splits if_splits)
qed (use st inv in \<open>auto simp: endpoint_step_def never_ready_def timer_fires_def run_config_def run_state_def run_exit_def
    run_connect_def run_connected_def Endpoint_UpdateConfig_def Call_Begin_ep_def Call_Return_def Endpoint_Close_def
    Endpoint_CloseFinish_def set_state_def Let_def split: if_splits timer.splits ecaller.splits option.splits\<close>)

interpretation unready: trap "endpoint_step L M" "never_ready i report" for L M i report
  by unfold_locales (simp, fact never_ready_step)

section \<open>Properties\<close>

lemma endpoint_reach:
  "run (endpoint_step L M) (NewEndpoint c now z) es = Some s \<Longrightarrow> reach (endpoint_step L M) endpoint_init s"
  by (rule run_reach) (auto simp: endpoint_init_def)

lemmas endpoint_run_simps = endpoint_step_def NewEndpoint_def Let_def timer_fires_def run_config_def run_state_def
  run_exit_def run_connect_def run_connected_def createEndpointConnection_def NewLimiter_err_def foreign_def
  remove_at_def updateConnection_def updateConnectionState_def set_state_def send_state_def retire_def ready_Done_def
  State_Closed_def State_Online_def Call_Begin_ep_def Call_Ready_def Call_Return_def Call_Finish_def
  updateStateAfterCall_def updateHealth_def Endpoint_Close_def Endpoint_CloseFinish_def endpointChanSize_def
  set_timer_def resetActiveTimer_def State_Unresponsive_def DefaultEndpointConfig_def



text \<open>
  C10. In every reachable state: nothing has panicked (no send on a closed channel, no channel
  closed twice, no negative wait group, no call through a missing connection); an endpoint that
  counts as online has a connection; and the goroutine of run, when it is back in its loop, can
  reset its timer without blocking on the timer's channel.
\<close>

theorem endpoint_safe:
  assumes "reach (endpoint_step L M) endpoint_init s"
  shows "\<not> ep_panic s \<and> 0 \<le> ep_ready s \<and> ep_ready s \<le> 1 \<and>
    (State_Online (e_state (ep_e s)) \<longrightarrow> e_r (ep_e s) \<noteq> None) \<and>
    (ep_run s = RunLoop c st ts ini \<longrightarrow> resetActiveTimer (ep_now s) d (ep_timer s) = Some (Armed (ep_now s + d)))"
  using endpoint_machine.reach_inv [OF assms]
  by (cases "ep_run s"; cases "ep_timer s")
    (auto simp: endpoint_inv_def inv_chans_def inv_run_def inv_ready_def State_Online_def resetActiveTimer_def split: if_splits)

theorem endpoint_safe_witness:
  "\<exists>s. run (endpoint_step (\<lambda>c::nat. c) int) (NewEndpoint DefaultEndpointConfig 0 0)
      [EvTimer, EvRunConnect, EvRunConnected None None, EvUpdateConnection 0] = Some s \<and>
     State_Online (e_state (ep_e s)) \<and> e_r (ep_e s) \<noteq> None \<and> \<not> ep_panic s"
proof -
  obtain s where r: "run (endpoint_step (\<lambda>c::nat. c) int) (NewEndpoint DefaultEndpointConfig 0 0)
      [EvTimer, EvRunConnect, EvRunConnected None None, EvUpdateConnection 0] = Some s"
    and f: "State_Online (e_state (ep_e s))"
    by (simp add: endpoint_run_simps)
  from endpoint_safe [OF endpoint_reach [OF r]] r f show ?thesis by blast
qed

text \<open>
  Close before the first connection attempt leaves callers behind: if run has exited without
  having tried to connect, a caller of Vector, Backlog or Report that waits for the endpoint to
  become ready stays there whatever happens next, although the endpoint is closed.
\<close>

theorem close_before_ready_blocks:
  assumes "reach (endpoint_step L M) endpoint_init s" "ep_run s = RunExited" "ep_ready s \<noteq> 0"
    "ep_updates s = []" "ep_callers s i = CallWaitReady report" "run (endpoint_step L M) s es = Some u"
  shows "ep_callers u i = CallWaitReady report \<and> endpoint_step L M (EvCallReady i) u = None \<and>
    State_Closed (e_state (ep_e u))"
proof -
  have "never_ready i report s" using assms(2-5) by (simp add: never_ready_def)
  then have u: "never_ready i report u" using assms(6) by (rule unready.stays)
  have "reach (endpoint_step L M) endpoint_init u" using assms(1,6) by (rule reach_run)
  then have "endpoint_inv u" by (rule endpoint_machine.reach_inv)
  with u show ?thesis by (auto simp: never_ready_def endpoint_step_def Call_Ready_def endpoint_inv_def inv_run_def)
qed

theorem close_before_ready_blocks_witness:
  "\<exists>s u. run (endpoint_step (\<lambda>c::nat. c) int) (NewEndpoint DefaultEndpointConfig 0 0)
      [EvCallBegin 4 False, EvClose 3, EvRunExit] = Some s \<and>
     run (endpoint_step (\<lambda>c. c) int) s [EvCloseFinish 3] = Some u \<and> ep_callers u 4 = CallWaitReady False \<and>
     endpoint_step (\<lambda>c. c) int (EvCallReady 4) u = None"
proof -
  obtain s u where r: "run (endpoint_step (\<lambda>c::nat. c) int) (NewEndpoint DefaultEndpointConfig 0 0)
      [EvCallBegin 4 False, EvClose 3, EvRunExit] = Some s"
    and u: "run (endpoint_step (\<lambda>c. c) int) s [EvCloseFinish 3] = Some u"
    and f: "ep_run s = RunExited" "ep_ready s \<noteq> 0" "ep_updates s = []" "ep_callers s 4 = CallWaitReady False"
    by (simp add: endpoint_run_simps)
  from close_before_ready_blocks [OF endpoint_reach [OF r] f u] r u show ?thesis by blast
qed

text \<open>
  A call that fails because the RPC server is unavailable takes the endpoint offline and
  makes it reconnect: if the failure is for the current connection and no newer state is known,
  finishing the call makes every new call fail at once with that error, and the goroutine of
  run, once it has taken the state change, is told by its timer to connect again.
\<close>

theorem failure_reconnects:
  assumes "ep_callers s i = CallDone r err when" "IsUnavailableErr err" "e_r (ep_e s) = Some r"
    and "\<not> State_Closed (e_state (ep_e s))" "es_Updated (e_state (ep_e s)) \<le> when" "\<not> ep_stateClosed s" "\<not> ep_panic s"
    and "ep_stateChange s = []" "ep_run s = RunLoop c st ts ini" "State_Online st" "ep_timer s = Armed x"
  shows "\<exists>t u. endpoint_step L M (EvCallFinish i) s = Some t \<and> es_Err (e_state (ep_e t)) = err \<and>
     ep_callers t i = CallReturned err \<and>
     run (endpoint_step L M) t [EvRunState, EvTimer, EvRunConnect] = Some u \<and>
     ep_run u = RunConnecting c (e_state (ep_e t)) (ep_now s) ini"
  using assms unavailable_foreign [OF assms(2)]
  by (auto simp: endpoint_run_simps)

theorem failure_reconnects_witness:
  "\<exists>s t u. run (endpoint_step (\<lambda>c::nat. c) int) (NewEndpoint DefaultEndpointConfig 0 0)
      [EvTimer, EvRunConnect, EvRunConnected None None, EvUpdateConnection 0, EvRunState, EvCallBegin 4 False,
       EvCallReady 4, EvTick 7, EvCallReturn 4 (Some (ErrOther 1 ''The RPC server is unavailable.''))] = Some s \<and>
     endpoint_step (\<lambda>c. c) int (EvCallFinish 4) s = Some t \<and> \<not> State_Online (e_state (ep_e t)) \<and>
     run (endpoint_step (\<lambda>c. c) int) t [EvRunState, EvTimer, EvRunConnect] = Some u"
proof -
  let ?e = "Some (ErrOther 1 ''The RPC server is unavailable.'')"
  obtain s c st ts ini x where r: "run (endpoint_step (\<lambda>c::nat. c) int) (NewEndpoint DefaultEndpointConfig 0 0)
      [EvTimer, EvRunConnect, EvRunConnected None None, EvUpdateConnection 0, EvRunState, EvCallBegin 4 False,
       EvCallReady 4, EvTick 7, EvCallReturn 4 ?e] = Some s"
    and f: "ep_callers s 4 = CallDone 0 ?e 7" "e_r (ep_e s) = Some 0" "\<not> State_Closed (e_state (ep_e s))"
      "es_Updated (e_state (ep_e s)) \<le> 7" "\<not> ep_stateClosed s" "\<not> ep_panic s" "ep_stateChange s = []"
      and g: "ep_run s = RunLoop c st ts ini" "State_Online st" "ep_timer s = Armed x"
    by (simp add: endpoint_run_simps)
  have e: "IsUnavailableErr ?e" by (simp add: IsUnavailableErr_def)
  obtain t u where "endpoint_step (\<lambda>c. c) int (EvCallFinish 4) s = Some t" "es_Err (e_state (ep_e t)) = ?e"
    "run (endpoint_step (\<lambda>c. c) int) t [EvRunState, EvTimer, EvRunConnect] = Some u"
    using failure_reconnects [OF f(1) e f(2-7) g] by blast
  with r show ?thesis by (auto simp: State_Online_def)
qed

text \<open>
  A health update can hide such a failure: the tracker's update raises the time of the last
  update, so when the tracker reports between the return of the call and its bookkeeping, the
  error is taken for stale. The caller gets the error, and the endpoint stays online with the
  dead connection.
\<close>

theorem health_update_hides_failure:
  "\<exists>s. run (endpoint_step (\<lambda>c::nat. c) int) (NewEndpoint DefaultEndpointConfig 0 0)
      [EvTimer, EvRunConnect, EvRunConnected None None, EvUpdateConnection 0, EvRunState, EvCallBegin 4 False,
       EvCallReady 4, EvTick 7, EvCallReturn 4 (Some (ErrOther 1 ''The RPC server is unavailable.'')),
       EvTick 8, EvHealth 1 0, EvCallFinish 4] = Some s \<and>
     ep_callers s 4 = CallReturned (Some (ErrOther 1 ''The RPC server is unavailable.'')) \<and>
     State_Online (e_state (ep_e s)) \<and> e_r (ep_e s) = Some 0 \<and> ep_timer s = Armed (Minute * 30)"
  by (simp add: endpoint_run_simps IsUnavailableErr_def)

text \<open>
  updateConnection installs the new connection and its error and publishes the state, but
  it never moves the time of the last change, not even when the endpoint goes from offline to
  online: the error has been overwritten before it is compared.
\<close>

theorem connection_keeps_changed:
  assumes "updateConnection (r, err, when, mk) s = Some t" "\<not> State_Closed (e_state (ep_e s))"
    "\<not> ep_stateClosed s" "foreign err"
  shows "e_r (ep_e t) = r \<and> es_Err (e_state (ep_e t)) = err \<and> es_Updated (e_state (ep_e t)) = when \<and>
     es_Changed (e_state (ep_e t)) = es_Changed (e_state (ep_e s)) \<and>
     ep_stateChange t = ep_stateChange s @ [e_state (ep_e t)] \<and>
     mset (ep_retiring t) = mset (ep_retiring s) + in_use (e_r (ep_e s))"
  using assms
  by (cases "e_r (ep_e s)")
    (auto simp: updateConnection_def updateConnectionState_def set_state_def send_state_def retire_def ready_Done_def
      State_Closed_def foreign_def Let_def split: if_splits)

theorem connection_keeps_changed_witness:
  "\<exists>t. updateConnection (Some 0, None, 9, True) (NewEndpoint DefaultEndpointConfig 2 (0::nat)) = Some t \<and>
     State_Online (e_state (ep_e t)) \<and> es_Changed (e_state (ep_e t)) = 2"
proof -
  let ?s = "NewEndpoint DefaultEndpointConfig 2 (0::nat)"
  have "\<exists>t. updateConnection (Some 0, None, 9, True) ?s = Some t" by (simp add: endpoint_run_simps)
  then obtain t where t: "updateConnection (Some 0, None, 9, True) ?s = Some t" ..
  have s: "\<not> State_Closed (e_state (ep_e ?s))" "\<not> ep_stateClosed ?s" "es_Changed (e_state (ep_e ?s)) = 2"
    by (simp_all add: NewEndpoint_def Let_def State_Closed_def)
  from connection_keeps_changed [OF t s(1,2)] t s(3) show ?thesis by (auto simp: foreign_def State_Online_def)
qed

end
