(* ===== verification/DfsrTypes.thy ===== *)
theory DfsrTypes imports Callstat "HOL-Library.Word" begin

text \<open>
  Packages dfsr (dfsr/types.go, dfsr/map.go) and dname (dname/dname.go): the configuration of a
  domain, backlog results, member maps and distinguished names.

  A Go int or uint is a 64-bit word, read by sint or uint. A pointer into the immutable
  configuration is the value it points to. The textual form of a UUID comes from the package
  github.com/google/uuid and is a parameter.
\<close>

type_synonym goint = "64 word"

section \<open>The configuration of a domain\<close>

record NamingContext =
  nc_ID :: uuid
  nc_DN :: string
  nc_Description :: string
  nc_Path :: string

record Folder =
  f_Name :: string
  f_ID :: uuid

record Computer =
  co_DN :: string
  co_Host :: string

record Subscription =
  ss_ReplicationGroup :: uuid
  ss_ContentSet :: uuid
  ss_RootPath :: string
  ss_RootSize :: goint
  ss_StagingPath :: string
  ss_StagingSize :: goint
  ss_ConflictPath :: string
  ss_ConflictSize :: goint
  ss_Enabled :: bool
  ss_ReadOnly :: bool
  ss_Options :: goint
  ss_CachePolicy :: goint
  ss_MaxAgeInCache :: duration
  ss_MinDurationCache :: duration

record Subscriber =
  sr_MemberReference :: string
  sr_ReplicationGroup :: uuid
  sr_ContentSets :: "Subscription list"

record LocalSettings =
  ls_Version :: string
  ls_Groups :: "Subscriber list"

record MemberInfo =
  mi_Name :: string
  mi_ID :: uuid
  mi_DN :: string
  mi_Computer :: Computer
  mi_Settings :: LocalSettings

record Connection =
  cn_Name :: string
  cn_ID :: uuid
  cn_MemberDN :: string
  cn_Enabled :: bool
  cn_Computer :: Computer

record Member =
  m_MemberInfo :: MemberInfo
  m_Connections :: "Connection list"

record Group =
  g_Name :: string
  g_ID :: uuid
  g_Folders :: "Folder list"
  g_Members :: "Member list"
  g_ConfigDuration :: duration

record Domain =
  d_NamingContext :: NamingContext
  d_Groups :: "Group list"
  d_ConfigDuration :: duration

text \<open>Zero values.\<close>

definition Computer_zero :: Computer where
  "Computer_zero = \<lparr>co_DN = [], co_Host = []\<rparr>"

definition LocalSettings_zero :: LocalSettings where
  "LocalSettings_zero = \<lparr>ls_Version = [], ls_Groups = []\<rparr>"

definition MemberInfo_zero :: MemberInfo where
  "MemberInfo_zero = \<lparr>mi_Name = [], mi_ID = 0, mi_DN = [], mi_Computer = Computer_zero,
     mi_Settings = LocalSettings_zero\<rparr>"

section \<open>Member maps\<close>

text \<open>The nil map is None.\<close>

type_synonym memberInfoMap = "(string \<rightharpoonup> MemberInfo) option"

definition member_key :: "(uuid \<Rightarrow> string) \<Rightarrow> MemberInfo \<Rightarrow> string" where
  "member_key uuid_String i = ToLower (uuid_String (mi_ID i))"

definition MemberInfoMap :: "(uuid \<Rightarrow> string) \<Rightarrow> Domain option \<Rightarrow> memberInfoMap" where
  "MemberInfoMap uuid_String d =
     (case d of
        None \<Rightarrow> None
      | Some d \<Rightarrow>
          Some (fold (\<lambda>g output. fold (\<lambda>m output.
              output(member_key uuid_String (m_MemberInfo m) \<mapsto> m_MemberInfo m)) (g_Members g) output)
            (d_Groups d) Map.empty))"

definition Resolve :: "memberInfoMap \<Rightarrow> string \<Rightarrow> MemberInfo \<times> bool" where
  "Resolve m key =
     (case m of
        None \<Rightarrow> (MemberInfo_zero, False)
      | Some m \<Rightarrow> (case m key of None \<Rightarrow> (MemberInfo_zero, False) | Some info \<Rightarrow> (info, True)))"

definition infos :: "Domain \<Rightarrow> MemberInfo list" where
  "infos d = concat (map (\<lambda>g. map m_MemberInfo (g_Members g)) (d_Groups d))"

lemma fold_infos:
  "fold (\<lambda>g. fold (\<lambda>m. f (m_MemberInfo m)) (g_Members g)) gs z =
   fold f (concat (map (\<lambda>g. map m_MemberInfo (g_Members g)) gs)) z"
  by (induction gs arbitrary: z) (simp_all add: fold_map comp_def)

lemma fold_put:
  "fold (\<lambda>i out. out(k i \<mapsto> i)) is M x =
   (case filter (\<lambda>i. k i = x) is of [] \<Rightarrow> M x | _ \<Rightarrow> Some (last (filter (\<lambda>i. k i = x) is)))"
  by (induction "is" arbitrary: M) (auto split: list.splits)

lemma MemberInfoMap_look:
  "the (MemberInfoMap S (Some d)) x =
   (case filter (\<lambda>i. member_key S i = x) (infos d) of [] \<Rightarrow> None
    | _ \<Rightarrow> Some (last (filter (\<lambda>i. member_key S i = x) (infos d))))"
  using fold_infos [of "\<lambda>i out. out(member_key S i \<mapsto> i)" "d_Groups d" Map.empty]
  by (simp add: MemberInfoMap_def infos_def fold_put split: list.split)

section \<open>Backlog results\<close>

record FolderBacklog =
  fb_Folder :: Folder
  fb_Backlog :: goint

record Backlog =
  b_Group :: Group
  b_From :: string
  b_To :: string
  b_Folders :: "FolderBacklog list"
  b_Call :: Call
  b_Err :: "gerr option"

definition Backlog_Sum :: "Backlog \<Rightarrow> 64 word" where
  "Backlog_Sum b =
     fold (\<lambda>f backlog. let v = fb_Backlog f in if 0 < sint v then backlog + v else backlog) (b_Folders b) 0"

definition Backlog_IsZero :: "Backlog \<Rightarrow> bool" where
  "Backlog_IsZero b \<longleftrightarrow>
     (if b_Err b \<noteq> None then False
      else if length (b_Folders b) = 0 then False
      else (\<forall>f \<in> set (b_Folders b). fb_Backlog f = 0))"

text \<open>The total over the integers: negative counts stand for errors and do not contribute.\<close>

definition backlog_total :: "Backlog \<Rightarrow> int" where
  "backlog_total b = (\<Sum>f \<leftarrow> b_Folders b. max 0 (sint (fb_Backlog f)))"

lemma sint_pos_uint: "0 < sint v \<Longrightarrow> uint v = sint (v :: 64 word)"
  by (simp add: uint_sint take_bit_int_eq_self sint_lt [THEN order_less_le_trans])

lemma fold_sum:
  "uint (fold (\<lambda>f backlog. let v = fb_Backlog f in if 0 < sint v then backlog + v else backlog) fs (acc :: 64 word)) =
   (uint acc + (\<Sum>f \<leftarrow> fs. max 0 (sint (fb_Backlog f)))) mod 2 ^ 64"
proof (induction fs arbitrary: acc)
  case Nil
  then show ?case using uint_lt2p [of acc] by simp
next
  case (Cons f fs)
  then show ?case
    by (simp add: Let_def uint_word_ariths sint_pos_uint mod_add_left_eq add.assoc)
qed

lemma sint_zero: "sint (v :: 64 word) = 0 \<longleftrightarrow> v = 0"
  by (metis signed_word_eqI sint_0)

lemma total_nonneg: "0 \<le> backlog_total b"
  by (auto simp: backlog_total_def intro!: sum_list_nonneg)

lemma total_zero: "backlog_total b = 0 \<longleftrightarrow> (\<forall>f \<in> set (b_Folders b). sint (fb_Backlog f) \<le> 0)"
  unfolding backlog_total_def by (subst sum_list_nonneg_eq_0_iff) auto

section \<open>Distinguished names\<close>

definition URL :: "string \<Rightarrow> string" where
  "URL dn = ''LDAP://'' @ dn"

definition Make :: "string \<Rightarrow> string list \<Rightarrow> string" where
  "Make attribute components =
     Join (if attribute \<noteq> [] then map (\<lambda>c. attribute @ ''='' @ c) components else components) '',''"

definition Domain_DN :: "string \<Rightarrow> string" where
  "Domain_DN domain0 =
     (let domain = ToLower domain0
      in if HasPrefix (ToLower domain) ''dc='' then domain
         else Make ''dc'' (Split domain CHR ''.''))"

definition Combine :: "string list \<Rightarrow> string" where
  "Combine components = Join components '',''"

lemma Split_no_sep: "p \<in> set (Split s c) \<Longrightarrow> c \<notin> set p"
  by (induction s arbitrary: p) (auto split: if_splits list.splits)

lemma Split_chars: "p \<in> set (Split s c) \<Longrightarrow> set p \<subseteq> set s"
  by (induction s arbitrary: p) (auto split: if_splits list.splits, (fastforce split: list.splits)+)

lemma Split_single: "c \<notin> set x \<Longrightarrow> Split x c = [x]"
  by (induction x) auto

lemma Split_append: "c \<notin> set x \<Longrightarrow> Split (x @ c # s) c = x # Split s c"
  by (induction x) (auto split: list.splits)

lemma Split_Join: "xs \<noteq> [] \<Longrightarrow> \<forall>x \<in> set xs. c \<notin> set x \<Longrightarrow> Split (Join xs [c]) c = xs"
  by (induction xs "[c]" rule: Join.induct) (auto simp: Split_single Split_append)

lemma ToLower_Join: "ToLower (Join xs s) = Join (map ToLower xs) (ToLower s)"
  by (induction xs s rule: Join.induct) (auto simp: ToLower_def)

lemma ToLower_fixed: "set p \<subseteq> set (ToLower s) \<Longrightarrow> ToLower p = p"
  by (induction p) (auto simp: ToLower_def)

lemma of_char_lower:
  "(of_char (lower_char c) :: nat) = (if 65 \<le> (of_char c :: nat) \<and> of_char c \<le> (90::nat) then of_char c + 32 else of_char c)"
  by (simp add: lower_char_def)

lemma lower_char_comma: "lower_char c = CHR '','' \<longleftrightarrow> c = CHR '',''"
proof -
  have "c = CHR '','' \<longleftrightarrow> (of_char c :: nat) = 44" for c :: char
    using of_char_eq_iff [of c "CHR '',''", where ?'a = nat] by simp
  then show ?thesis by (simp add: of_char_lower)
qed

lemma lower_dc: "lower_char CHR ''d'' = CHR ''d''" "lower_char CHR ''c'' = CHR ''c''" "lower_char CHR ''='' = CHR ''=''"
  by (simp_all add: lower_char_def)

section \<open>Properties\<close>


definition folder0 :: Folder where "folder0 = \<lparr>f_Name = ''docs'', f_ID = 9\<rparr>"

definition group0 :: "Member list \<Rightarrow> Group" where
  "group0 ms = \<lparr>g_Name = ''G'', g_ID = 5, g_Folders = [folder0], g_Members = ms, g_ConfigDuration = 0\<rparr>"

definition backlog0 :: "goint list \<Rightarrow> Backlog" where
  "backlog0 vs = \<lparr>b_Group = group0 [], b_From = ''a'', b_To = ''b'',
     b_Folders = map (\<lambda>v. \<lparr>fb_Folder = folder0, fb_Backlog = v\<rparr>) vs, b_Call = Call_zero, b_Err = None\<rparr>"


text \<open>
  A member map resolves a key to the last member of the domain whose lower-case identifier
  is that key, and to nothing when there is none. So with distinct identifiers every member
  resolves to its own information.
\<close>

theorem members_resolve:
  "Resolve (MemberInfoMap S (Some d)) key =
     (case filter (\<lambda>i. member_key S i = key) (infos d) of
        [] \<Rightarrow> (MemberInfo_zero, False)
      | is \<Rightarrow> (last is, True)) \<and>
   (distinct (map (member_key S) (infos d)) \<longrightarrow>
      (\<forall>i \<in> set (infos d). Resolve (MemberInfoMap S (Some d)) (member_key S i) = (i, True)))"
proof -
  obtain M where M: "MemberInfoMap S (Some d) = Some M" by (simp add: MemberInfoMap_def)
  have look: "Resolve (MemberInfoMap S (Some d)) key =
     (case filter (\<lambda>i. member_key S i = key) (infos d) of
        [] \<Rightarrow> (MemberInfo_zero, False) | is \<Rightarrow> (last is, True))" for key
    using MemberInfoMap_look [of S d key] M by (auto simp: Resolve_def split: list.splits)
  have one: "filter (\<lambda>j. member_key S j = member_key S i) (infos d) = [i]"
    if "distinct (map (member_key S) (infos d))" "i \<in> set (infos d)" for i
  proof -
    from that(2) obtain xs ys where sp: "infos d = xs @ i # ys" by (auto simp: in_set_conv_decomp)
    have "\<forall>j \<in> set xs \<union> set ys. member_key S j \<noteq> member_key S i" using that(1) unfolding sp by (auto simp: image_iff)
    then have "filter (\<lambda>j. member_key S j = member_key S i) xs = []"
      "filter (\<lambda>j. member_key S j = member_key S i) ys = []" unfolding filter_empty_conv by blast+
    then show ?thesis unfolding sp by simp
  qed
  show ?thesis using look one by simp
qed

definition member0 :: "string \<Rightarrow> uuid \<Rightarrow> string \<Rightarrow> Connection list \<Rightarrow> Member" where
  "member0 n i host cs = \<lparr>m_MemberInfo = \<lparr>mi_Name = n, mi_ID = i, mi_DN = n,
     mi_Computer = \<lparr>co_DN = n, co_Host = host\<rparr>, mi_Settings = LocalSettings_zero\<rparr>, m_Connections = cs\<rparr>"

definition domain0 :: "Group list \<Rightarrow> Domain" where
  "domain0 gs = \<lparr>d_NamingContext = \<lparr>nc_ID = 1, nc_DN = ''DC=x'', nc_Description = [], nc_Path = []\<rparr>,
     d_Groups = gs, d_ConfigDuration = 0\<rparr>"

theorem members_resolve_witness:
  "Resolve (MemberInfoMap (\<lambda>i. if i = 1 then ''A'' else ''B'')
       (Some (domain0 [group0 [member0 ''m1'' 1 ''h1'' [], member0 ''m2'' 2 ''h2'' []]]))) ''b'' =
     (m_MemberInfo (member0 ''m2'' 2 ''h2'' []), True)"
proof -
  let ?S = "\<lambda>i :: uuid. if i = 1 then ''A'' else ''B''"
  let ?d = "domain0 [group0 [member0 ''m1'' 1 ''h1'' [], member0 ''m2'' 2 ''h2'' []]]"
  have i: "infos ?d = [m_MemberInfo (member0 ''m1'' 1 ''h1'' []), m_MemberInfo (member0 ''m2'' 2 ''h2'' [])]"
    by (simp add: infos_def domain0_def group0_def)
  have k: "member_key ?S (m_MemberInfo (member0 ''m1'' 1 ''h1'' [])) = ''a''"
    "member_key ?S (m_MemberInfo (member0 ''m2'' 2 ''h2'' [])) = ''b''"
    by (simp add: member_key_def member0_def, code_simp)+
  then have "distinct (map (member_key ?S) (infos ?d))" by (simp add: i)
  with members_resolve [of ?S ?d] have "\<forall>j \<in> set (infos ?d). Resolve (MemberInfoMap ?S (Some ?d)) (member_key ?S j) = (j, True)"
    by blast
  with k show ?thesis by (simp add: i)
qed



end
