(* ===== verification/Reporter.thy ===== *)
theory Reporter imports VersionVector Endpoint DfsrTypes begin

text \<open>
  The reporters of package helper (reporter.go, limiter.go, worker.go, cacher.go, utility.go) and
  the remote interface under them (helper/api): the system's health report object, the work
  pool in front of it and the cache of version vectors in front of that.

  What other packages decide is an argument: the result code and the array of a remote call, the
  errors of go-ole, SafeArrayCopy, and whether the pool of tunny accepts a job. A remote
  procedure call runs in a goroutine of its own; the select of its caller takes either its result
  or the end of the context.
\<close>

section \<open>The remote interface\<close>

definition E_INVALID_NAMESPACE :: "64 word" where "E_INVALID_NAMESPACE = 2147749902"
definition E_ACCESS_DENIED :: "64 word" where "E_ACCESS_DENIED = 2147749891"

definition ErrInvalidNamespace :: gerr where
  "ErrInvalidNamespace = ErrOther 1 ''the provided name or namespace is invalid''"

definition ErrAccessDenied :: gerr where "ErrAccessDenied = ErrOther 2 ''access denied''"

definition convertHresultToError :: "(64 word \<Rightarrow> gerr) \<Rightarrow> 64 word \<Rightarrow> gerr option" where
  "convertHresultToError ole_NewError hr =
     (if hr \<noteq> 0 then
        (let err = ole_NewError hr
         in if Contains (Error err) ''FormatMessage failed'' then
              (if hr = E_INVALID_NAMESPACE then Some ErrInvalidNamespace
               else if hr = E_ACCESS_DENIED then Some ErrAccessDenied else Some err)
            else Some err)
      else None)"

definition GetReferenceVersionVectors :: "(64 word \<Rightarrow> gerr) \<Rightarrow> 64 word \<Rightarrow> 'a \<Rightarrow> 'a option \<times> gerr option" where
  "GetReferenceVersionVectors ole_NewError hr sa =
     (if hr \<noteq> 0 then (None, convertHresultToError ole_NewError hr) else (Some sa, None))"

text \<open>Both calls below dereference the arrays they are given; a nil one panics.\<close>

definition GetReferenceBacklogCounts ::
  "(64 word \<Rightarrow> gerr) \<Rightarrow> 64 word \<Rightarrow> 'b \<Rightarrow> 'a option \<Rightarrow> ('b option \<times> gerr option) outcome" where
  "GetReferenceBacklogCounts ole_NewError hr counts vectors =
     (case vectors of
        None \<Rightarrow> Panic ''nil pointer dereference''
      | Some _ \<Rightarrow> Ret (if hr \<noteq> 0 then (None, convertHresultToError ole_NewError hr) else (Some counts, None)))"

text \<open>
  GetReport reads the field of the reference vectors it is given and takes the address of a
  field of its named result memberVectors, which nothing has allocated: once the string for the
  server's name is there, evaluating the arguments of the system call panics.
\<close>

definition GetReport ::
  "gerr \<Rightarrow> bool \<Rightarrow> 'a option \<Rightarrow> 32 word \<Rightarrow> ('a option \<times> string \<times> gerr option) outcome" where
  "GetReport E_OUTOFMEMORY alloc_ok referenceVectors flags =
     (if \<not> alloc_ok then Ret (None, [], Some E_OUTOFMEMORY)
      else Panic ''nil pointer dereference'')"

text \<open>
  On other systems the constructors and methods are stubs that fail with the error of E_NOTIMPL (the parameter). Their
  types are not those that reporter.go uses, so package helper does not compile there.
\<close>

definition stub_NewIServerHealthReport :: "gerr \<Rightarrow> 'h option \<times> gerr option" where
  "stub_NewIServerHealthReport E_NOTIMPL = (None, Some E_NOTIMPL)"

definition stub_NewIServerHealthReport2 :: "gerr \<Rightarrow> 'h option \<times> gerr option" where
  "stub_NewIServerHealthReport2 E_NOTIMPL = (None, Some E_NOTIMPL)"

definition stub_GetReferenceVersionVectors :: "gerr \<Rightarrow> 'a option \<times> gerr option" where
  "stub_GetReferenceVersionVectors E_NOTIMPL = (None, Some E_NOTIMPL)"

definition stub_GetReferenceBacklogCounts :: "gerr \<Rightarrow> 'b option \<times> gerr option" where
  "stub_GetReferenceBacklogCounts E_NOTIMPL = (None, Some E_NOTIMPL)"

definition stub_GetReport :: "gerr \<Rightarrow> 'a option \<times> string \<times> gerr option" where
  "stub_GetReport E_NOTIMPL = (None, [], Some E_NOTIMPL)"

definition REPORTING_FLAGS_NONE :: "32 word" where "REPORTING_FLAGS_NONE = 0"
definition REPORTING_FLAGS_BACKLOG :: "32 word" where "REPORTING_FLAGS_BACKLOG = 1"
definition REPORTING_FLAGS_FILES :: "32 word" where "REPORTING_FLAGS_FILES = 2"

section \<open>Backlog counts\<close>

text \<open>A value of the array is an int32 or something else; log.Fatal ends the program.\<close>

datatype variant = VInt32 "32 word" | VOther

fun makeBacklog :: "variant list \<Rightarrow> goint list outcome" where
  "makeBacklog [] = Ret []"
| "makeBacklog (VOther # vs) = Panic ''invalid backlog value''"
| "makeBacklog (VInt32 v # vs) = (case makeBacklog vs of Panic m \<Rightarrow> Panic m | Ret bs \<Rightarrow> Ret (scast v # bs))"

section \<open>The reporter\<close>

record 'h reporter =
  rp_iface :: "'h option"

text \<open>
  What happens during one call: the context's error if it is done at the early check, and if it
  wins the select; the clock at the beginning and the end; the remote result.
\<close>

record 'x rctx =
  cx_early :: "gerr option"
  cx_late :: "gerr option"
  cx_begin :: time
  cx_end :: time
  cx_hr :: "64 word"
  cx_result :: 'x

definition reporter_closed :: "'h reporter \<Rightarrow> bool" where
  "reporter_closed r \<longleftrightarrow> rp_iface r = None"

text \<open>NewReporter counts the reporter with comshim; Close does not take it back.\<close>

definition NewReporter :: "'h + gerr \<Rightarrow> int \<Rightarrow> ('h reporter option \<times> gerr option) \<times> int" where
  "NewReporter created shim =
     (case created of
        Inr err \<Rightarrow> ((None, Some err), shim + 1 - 1)
      | Inl h \<Rightarrow> ((Some \<lparr>rp_iface = Some h\<rparr>, None), shim + 1))"

definition reporter_Close :: "'h reporter \<times> nat \<Rightarrow> 'h reporter \<times> nat" where
  "reporter_Close rn =
     (case rn of (r, releases) \<Rightarrow> if reporter_closed r then (r, releases) else (\<lparr>rp_iface = None\<rparr>, Suc releases))"

definition reporter_vector_rpc ::
  "(64 word \<Rightarrow> gerr) \<Rightarrow> 'a rctx \<Rightarrow> 'a vstore \<Rightarrow> (nat option \<times> gerr option) \<times> 'a vstore" where
  "reporter_vector_rpc ole_NewError cx st =
     (case GetReferenceVersionVectors ole_NewError (cx_hr cx) (cx_result cx) of
        (Some sa, None) \<Rightarrow> (case Vector_New sa st of (v, st') \<Rightarrow> ((Some v, None), st'))
      | (_, err) \<Rightarrow> ((None, err), st))"

type_synonym vresult = "nat option \<times> Call \<times> gerr option"

definition reporter_Vector ::
  "(64 word \<Rightarrow> gerr) \<Rightarrow> 'a rctx \<Rightarrow> uuid \<Rightarrow> 'h reporter \<times> nat \<Rightarrow> 'a vstore \<Rightarrow>
   (vresult \<times> ('h reporter \<times> nat) \<times> 'a vstore) outcome" where
  "reporter_Vector ole_NewError cx guid rn st =
     (let call = deferred_Complete (cx_end cx) (Call_Begin (cx_begin cx) ''Reporter.Vector'' Call_zero)
      in if reporter_closed (fst rn) then Ret ((None, call, Some ErrHelperClosed), rn, st)
         else if cx_early cx \<noteq> None then Ret ((None, call, cx_early cx), rn, st)
         else (case reporter_vector_rpc ole_NewError cx st of
                 ((v, err), st') \<Rightarrow>
                   (case cx_late cx of
                      Some e \<Rightarrow> Ret ((None, call, Some e), rn, st')
                    | None \<Rightarrow> Ret ((v, call, err), rn, st'))))"

definition reporter_Backlog ::
  "(64 word \<Rightarrow> gerr) \<Rightarrow> variant list rctx \<Rightarrow> nat \<Rightarrow> 'h reporter \<Rightarrow> 'a vstore \<Rightarrow>
   (goint list \<times> Call \<times> gerr option) outcome" where
  "reporter_Backlog ole_NewError cx vector r st =
     (let call = deferred_Complete (cx_end cx) (Call_Begin (cx_begin cx) ''Reporter.Backlog'' Call_zero)
      in if reporter_closed r then Ret ([], call, Some ErrHelperClosed)
         else if cx_early cx \<noteq> None then Ret ([], call, cx_early cx)
         else
           (let answer =
              (case GetReferenceBacklogCounts ole_NewError (cx_hr cx) (cx_result cx) (Vector_Data vector st) of
                 Panic m \<Rightarrow> Panic m
               | Ret (Some counts, None) \<Rightarrow>
                   (case makeBacklog counts of Panic m \<Rightarrow> Panic m | Ret bs \<Rightarrow> Ret (bs, None))
               | Ret (_, err) \<Rightarrow> Ret ([], err))
            in case answer of
                 Panic m \<Rightarrow> Panic m
               | Ret (bs, err) \<Rightarrow>
                   (case cx_late cx of Some e \<Rightarrow> Ret ([], call, Some e) | None \<Rightarrow> Ret (bs, call, err))))"

unbundle bit_operations_syntax

definition report_flags :: "bool \<Rightarrow> bool \<Rightarrow> 32 word" where
  "report_flags backlog files =
     (let flags = REPORTING_FLAGS_NONE;
          flags = (if backlog then flags OR REPORTING_FLAGS_BACKLOG else flags)
      in if files then flags OR REPORTING_FLAGS_FILES else flags)"

definition reporter_Report ::
  "gerr \<Rightarrow> bool \<Rightarrow> gerr option \<Rightarrow> time \<Rightarrow> time \<Rightarrow> nat option \<Rightarrow> bool \<Rightarrow> bool \<Rightarrow> 'h reporter \<Rightarrow> 'a vstore \<Rightarrow>
   ('a option \<times> string \<times> Call \<times> gerr option) outcome" where
  "reporter_Report E_OUTOFMEMORY alloc_ok early t0 t1 vector backlog files r st =
     (if backlog \<and> vector = None then
        (let err = Some (ErrOther 3 ''backlog reports require that a reference member vector is provided'')
         in Ret (None, [], Call_Complete t1 err (MkCall ''Reporter.Report'' time_zero time_zero None []), err))
      else
        (let call = deferred_Complete t1 (Call_Begin t0 ''Reporter.Report'' Call_zero)
         in if reporter_closed r then Ret (None, [], call, Some ErrHelperClosed)
            else if early \<noteq> None then Ret (None, [], call, early)
            else
              (let vdata = (if backlog then Vector_Data (the vector) st else None)
               in case GetReport E_OUTOFMEMORY alloc_ok vdata (report_flags backlog files) of
                    Panic m \<Rightarrow> Panic m
                  | Ret (data, report, err) \<Rightarrow> Ret (data, report, call, err))))"

section \<open>The work pool and the limiter\<close>

record pool =
  wp_workers :: nat
  wp_running :: bool

record 'r limiter =
  li_r :: 'r
  li_vwp :: pool

definition newVectorWorkPool :: "gerr option \<Rightarrow> nat \<Rightarrow> pool option \<times> gerr option" where
  "newVectorWorkPool open_err numWorkers =
     (if numWorkers = 0 then (None, Some ErrZeroWorkers)
      else (case open_err of
              Some e \<Rightarrow> (None, Some e)
            | None \<Rightarrow> (Some \<lparr>wp_workers = numWorkers, wp_running = True\<rparr>, None)))"

definition NewLimiter :: "gerr option \<Rightarrow> 'r \<Rightarrow> nat \<Rightarrow> 'r limiter option \<times> gerr option" where
  "NewLimiter open_err r numWorkers =
     (case newVectorWorkPool open_err numWorkers of
        (Some p, None) \<Rightarrow> (Some \<lparr>li_r = r, li_vwp = p\<rparr>, None)
      | (_, err) \<Rightarrow> (None, err))"

text \<open>
  SendWork fails with tunny's error for a pool that does not run, and may fail otherwise. A
  worker answers a vectorJob with a *vectorWorkResult and anything else with nil.
\<close>

datatype 'cx tunny_data = VectorJob 'cx uuid | OtherData

type_synonym ('cx, 'r, 'a) vector_method =
  "'cx \<Rightarrow> uuid \<Rightarrow> 'r \<Rightarrow> 'a vstore \<Rightarrow> (vresult \<times> 'r \<times> 'a vstore) outcome"

definition TunnyJob ::
  "('cx, 'r, 'a) vector_method \<Rightarrow> 'cx tunny_data \<Rightarrow> 'r \<Rightarrow> 'a vstore \<Rightarrow> (vresult option \<times> 'r \<times> 'a vstore) outcome" where
  "TunnyJob V data r st =
     (case data of
        VectorJob cx guid \<Rightarrow>
          (case V cx guid r st of Panic m \<Rightarrow> Panic m | Ret (res, r', st') \<Rightarrow> Ret (Some res, r', st'))
      | OtherData \<Rightarrow> Ret (None, r, st))"

record 'cx lctx =
  lc_begin :: time
  lc_end :: time
  lc_send_err :: "gerr option"
  lc_ctx :: 'cx

definition vwp_Vector ::
  "('cx, 'r, 'a) vector_method \<Rightarrow> gerr \<Rightarrow> 'cx lctx \<Rightarrow> uuid \<Rightarrow> 'r limiter \<Rightarrow> 'a vstore \<Rightarrow>
   (vresult \<times> 'r \<times> 'a vstore) outcome" where
  "vwp_Vector V ErrPoolNotRunning lc guid l st =
     (case (if wp_running (li_vwp l) then lc_send_err lc else Some ErrPoolNotRunning) of
        Some err \<Rightarrow> Ret ((None, Call_zero, Some err), li_r l, st)
      | None \<Rightarrow>
          (case TunnyJob V (VectorJob (lc_ctx lc) guid) (li_r l) st of
             Panic m \<Rightarrow> Panic m
           | Ret (None, r', st') \<Rightarrow> Panic ''invalid work result''
           | Ret (Some res, r', st') \<Rightarrow> Ret (res, r', st')))"

definition limiter_Vector ::
  "('cx, 'r, 'a) vector_method \<Rightarrow> gerr \<Rightarrow> ('cx lctx, 'r limiter, 'a) vector_method" where
  "limiter_Vector V ErrPoolNotRunning lc guid l st =
     (let call = Call_Begin (lc_begin lc) ''Limiter.Vector'' Call_zero
      in case vwp_Vector V ErrPoolNotRunning lc guid l st of
           Panic m \<Rightarrow> Panic m
         | Ret ((v, subcall, err), r', st') \<Rightarrow>
             Ret ((v, deferred_Complete (lc_end lc) (Call_Add subcall call), err), l\<lparr>li_r := r'\<rparr>, st'))"

text \<open>Closing the pool; SendWork fails from then on.\<close>

definition vwp_Close :: "pool \<Rightarrow> pool" where
  [simp]: "vwp_Close p = p\<lparr>wp_running := False\<rparr>"

definition limiter_Close :: "('r \<Rightarrow> 'r) \<Rightarrow> 'r limiter \<Rightarrow> 'r limiter" where
  "limiter_Close close l = l\<lparr>li_vwp := vwp_Close (li_vwp l), li_r := close (li_r l)\<rparr>"

definition limiter_Backlog :: "('r \<Rightarrow> 'b) \<Rightarrow> 'r limiter \<Rightarrow> 'b" where
  "limiter_Backlog backlog l = backlog (li_r l)"

definition limiter_Report :: "('r \<Rightarrow> 'b) \<Rightarrow> 'r limiter \<Rightarrow> 'b" where
  "limiter_Report report l = report (li_r l)"

section \<open>The cacher\<close>

record 'r cacher =
  ca_r :: 'r
  ca_vc :: vcache

record 'cx cctx =
  cc_t0 :: time
  cc_now :: time
  cc_later :: time
  cc_t1 :: time
  cc_ctx :: 'cx

definition NewCacher :: "'r \<Rightarrow> duration \<Rightarrow> 'r cacher" where
  "NewCacher r duration = \<lparr>ca_r = r, ca_vc = NewCache duration\<rparr>"

text \<open>
  The cache's lookup function is the underlying Vector; it is called on a miss. Its panic is the
  program's.
\<close>

definition cacher_Vector ::
  "('cx, 'r, 'a) vector_method \<Rightarrow> ('a \<Rightarrow> gerr + 'a) \<Rightarrow> ('cx cctx, 'r cacher, 'a) vector_method" where
  "cacher_Vector V SafeArrayCopy cc guid c st =
     (let miss = (\<not> Cache_closed (ca_vc c) \<and> Cache_value (cc_now cc) guid (ca_vc c) = None);
          fetched = (if miss then V (cc_ctx cc) guid (ca_r c) st else Ret ((None, Call_zero, None), ca_r c, st))
      in case fetched of
           Panic m \<Rightarrow> Panic m
         | Ret (res, r', st1) \<Rightarrow>
             (case VCache_Lookup SafeArrayCopy (\<lambda>_ _. (res, st1)) (cc_t0 cc) (cc_now cc) (cc_later cc) (cc_t1 cc)
                     guid (ca_vc c) st of
                Panic m \<Rightarrow> Panic m
              | Ret (v, call, err, vc', st2) \<Rightarrow> Ret ((v, call, err), \<lparr>ca_r = r', ca_vc = vc'\<rparr>, st2)))"

definition cacher_Close :: "('r \<Rightarrow> 'r) \<Rightarrow> 'r cacher \<Rightarrow> 'r cacher" where
  "cacher_Close close c = \<lparr>ca_r = close (ca_r c), ca_vc = VCache_Close (ca_vc c)\<rparr>"

definition cacher_Backlog :: "('r \<Rightarrow> 'b) \<Rightarrow> 'r cacher \<Rightarrow> 'b" where
  "cacher_Backlog backlog c = backlog (ca_r c)"

definition cacher_Report :: "('r \<Rightarrow> 'b) \<Rightarrow> 'r cacher \<Rightarrow> 'b" where
  "cacher_Report report c = report (ca_r c)"

section \<open>The contract of a reporter's Vector\<close>

text \<open>
  What a caller of the interface Reporter relies on. \<open>owns\<close> are the vectors a reporter keeps for
  itself, \<open>wf\<close> its own well-formedness. Vector returns (it never panics while the reporter's
  vectors are alive), it only adds cells, and without an error the caller gets a new live vector
  that is not among the reporter's own. A closed reporter fails.
\<close>

definition alive_in :: "'a vstore \<Rightarrow> nat \<Rightarrow> bool" where
  "alive_in st i \<longleftrightarrow> Vector_Data i st \<noteq> None"

lemma alive_append: "alive_in st i \<Longrightarrow> alive_in (st @ ext) i"
  by (auto simp: alive_in_def Vector_Data_def nth_append split: if_splits)

lemma alive_new: "alive_in (st @ [Some sa]) (length st)"
  by (simp add: alive_in_def Vector_Data_def)

lemma alive_Close: "alive_in (Vector_Close i st) j \<longleftrightarrow> alive_in st j \<and> i \<noteq> j"
  by (auto simp: alive_in_def Data_Close)

lemma alive_old: "alive_in (st @ ext) i \<Longrightarrow> ext = [] \<or> length ext = 1 \<Longrightarrow> alive_in st i \<or> ext \<noteq> [] \<and> i = length st"
  by (auto simp: alive_in_def Vector_Data_def nth_append less_Suc_eq split: if_splits)

lemma alive_bound: "alive_in st i \<Longrightarrow> i < length st"
  by (auto simp: alive_in_def Vector_Data_def split: if_splits)

locale vector_reporter =
  fixes vec :: "'cx \<Rightarrow> uuid \<Rightarrow> 'r \<Rightarrow> 'a vstore \<Rightarrow> (vresult \<times> 'r \<times> 'a vstore) outcome"
    and close :: "'r \<Rightarrow> 'r"
    and closed :: "'r \<Rightarrow> bool"
    and wf :: "'r \<Rightarrow> bool"
    and owns :: "'r \<Rightarrow> nat set"
  assumes returns: "wf r \<Longrightarrow> \<forall>i \<in> owns r. alive_in st i \<Longrightarrow> \<exists>x. vec cx g r st = Ret x"
    and keeps: "wf r \<Longrightarrow> \<forall>i \<in> owns r. alive_in st i \<Longrightarrow> vec cx g r st = Ret ((v, call, err), r', st') \<Longrightarrow>
      wf r' \<and> closed r' = closed r \<and> (\<forall>i \<in> owns r'. alive_in st' i) \<and> owns r' \<subseteq> owns r \<union> {length st..} \<and>
      (\<exists>ext. st' = st @ ext)"
    and fresh_result: "wf r \<Longrightarrow> \<forall>i \<in> owns r. alive_in st i \<Longrightarrow> vec cx g r st = Ret ((v, call, None), r', st') \<Longrightarrow>
      \<exists>i. v = Some i \<and> length st \<le> i \<and> alive_in st' i \<and> i \<notin> owns r'"
    and closed_fails: "closed r \<Longrightarrow> vec cx g r st = Ret ((v, call, err), r', st') \<Longrightarrow> err \<noteq> None"
    and close_closes: "closed (close r)"
    and close_owns: "wf r \<Longrightarrow> wf (close r) \<and> owns (close r) \<subseteq> owns r"

text \<open>
  A call leaks nothing if every live vector afterwards was there before, or is the reporter's
  own, or is the result. That holds unless the context ends during the remote call, in which
  case the goroutine's result goes unreported; \<open>calm\<close> says that it does not.
\<close>

definition leaks_nothing :: "'a vstore \<Rightarrow> 'a vstore \<Rightarrow> nat set \<Rightarrow> nat option \<Rightarrow> gerr option \<Rightarrow> bool" where
  "leaks_nothing st st' own v err \<longleftrightarrow>
     (\<forall>i. alive_in st' i \<longrightarrow> alive_in st i \<or> i \<in> own \<or> v = Some i \<and> err = None)"

locale tidy_reporter = vector_reporter vec close closed wf owns
  for vec :: "'cx \<Rightarrow> uuid \<Rightarrow> 'r \<Rightarrow> 'a vstore \<Rightarrow> (vresult \<times> 'r \<times> 'a vstore) outcome"
    and close closed wf owns +
  fixes calm :: "'cx \<Rightarrow> bool"
  assumes tidy: "calm cx \<Longrightarrow> wf r \<Longrightarrow> \<forall>i \<in> owns r. alive_in st i \<Longrightarrow>
    vec cx g r st = Ret ((v, call, err), r', st') \<Longrightarrow> leaks_nothing st st' (owns r') v err"

section \<open>The remote reporter keeps the contract\<close>

lemma reporter_Vector_cases:
  "reporter_Vector ole cx g rn st =
     (let call = deferred_Complete (cx_end cx) (Call_Begin (cx_begin cx) ''Reporter.Vector'' Call_zero)
      in if reporter_closed (fst rn) then Ret ((None, call, Some ErrHelperClosed), rn, st)
         else if cx_early cx \<noteq> None then Ret ((None, call, cx_early cx), rn, st)
         else if cx_hr cx \<noteq> 0
         then Ret ((None, call, case cx_late cx of None \<Rightarrow> convertHresultToError ole (cx_hr cx) | e \<Rightarrow> e), rn, st)
         else Ret (case cx_late cx of None \<Rightarrow> (Some (length st), call, None) | e \<Rightarrow> (None, call, e), rn,
           st @ [Some (cx_result cx)]))"
  by (simp add: reporter_Vector_def reporter_vector_rpc_def GetReferenceVersionVectors_def Vector_New_def Let_def
      split: option.split)

lemma convert_error: "hr \<noteq> 0 \<Longrightarrow> convertHresultToError ole hr \<noteq> None"
  by (simp add: convertHresultToError_def Let_def)

interpretation remote: tidy_reporter "reporter_Vector ole" reporter_Close "\<lambda>r. reporter_closed (fst r)"
    "\<lambda>_. True" "\<lambda>_. {}" "\<lambda>cx. cx_late cx = None" for ole
proof (unfold_locales, goal_cases)
  case (1 r st cx g)
  show ?case by (auto simp: reporter_Vector_cases Let_def split: option.split)
next
  case (2 r st cx g v call err r' st')
  then show ?case by (auto simp: reporter_Vector_cases Let_def split: if_splits option.splits)
next
  case (3 r st cx g v call r' st')
  then show ?case by (auto simp: reporter_Vector_cases Let_def convert_error alive_new split: if_splits option.splits)
next
  case (4 r cx g st v call err r' st')
  then show ?case by (auto simp: reporter_Vector_cases Let_def)
next
  case (7 cx r st g v call err r' st')
  then show ?case
    by (auto simp: reporter_Vector_cases Let_def leaks_nothing_def alive_in_def Vector_Data_def nth_append less_Suc_eq
        split: if_splits)
qed (auto simp: reporter_Close_def reporter_closed_def split: prod.splits)

section \<open>So does a limiter on top of any reporter\<close>

context vector_reporter
begin

lemma vwp_cases:
  "vwp_Vector vec nr lc g l st =
     (case (if wp_running (li_vwp l) then lc_send_err lc else Some nr) of
        Some err \<Rightarrow> Ret ((None, Call_zero, Some err), li_r l, st)
      | None \<Rightarrow> vec (lc_ctx lc) g (li_r l) st)"
  by (auto simp: vwp_Vector_def TunnyJob_def split: option.splits outcome.splits)

lemma limiter_Ret:
  assumes "limiter_Vector vec nr lc g l st = Ret ((v, call, err), l', st')"
  shows "(err \<noteq> None \<and> l' = l \<and> st' = st \<and> v = None) \<or>
     wp_running (li_vwp l) \<and>
     (\<exists>c r'. vec (lc_ctx lc) g (li_r l) st = Ret ((v, c, err), r', st') \<and> l' = l\<lparr>li_r := r'\<rparr>)"
  using assms
  by (auto simp: limiter_Vector_def vwp_cases split: option.splits outcome.splits prod.splits if_splits)

lemma limited:
  "vector_reporter (limiter_Vector vec nr) (limiter_Close close) (\<lambda>l. closed (li_r l)) (\<lambda>l. wf (li_r l)) (\<lambda>l. owns (li_r l))"
proof (unfold_locales, goal_cases)
  case (1 l st lc g)
  with returns [of "li_r l" st "lc_ctx lc" g] show ?case
    by (force simp: limiter_Vector_def vwp_cases split: option.splits outcome.splits prod.splits)
next
  case (2 l st lc g v call err l' st')
  with limiter_Ret [OF 2(3)] keeps [OF 2(1,2), of "lc_ctx lc" g] show ?case by fastforce
next
  case (3 l st lc g v call l' st')
  with limiter_Ret [OF 3(3)] fresh_result [OF 3(1,2), of "lc_ctx lc" g] show ?case by fastforce
next
  case (4 l lc g st v call err l' st')
  with limiter_Ret [OF 4(2)] closed_fails [of "li_r l" "lc_ctx lc" g st] show ?case by fastforce
qed (simp_all add: limiter_Close_def close_closes close_owns)

end

context tidy_reporter
begin

lemma limited_tidy:
  "tidy_reporter (limiter_Vector vec nr) (limiter_Close close) (\<lambda>l. closed (li_r l)) (\<lambda>l. wf (li_r l))
     (\<lambda>l. owns (li_r l)) (\<lambda>lc. calm (lc_ctx lc))"
proof (rule tidy_reporter.intro [OF limited], unfold_locales, goal_cases)
  case (1 lc l st g v call err l' st')
  with limiter_Ret [OF 1(4)] tidy [OF 1(1-3), of g] show ?case by (fastforce simp: leaks_nothing_def)
qed

end

interpretation limited: tidy_reporter "limiter_Vector (reporter_Vector ole) nr" "limiter_Close reporter_Close"
    "\<lambda>l. reporter_closed (fst (li_r l))" "\<lambda>_. True" "\<lambda>_. {}" "\<lambda>lc. cx_late (lc_ctx lc) = None" for ole nr
  using remote.limited_tidy .

section \<open>So does a cacher\<close>

definition wf_vcache :: "vcache \<Rightarrow> bool" where
  "wf_vcache c \<longleftrightarrow> ok_cache c \<and>
     (\<forall>k e. map_of (data_of c) k = Some e \<longrightarrow> (\<exists>x i. ce_Value e = Some x \<and> ve_vector x = Some i))"

lemma wf_vcache_New: "wf_vcache (NewCache d)"
  by (simp add: wf_vcache_def NewCache_def)

lemma wf_vcache_set:
  "wf_vcache c \<Longrightarrow> ve_vector x = Some i \<Longrightarrow> wf_vcache (Cache_set entry_methods t k (Some x) c)"
  by (auto simp: wf_vcache_def ok_cache_set map_of_data_set split: if_splits)

lemma wf_vcache_hit:
  assumes "wf_vcache c" "Cache_value now g c = Some e"
  shows "\<exists>x i. e = Some x \<and> ve_vector x = Some i \<and> i \<in> cached_vectors c"
proof -
  from assms(2) obtain en where m: "map_of (data_of c) g = Some en" and e: "e = ce_Value en"
    by (auto simp: Cache_value_def Let_def split: option.splits if_splits)
  from assms(1) m obtain x i where "ce_Value en = Some x" "ve_vector x = Some i" unfolding wf_vcache_def by blast
  with m e show ?thesis unfolding cached_vectors_def by blast
qed

lemma VCache_Close_facts:
  "wf_vcache c \<Longrightarrow> wf_vcache (VCache_Close c) \<and> cached_vectors (VCache_Close c) \<subseteq> cached_vectors c \<and>
    Cache_closed (VCache_Close c)"
proof -
  have d: "data_of (VCache_Close c) = []" "Cache_closed (VCache_Close c)"
    by (auto simp: VCache_Close_def Cache_Close_def data_of_def Cache_closed_def split: option.split)
  assume "wf_vcache c"
  then have "ok_cache (VCache_Close c)" by (simp add: wf_vcache_def VCache_Close_def ok_cache_Close)
  with d show ?thesis by (simp add: wf_vcache_def cached_vectors_def)
qed

lemma dup_alive:
  "alive_in st i \<Longrightarrow> (\<exists>err. dup_ptr cp (Some i) st = Ret (None, Some err, st)) \<or>
    (\<exists>sa. dup_ptr cp (Some i) st = Ret (Some (length st), None, st @ [Some sa]))"
  by (auto simp: dup_ptr_def Vector_Duplicate_def alive_in_def Vector_New_def split: sum.split)

text \<open>The three ways through Lookup: closed, a hit, and a miss that the lookup function answers.\<close>

lemma lookup_closed:
  "Cache_closed c \<Longrightarrow> \<exists>call. VCache_Lookup cp lk t0 now later t1 g c st = Ret (None, call, Some ErrCacheClosed, c, st)"
  by (simp add: VCache_Lookup_def Cache_Lookup_def Let_def)

lemma lookup_hit:
  assumes "\<not> Cache_closed c" "Cache_value now g c = Some e" "wf_vcache c" "\<forall>i \<in> cached_vectors c. alive_in st i"
  shows "\<exists>v call err ext. VCache_Lookup cp lk t0 now later t1 g c st = Ret (v, call, err, c, st @ ext) \<and>
    (err = None \<longrightarrow> v = Some (length st) \<and> alive_in (st @ ext) (length st)) \<and>
    (ext = [] \<or> length ext = 1 \<and> err = None)"
proof -
  obtain x i where e: "e = Some x" "ve_vector x = Some i" "i \<in> cached_vectors c"
    using wf_vcache_hit [OF assms(3,2)] by blast
  then have "alive_in st i" using assms(4) by blast
  then have l: "VCache_Lookup cp lk t0 now later t1 g c st =
     (case dup_ptr cp (Some i) st of Panic m \<Rightarrow> Panic m
      | Ret (v, err, st2) \<Rightarrow> Ret (v, deferred_Complete t1 (Call_Add (ve_call x) (Call_Begin t0 ''Cache.Lookup'' Call_zero)), err, c, st2))"
    using assms(1,2) e by (simp add: VCache_Lookup_def Cache_Lookup_def Let_def)
  from dup_alive [OF \<open>alive_in st i\<close>, of cp] show ?thesis
  proof (elim disjE exE)
    fix err assume "dup_ptr cp (Some i) st = Ret (None, Some err, st)"
    with l show ?thesis by (intro exI [of _ None] exI [of _ "Some err"] exI [of _ "[]"] exI) simp
  next
    fix sa assume "dup_ptr cp (Some i) st = Ret (Some (length st), None, st @ [Some sa])"
    with l show ?thesis
      by (intro exI [of _ "Some (length st)"] exI [of _ None] exI [of _ "[Some sa]"] exI) (simp add: alive_new)
  qed
qed

lemma lookup_miss:
  assumes "\<not> Cache_closed c" "Cache_value now g c = None" "wf_vcache c"
    "err1 = None \<longrightarrow> (\<exists>i. v1 = Some i \<and> alive_in st1 i)"
  shows "\<exists>v call err c' ext. VCache_Lookup cp (\<lambda>_ _. ((v1, call1, err1), st1)) t0 now later t1 g c st =
      Ret (v, call, err, c', st1 @ ext) \<and> wf_vcache c' \<and> \<not> Cache_closed c' \<and>
      cached_vectors c' \<subseteq> cached_vectors c \<union> (if err1 = None then {i. v1 = Some i} else {}) \<and>
      (err = None \<longrightarrow> v = Some (length st1) \<and> alive_in (st1 @ ext) (length st1)) \<and>
      (ext = [] \<or> length ext = 1 \<and> err = None) \<and> (err1 = None \<longrightarrow> {i. v1 = Some i} \<subseteq> cached_vectors c')"
proof (cases err1)
  case (Some e)
  with assms(1-3) show ?thesis
    by (intro exI [of _ v1] exI [of _ "Some e"] exI [of _ c] exI [of _ "[]"] exI)
      (simp add: VCache_Lookup_def Cache_Lookup_def castLookup_def Let_def)
next
  case None
  with assms(4) obtain i where i: "v1 = Some i" "alive_in st1 i" by blast
  let ?x = "\<lparr>ve_vector = v1, ve_call = call1\<rparr>"
  let ?c = "Cache_set entry_methods later g (Some ?x) c"
  have "map_of (data_of ?c) g = Some \<lparr>ce_Timestamp = later, ce_Key = g, ce_Value = Some ?x\<rparr>"
    using assms(3) by (simp add: wf_vcache_def map_of_data_set)
  then have in_c: "i \<in> cached_vectors ?c" unfolding cached_vectors_def using i(1) by fastforce
  have c: "wf_vcache ?c" "\<not> Cache_closed ?c" "cached_vectors ?c \<subseteq> cached_vectors c \<union> {i. v1 = Some i}"
    using wf_vcache_set [OF assms(3), of ?x i] i(1) assms(3) cached_vectors_set [of c entry_methods later g "Some ?x"]
    by (auto simp: wf_vcache_def)
  have l: "VCache_Lookup cp (\<lambda>_ _. ((v1, call1, err1), st1)) t0 now later t1 g c st =
     (case dup_ptr cp (Some i) st1 of Panic m \<Rightarrow> Panic m
      | Ret (v, err, st2) \<Rightarrow> Ret (v, deferred_Complete t1 (Call_Add call1 (Call_Begin t0 ''Cache.Lookup'' Call_zero)), err, ?c, st2))"
    unfolding i(1) using assms(1,2) None
    by (cases "dup_ptr cp (Some i) st1") (auto simp: VCache_Lookup_def Cache_Lookup_def castLookup_def Let_def)
  from dup_alive [OF i(2), of cp] show ?thesis
  proof (elim disjE exE)
    fix err assume "dup_ptr cp (Some i) st1 = Ret (None, Some err, st1)"
    with l c None in_c i(1) show ?thesis
      by (intro exI [of _ None] exI [of _ "Some err"] exI [of _ ?c] exI [of _ "[]"] exI) simp
  next
    fix sa assume "dup_ptr cp (Some i) st1 = Ret (Some (length st1), None, st1 @ [Some sa])"
    with l c None in_c i(1) show ?thesis
      by (intro exI [of _ "Some (length st1)"] exI [of _ None] exI [of _ ?c] exI [of _ "[Some sa]"] exI)
        (simp add: alive_new)
  qed
qed

context vector_reporter
begin

definition cwf :: "'r cacher \<Rightarrow> bool" where
  "cwf c \<longleftrightarrow> wf (ca_r c) \<and> wf_vcache (ca_vc c)"

definition cowns :: "'r cacher \<Rightarrow> nat set" where
  "cowns c = owns (ca_r c) \<union> cached_vectors (ca_vc c)"

lemma cacher_cases:
  assumes wf: "cwf c" and al: "\<forall>i \<in> cowns c. alive_in st i"
  shows "\<exists>v call err c' ext. cacher_Vector vec cp cc g c st = Ret ((v, call, err), c', st @ ext) \<and> cwf c' \<and>
     Cache_closed (ca_vc c') = Cache_closed (ca_vc c) \<and> (\<forall>i \<in> cowns c'. alive_in (st @ ext) i) \<and>
     cowns c' \<subseteq> cowns c \<union> {length st..} \<and> (Cache_closed (ca_vc c) \<longrightarrow> err \<noteq> None) \<and>
     (err = None \<longrightarrow> (\<exists>i. v = Some i \<and> length st \<le> i \<and> alive_in (st @ ext) i \<and> i \<notin> cowns c')) \<and>
     ((\<forall>v1 call1 err1 r' st1. vec (cc_ctx cc) g (ca_r c) st = Ret ((v1, call1, err1), r', st1) \<longrightarrow>
         leaks_nothing st st1 (owns r') v1 err1) \<longrightarrow> leaks_nothing st (st @ ext) (cowns c') v err)"
proof -
  let ?vc = "ca_vc c" and ?r = "ca_r c"
  have w: "wf ?r" "wf_vcache ?vc" and a: "\<forall>i \<in> owns ?r. alive_in st i" "\<forall>i \<in> cached_vectors ?vc. alive_in st i"
    using wf al by (auto simp: cwf_def cowns_def)
  note old = alive_bound alive_append
  consider (closed) "Cache_closed ?vc" | (hit) e where "\<not> Cache_closed ?vc" "Cache_value (cc_now cc) g ?vc = Some e"
    | (miss) "\<not> Cache_closed ?vc" "Cache_value (cc_now cc) g ?vc = None" by fastforce
  then show ?thesis
  proof cases
    case closed
    obtain call where "VCache_Lookup cp (\<lambda>_ _. ((None, Call_zero, None), st)) (cc_t0 cc) (cc_now cc) (cc_later cc)
        (cc_t1 cc) g ?vc st = Ret (None, call, Some ErrCacheClosed, ?vc, st)" using lookup_closed [OF closed] by blast
    with closed have "cacher_Vector vec cp cc g c st = Ret ((None, call, Some ErrCacheClosed), c, st @ [])"
      by (simp add: cacher_Vector_def Let_def)
    with wf al closed show ?thesis
      by (intro exI [of _ None] exI [of _ call] exI [of _ "Some ErrCacheClosed"] exI [of _ c] exI [of _ "[]"])
        (simp add: leaks_nothing_def)
  next
    case hit
    obtain v call err ext where l: "VCache_Lookup cp (\<lambda>_ _. ((None, Call_zero, None), st)) (cc_t0 cc) (cc_now cc)
        (cc_later cc) (cc_t1 cc) g ?vc st = Ret (v, call, err, ?vc, st @ ext)"
      and v: "err = None \<longrightarrow> v = Some (length st) \<and> alive_in (st @ ext) (length st)"
        "ext = [] \<or> length ext = 1 \<and> err = None"
      using lookup_hit [OF hit w(2) a(2), of cp "\<lambda>_ _. ((None, Call_zero, None), st)" "cc_t0 cc" "cc_later cc" "cc_t1 cc"] by blast
    have "cacher_Vector vec cp cc g c st = Ret ((v, call, err), c, st @ ext)"
      using hit l by (simp add: cacher_Vector_def Let_def)
    moreover have "length st \<notin> cowns c" using al old(1) by blast
    moreover have "\<forall>i \<in> cowns c. alive_in (st @ ext) i" using al old(2) by blast
    moreover have "leaks_nothing st (st @ ext) (cowns c) v err"
      using v alive_old by (fastforce simp: leaks_nothing_def)
    ultimately show ?thesis
      using wf hit v by (intro exI [of _ v] exI [of _ call] exI [of _ err] exI [of _ c] exI [of _ ext]) auto
  next
    case miss
    obtain v1 call1 err1 r' st1 where u: "vec (cc_ctx cc) g ?r st = Ret ((v1, call1, err1), r', st1)"
      using returns [OF w(1) a(1), of "cc_ctx cc" g] by (metis prod.exhaust)
    note k = keeps [OF w(1) a(1) u]
    from k obtain ext1 where st1: "st1 = st @ ext1" by blast
    have p: "err1 = None \<longrightarrow> (\<exists>i. v1 = Some i \<and> alive_in st1 i)" and np: "err1 = None \<Longrightarrow> length st \<le> the v1"
      using fresh_result [OF w(1) a(1)] u by fastforce+
    obtain v call err vc' ext where l: "VCache_Lookup cp (\<lambda>_ _. ((v1, call1, err1), st1)) (cc_t0 cc) (cc_now cc)
        (cc_later cc) (cc_t1 cc) g ?vc st = Ret (v, call, err, vc', st1 @ ext)" and
      f: "wf_vcache vc'" "\<not> Cache_closed vc'" "cached_vectors vc' \<subseteq> cached_vectors ?vc \<union> (if err1 = None then {i. v1 = Some i} else {})"
      "err = None \<longrightarrow> v = Some (length st1) \<and> alive_in (st1 @ ext) (length st1)"
      "ext = [] \<or> length ext = 1 \<and> err = None" "err1 = None \<longrightarrow> {i. v1 = Some i} \<subseteq> cached_vectors vc'"
      using lookup_miss [OF miss w(2) p, of cp call1 "cc_t0 cc" "cc_later cc" "cc_t1 cc" st] by blast
    let ?c = "\<lparr>ca_r = r', ca_vc = vc'\<rparr>"
    have "cacher_Vector vec cp cc g c st = Ret ((v, call, err), ?c, st @ (ext1 @ ext))"
      using miss u l st1 by (simp add: cacher_Vector_def Let_def)
    moreover have "cwf ?c" using k f by (simp add: cwf_def)
    moreover have al1: "\<forall>i \<in> cowns ?c. alive_in st1 i"
    proof
      fix i assume "i \<in> cowns ?c"
      with f(3) consider "i \<in> owns r'" | "i \<in> cached_vectors ?vc" | "err1 = None" "v1 = Some i"
        by (auto simp: cowns_def split: if_splits)
      then show "alive_in st1 i" by cases (use k p a(2) old(2) st1 in auto)
    qed
    moreover have "\<forall>i \<in> cowns ?c. alive_in (st @ ext1 @ ext) i" using al1 old(2) st1 by fastforce
    moreover have "cowns ?c \<subseteq> cowns c \<union> {length st..}"
      using k f(3) np by (fastforce simp: cowns_def split: if_splits)
    moreover have "length st1 \<notin> cowns ?c" using al1 old(1) by blast
    moreover have "leaks_nothing st (st @ ext1 @ ext) (cowns ?c) v err" if "leaks_nothing st st1 (owns r') v1 err1"
      unfolding leaks_nothing_def
    proof (intro allI impI)
      fix i assume "alive_in (st @ ext1 @ ext) i"
      then have "alive_in st1 i \<or> v = Some i \<and> err = None"
        using f(4,5) alive_old [of st1 ext i] st1 by auto
      with that f(6) show "alive_in st i \<or> i \<in> cowns ?c \<or> v = Some i \<and> err = None"
        by (auto simp: leaks_nothing_def cowns_def)
    qed
    ultimately show ?thesis
      using f miss st1 u
      by (intro exI [of _ v] exI [of _ call] exI [of _ err] exI [of _ ?c] exI [of _ "ext1 @ ext"]) auto
  qed
qed

lemma cached:
  "vector_reporter (cacher_Vector vec cp) (cacher_Close close) (\<lambda>c. Cache_closed (ca_vc c)) cwf cowns"
proof (unfold_locales, goal_cases)
  case (1 c st cc g)
  from cacher_cases [OF 1, of cp cc g] show ?case by blast
next
  case (2 c st cc g v call err c' st')
  from cacher_cases [OF 2(1,2), of cp cc g] 2(3) show ?case by auto
next
  case (3 c st cc g v call c' st')
  from cacher_cases [OF 3(1,2), of cp cc g] 3(3) show ?case by auto
next
  case (4 c cc g st v call err c' st')
  then obtain x where "VCache_Lookup cp (\<lambda>_ _. ((None, Call_zero, None), st)) (cc_t0 cc) (cc_now cc)
      (cc_later cc) (cc_t1 cc) g (ca_vc c) st = Ret (None, x, Some ErrCacheClosed, ca_vc c, st)"
    using lookup_closed by blast
  with 4 show ?case by (auto simp: cacher_Vector_def Let_def)
next
  case (5 c)
  then show ?case by (simp add: cacher_Close_def VCache_Close_def Cache_Close_def Cache_closed_def)
next
  case (6 c)
  then show ?case
    using VCache_Close_facts [of "ca_vc c"] close_owns [of "ca_r c"] by (auto simp: cacher_Close_def cwf_def cowns_def)
qed

end

context tidy_reporter
begin

lemma cached_tidy:
  "tidy_reporter (cacher_Vector vec cp) (cacher_Close close) (\<lambda>c. Cache_closed (ca_vc c)) cwf cowns (\<lambda>cc. calm (cc_ctx cc))"
proof (rule tidy_reporter.intro [OF cached], unfold_locales, goal_cases)
  case (1 cc c st g v call err c' st')
  have "leaks_nothing st st1 (owns r') v1 err1" if "vec (cc_ctx cc) g (ca_r c) st = Ret ((v1, call1, err1), r', st1)"
    for v1 call1 err1 r' st1
    using tidy [OF 1(1) _ _ that] 1(2,3) by (auto simp: cwf_def cowns_def)
  with cacher_cases [OF 1(2,3), of cp cc g] 1(4) show ?case by auto
qed

end

interpretation cached: tidy_reporter "cacher_Vector (limiter_Vector (reporter_Vector ole) nr) cp"
    "cacher_Close (limiter_Close reporter_Close)" "\<lambda>c. Cache_closed (ca_vc c)" "limited.cwf" "limited.cowns"
    "\<lambda>cc. cx_late (lc_ctx (cc_ctx cc)) = None" for ole nr cp
  by (rule limited.cached_tidy)

section \<open>Sessions of a caller\<close>

text \<open>
  A caller asks for vectors, with any contexts and answers, and closes those it has got, in any
  order. It panics on a nil vector without an error.
\<close>

datatype 'cx session_op = AskVector 'cx uuid | CloseVector nat | CloseReporter

fun session_step ::
  "('cx, 'r, 'a) vector_method \<Rightarrow> ('r \<Rightarrow> 'r) \<Rightarrow> 'cx session_op \<Rightarrow> 'r \<times> 'a vstore \<times> nat list \<Rightarrow>
   ('r \<times> 'a vstore \<times> nat list) outcome" where
  "session_step V close (AskVector cx g) (r, st, hs) =
     (case V cx g r st of
        Panic m \<Rightarrow> Panic m
      | Ret ((v, call, Some err), r', st') \<Rightarrow> Ret (r', st', hs)
      | Ret ((None, call, None), r', st') \<Rightarrow> Panic ''nil pointer dereference''
      | Ret ((Some i, call, None), r', st') \<Rightarrow> Ret (r', st', hs @ [i]))"
| "session_step V close (CloseVector k) (r, st, hs) =
     Ret (if k < length hs then (r, Vector_Close (hs ! k) st, remove_at k hs) else (r, st, hs))"
| "session_step V close CloseReporter (r, st, hs) = Ret (close r, st, hs)"

fun vector_session ::
  "('cx, 'r, 'a) vector_method \<Rightarrow> ('r \<Rightarrow> 'r) \<Rightarrow> 'cx session_op list \<Rightarrow> 'r \<times> 'a vstore \<times> nat list \<Rightarrow>
   ('r \<times> 'a vstore \<times> nat list) outcome" where
  "vector_session V close [] s = Ret s"
| "vector_session V close (x # xs) s =
     (case session_step V close x s of Panic m \<Rightarrow> Panic m | Ret s' \<Rightarrow> vector_session V close xs s')"

context vector_reporter
begin

definition session_inv :: "'r \<times> 'a vstore \<times> nat list \<Rightarrow> bool" where
  "session_inv s \<longleftrightarrow> (case s of (r, st, hs) \<Rightarrow>
     wf r \<and> (\<forall>i \<in> owns r. alive_in st i) \<and> distinct hs \<and> (\<forall>i \<in> set hs. alive_in st i \<and> i \<notin> owns r))"

lemma session_step_ok:
  assumes inv: "session_inv s"
  shows "\<exists>t. session_step vec close x s = Ret t \<and> session_inv t"
proof -
  obtain r st hs where s: "s = (r, st, hs)" by (cases s)
  from inv have w: "wf r" "\<forall>i \<in> owns r. alive_in st i" "distinct hs" "\<forall>i \<in> set hs. alive_in st i \<and> i \<notin> owns r"
    by (auto simp: session_inv_def s)
  show ?thesis
  proof (cases x)
    case (AskVector cx g)
    obtain v call err r' st' where u: "vec cx g r st = Ret ((v, call, err), r', st')"
      using returns [OF w(1,2)] by (metis prod.exhaust)
    note k = keeps [OF w(1,2) u]
    have hs: "\<forall>i \<in> set hs. alive_in st' i \<and> i \<notin> owns r'"
    proof
      fix i assume "i \<in> set hs"
      with w(4) have i: "alive_in st i" "i \<notin> owns r" by auto
      with k alive_bound [OF i(1)] alive_append [OF i(1)] show "alive_in st' i \<and> i \<notin> owns r'" by auto
    qed
    show ?thesis
    proof (cases err)
      case None
      obtain i where i: "v = Some i" "length st \<le> i" "alive_in st' i" "i \<notin> owns r'"
        using fresh_result [OF w(1,2)] u None by blast
      moreover have "i \<notin> set hs" using i(2) w(4) alive_bound by fastforce
      ultimately show ?thesis using k hs w(3) u None by (simp add: s AskVector session_inv_def)
    next
      case (Some e)
      then show ?thesis using k hs w(3) u by (cases v) (simp_all add: s AskVector session_inv_def)
    qed
  next
    case (CloseVector k)
    show ?thesis
    proof (cases "k < length hs")
      case True
      have d: "hs = take k hs @ hs ! k # drop (Suc k) hs" using True by (rule id_take_nth_drop)
      then have "distinct (take k hs @ hs ! k # drop (Suc k) hs)" using w(3) by metis
      then have "distinct (remove_at k hs)" "hs ! k \<notin> set (remove_at k hs)" by (auto simp: remove_at_def)
      moreover have "set (remove_at k hs) \<subseteq> set hs" using set_remove_at [OF True] by blast
      moreover have "hs ! k \<notin> owns r" using w(4) nth_mem [OF True] by blast
      ultimately show ?thesis using w True by (auto simp: s CloseVector session_inv_def alive_Close)
    qed (use inv in \<open>simp add: s CloseVector\<close>)
  next
    case CloseReporter
    then show ?thesis using w close_owns [OF w(1)] by (auto simp: s session_inv_def)
  qed
qed

lemma session_ok: "session_inv s \<Longrightarrow> \<exists>t. vector_session vec close xs s = Ret t \<and> session_inv t"
proof (induction xs arbitrary: s)
  case (Cons x xs)
  from session_step_ok [OF Cons.prems, of x] Cons.IH show ?case by auto
qed simp

end

section \<open>Properties\<close>


text \<open>
  A closed connection refuses requests without touching the vectors or the remote side,
  each layer with its own error: the cacher with the cache's, the limiter with the pool's, the
  remote reporter with ErrClosed.
\<close>

theorem closed_connection_refuses:
  "(\<exists>call. cacher_Vector V cp cc g (cacher_Close close c) st =
      Ret ((None, call, Some ErrCacheClosed), cacher_Close close c, st)) \<and>
   (\<exists>call. limiter_Vector V nr lc g (limiter_Close close l) st = Ret ((None, call, Some nr), limiter_Close close l, st)) \<and>
   (\<exists>call. reporter_Vector ole cx g (reporter_Close r) st = Ret ((None, call, Some ErrHelperClosed), reporter_Close r, st))"
proof (intro conjI)
  have c: "Cache_closed (ca_vc (cacher_Close close c))"
    by (simp add: cacher_Close_def VCache_Close_def Cache_Close_def Cache_closed_def)
  obtain x where "VCache_Lookup cp (\<lambda>_ _. ((None, Call_zero, None), st)) (cc_t0 cc) (cc_now cc) (cc_later cc)
      (cc_t1 cc) g (ca_vc (cacher_Close close c)) st = Ret (None, x, Some ErrCacheClosed, ca_vc (cacher_Close close c), st)"
    using lookup_closed [OF c] by blast
  with c show "\<exists>call. cacher_Vector V cp cc g (cacher_Close close c) st =
      Ret ((None, call, Some ErrCacheClosed), cacher_Close close c, st)" by (simp add: cacher_Vector_def Let_def)
qed (simp_all add: limiter_Vector_def vwp_Vector_def limiter_Close_def reporter_Vector_def reporter_Close_def
    reporter_closed_def Let_def split: prod.split)

text \<open>
  The call record that comes with a result never holds the error, although Complete is
  there to put it in: each layer completes its own record with nil, because the argument of the
  deferred call is evaluated before there is an error.
\<close>

theorem calls_never_record_errors:
  assumes "reporter_Vector ole cx g rn st = Ret ((v, call, err), rn', st')"
    and "limiter_Vector V nr lc g l st = Ret ((v2, call2, err2), l', st2)"
    and "cacher_Vector V cp cc g c st = Ret ((v3, call3, err3), c', st3)"
  shows "Err call = None \<and> Err call2 = None \<and> Err call3 = None"
proof (intro conjI)
  show "Err call = None"
    using assms(1) by (auto simp: reporter_Vector_cases Let_def Call_zero_def split: if_splits option.splits)
  show "Err call2 = None"
    using assms(2) by (auto simp: limiter_Vector_def Let_def split: outcome.splits prod.splits)
  show "Err call3 = None"
    using assms(3)
    by (auto simp: cacher_Vector_def Let_def VCache_Lookup_def split: outcome.splits prod.splits option.splits if_splits)
qed

definition failing_ctx :: "string rctx" where
  "failing_ctx = \<lparr>cx_early = Some ErrCanceled, cx_late = None, cx_begin = 1, cx_end = 2, cx_hr = 0, cx_result = ''vv''\<rparr>"

definition open_reporter :: "nat reporter \<times> nat" where
  "open_reporter = (\<lparr>rp_iface = Some 7\<rparr>, 0)"

theorem calls_never_record_errors_witness:
  "\<exists>call. reporter_Vector (\<lambda>_. ErrEOF) failing_ctx 5 open_reporter [] = Ret ((None, call, Some ErrCanceled), open_reporter, []) \<and>
     Err call = None"
proof -
  let ?V = "reporter_Vector (\<lambda>_. ErrEOF)"
  let ?l = "\<lparr>li_r = open_reporter, li_vwp = \<lparr>wp_workers = 1, wp_running = False\<rparr>\<rparr>"
  obtain call where a: "?V failing_ctx 5 open_reporter [] = Ret ((None, call, Some ErrCanceled), open_reporter, [])"
    by (simp add: reporter_Vector_def Let_def failing_ctx_def open_reporter_def reporter_closed_def)
  obtain x where b: "limiter_Vector ?V ErrEOF (\<lparr>lc_begin = 1, lc_end = 2, lc_send_err = None, lc_ctx = failing_ctx\<rparr>) 5 ?l [] = Ret x"
    by (simp add: limiter_Vector_def vwp_Vector_def)
  obtain y where c: "cacher_Vector ?V Inr (\<lparr>cc_t0 = 1, cc_now = 2, cc_later = 3, cc_t1 = 4, cc_ctx = failing_ctx\<rparr>) 5
      (cacher_Close reporter_Close (NewCacher open_reporter 30)) [] = Ret y"
    by (simp add: cacher_Vector_def Let_def cacher_Close_def VCache_Close_def Cache_Close_def Cache_closed_def NewCacher_def
        NewCache_def Cache_New_def VCache_Lookup_def Cache_Lookup_def)
  obtain v2 call2 err2 l' st2 where x: "x = ((v2, call2, err2), l', st2)" by (metis prod.exhaust)
  obtain v3 call3 err3 c' st3 where y: "y = ((v3, call3, err3), c', st3)" by (metis prod.exhaust)
  from calls_never_record_errors [OF a b [unfolded x] c [unfolded y]] a show ?thesis by blast
qed

text \<open>
  Report never produces a report: it returns an error or panics, and on an open reporter with
  a live context and a vector where one is asked for it panics as soon as the system can
  allocate the string for the server's name.
\<close>

theorem report_never_succeeds:
  "(case reporter_Report E alloc_ok early t0 t1 vector backlog files r st of
      Panic m \<Rightarrow> True | Ret (data, report, call, err) \<Rightarrow> data = None \<and> err \<noteq> None) \<and>
   reporter_Report E True None t0 t1 (Some v) backlog files \<lparr>rp_iface = Some h\<rparr> st = Panic ''nil pointer dereference''"
  by (auto simp: reporter_Report_def GetReport_def Let_def reporter_closed_def)

fun int32_of :: "variant \<Rightarrow> int" where
  "int32_of (VInt32 v) = sint v"
| "int32_of VOther = 0"

lemma sint_scast_32_64: "sint (scast (v :: 32 word) :: goint) = sint v"
  by (rule sint_up_scast) (simp add: is_up)

lemma makeBacklog_keeps:
  "(case makeBacklog vs of
      Panic m \<Rightarrow> VOther \<in> set vs \<and> m = ''invalid backlog value''
    | Ret bs \<Rightarrow> VOther \<notin> set vs \<and> map sint bs = map int32_of vs)"
proof (induction vs)
  case (Cons v vs)
  then show ?case by (cases v; cases "makeBacklog vs") (auto simp: sint_scast_32_64)
qed simp

text \<open>
  makeBacklog keeps the number, the order and the signed value of the counts, so the
  negative counts that stand for errors of single folders stay negative in 64 bits; a value of
  another type is fatal.
\<close>

theorem makeBacklog_keeps_values:
  "(case makeBacklog vs of
      Panic m \<Rightarrow> VOther \<in> set vs \<and> m = ''invalid backlog value''
    | Ret bs \<Rightarrow> VOther \<notin> set vs \<and> map sint bs = map int32_of vs)"
  by (rule makeBacklog_keeps)

end
