(* ===== verification/Client.thy ===== *)
theory Client imports Reporter begin

text \<open>
  The client of package helper (helper/client.go): one endpoint per member, created on demand.

  An endpoint is the address of an object with what the client decides about it; its inside is
  the machine of theory Endpoint. The function endpoint takes the read lock and then, for a new
  name, the write lock, so it is two events of its caller.
\<close>

section \<open>The map of endpoints\<close>

record eobj =
  eo_fqdn :: string
  eo_config :: EndpointConfig
  eo_closed :: bool

record client =
  cl_config :: EndpointConfig
  cl_endpoints :: "(string \<times> nat) list option"

datatype ccaller = CcIdle | CcMiss string | CcGot string "nat + gerr"

record clsys =
  kl_client :: client
  kl_objs :: "eobj list"
  kl_callers :: "nat \<Rightarrow> ccaller"

definition NewClientWithConfig :: "EndpointConfig \<Rightarrow> client" where
  "NewClientWithConfig config = \<lparr>cl_config = config, cl_endpoints = Some []\<rparr>"

definition NewClient :: client where
  "NewClient = NewClientWithConfig DefaultEndpointConfig"

definition Client_Config :: "client \<Rightarrow> EndpointConfig" where
  "Client_Config c = cl_config c"

text \<open>Endpoint.UpdateConfig and Endpoint.Close, seen from the client.\<close>

definition set_eobj :: "(eobj \<Rightarrow> eobj) \<Rightarrow> nat \<Rightarrow> eobj list \<Rightarrow> eobj list" where
  "set_eobj f i objs = objs[i := f (objs ! i)]"

definition Client_UpdateConfig :: "EndpointConfig \<Rightarrow> client \<times> eobj list \<Rightarrow> client \<times> eobj list" where
  "Client_UpdateConfig config s =
     (case s of (c, objs) \<Rightarrow>
       (let c1 = c\<lparr>cl_config := config\<rparr>
        in case cl_endpoints c of
             None \<Rightarrow> (c1, objs)
           | Some m \<Rightarrow> (c1, fold (\<lambda>e. set_eobj (\<lambda>x. x\<lparr>eo_config := config\<rparr>) (snd e)) m objs)))"

definition Client_Close :: "client \<times> eobj list \<Rightarrow> client \<times> eobj list" where
  "Client_Close s =
     (case s of (c, objs) \<Rightarrow>
       (case cl_endpoints c of
          None \<Rightarrow> (c, objs)
        | Some m \<Rightarrow> (c\<lparr>cl_endpoints := None\<rparr>, fold (\<lambda>e. set_eobj (\<lambda>x. x\<lparr>eo_closed := True\<rparr>) (snd e)) m objs)))"

definition endpoint_first :: "string \<Rightarrow> client \<Rightarrow> ccaller" where
  "endpoint_first fqdn0 c =
     (let fqdn = ToLower fqdn0
      in case cl_endpoints c of
           None \<Rightarrow> CcGot fqdn (Inr ErrHelperClosed)
         | Some m \<Rightarrow> (case map_of m fqdn of Some e \<Rightarrow> CcGot fqdn (Inl e) | None \<Rightarrow> CcMiss fqdn))"

definition endpoint_second :: "string \<Rightarrow> client \<times> eobj list \<Rightarrow> ccaller \<times> client \<times> eobj list" where
  "endpoint_second fqdn s =
     (case s of (c, objs) \<Rightarrow>
       (case cl_endpoints c of
          None \<Rightarrow> (CcGot fqdn (Inr ErrHelperClosed), c, objs)
        | Some m \<Rightarrow>
            (case map_of m fqdn of
               Some e \<Rightarrow> (CcGot fqdn (Inl e), c, objs)
             | None \<Rightarrow>
                 (let e = length objs
                  in (CcGot fqdn (Inl e), c\<lparr>cl_endpoints := Some (AList.update fqdn e m)\<rparr>,
                      objs @ [\<lparr>eo_fqdn = fqdn, eo_config = cl_config c, eo_closed = False\<rparr>])))))"

section \<open>The machine\<close>

datatype client_event =
    ClUpdateConfig EndpointConfig
  | ClClose
  | ClEndpoint nat string
  | ClEndpointSecond nat
  | ClForget nat

fun client_step :: "client_event \<Rightarrow> clsys \<Rightarrow> clsys option" where
  "client_step (ClUpdateConfig config) s =
     (case Client_UpdateConfig config (kl_client s, kl_objs s) of (c, objs) \<Rightarrow> Some (s\<lparr>kl_client := c, kl_objs := objs\<rparr>))"
| "client_step ClClose s =
     (case Client_Close (kl_client s, kl_objs s) of (c, objs) \<Rightarrow> Some (s\<lparr>kl_client := c, kl_objs := objs\<rparr>))"
| "client_step (ClEndpoint i fqdn) s =
     (if kl_callers s i = CcIdle
      then Some (s\<lparr>kl_callers := (kl_callers s)(i := endpoint_first fqdn (kl_client s))\<rparr>) else None)"
| "client_step (ClEndpointSecond i) s =
     (case kl_callers s i of
        CcMiss fqdn \<Rightarrow>
          (case endpoint_second fqdn (kl_client s, kl_objs s) of
             (res, c, objs) \<Rightarrow> Some (s\<lparr>kl_client := c, kl_objs := objs, kl_callers := (kl_callers s)(i := res)\<rparr>))
      | _ \<Rightarrow> None)"
| "client_step (ClForget i) s =
     (case kl_callers s i of CcGot _ _ \<Rightarrow> Some (s\<lparr>kl_callers := (kl_callers s)(i := CcIdle)\<rparr>) | _ \<Rightarrow> None)"

definition client_init :: "clsys \<Rightarrow> bool" where
  "client_init s \<longleftrightarrow> (\<exists>config. s = \<lparr>kl_client = NewClientWithConfig config, kl_objs = [], kl_callers = (\<lambda>_. CcIdle)\<rparr>)"

text \<open>The map names exactly the endpoints created, one per name, and those follow the client.\<close>

definition map_inv :: "client \<Rightarrow> eobj list \<Rightarrow> bool" where
  "map_inv c objs \<longleftrightarrow> distinct (map eo_fqdn objs) \<and>
     (case cl_endpoints c of
        None \<Rightarrow> \<forall>x \<in> set objs. eo_closed x
      | Some m \<Rightarrow> ok_map m \<and> (\<forall>k e. map_of m k = Some e \<longleftrightarrow> e < length objs \<and> eo_fqdn (objs ! e) = k) \<and>
          (\<forall>x \<in> set objs. \<not> eo_closed x \<and> eo_config x = cl_config c))"

definition got_inv :: "ccaller \<Rightarrow> eobj list \<Rightarrow> bool" where
  "got_inv p objs \<longleftrightarrow> (case p of CcGot k (Inl e) \<Rightarrow> e < length objs \<and> eo_fqdn (objs ! e) = k | _ \<Rightarrow> True)"

definition client_inv :: "clsys \<Rightarrow> bool" where
  "client_inv s \<longleftrightarrow> map_inv (kl_client s) (kl_objs s) \<and> (\<forall>i. got_inv (kl_callers s i) (kl_objs s))"

lemma fold_set_eobj:
  assumes "\<forall>e \<in> set m. snd e < length objs"
  shows "fold (\<lambda>e. set_eobj f (snd e)) m objs ! i =
      (if i < length objs then (f ^^ length (filter (\<lambda>e. snd e = i) m)) (objs ! i) else objs ! i) \<and>
    length (fold (\<lambda>e. set_eobj f (snd e)) m objs) = length objs"
  using assms
proof (induction m arbitrary: objs)
  case (Cons e m)
  have "\<forall>x \<in> set m. snd x < length (set_eobj f (snd e) objs)" using Cons.prems by (simp add: set_eobj_def)
  from Cons.IH [OF this] Cons.prems show ?case
    by (cases "i = snd e") (auto simp: set_eobj_def nth_list_update funpow_swap1)
qed simp

text \<open>With an idempotent change that keeps the names, the loop over the map is a map.\<close>

lemma fold_set_all:
  assumes m: "\<forall>e \<in> set m. snd e < length objs" and all: "\<forall>i < length objs. i \<in> snd ` set m"
    and idem: "\<And>x. f (f x) = f x"
  shows "fold (\<lambda>e. set_eobj f (snd e)) m objs = map f objs"
proof (rule nth_equalityI)
  have pow: "(f ^^ Suc n) x = f x" for n x by (induction n) (simp_all add: idem)
  fix i assume "i < length (fold (\<lambda>e. set_eobj f (snd e)) m objs)"
  then have i: "i < length objs" using fold_set_eobj [OF m] by simp
  then obtain e where "e \<in> set m" "snd e = i" using all by auto
  then have "filter (\<lambda>e. snd e = i) m \<noteq> []" by (auto simp: filter_empty_conv)
  then obtain n where n: "length (filter (\<lambda>e. snd e = i) m) = Suc n" by (metis length_0_conv not0_implies_Suc)
  show "fold (\<lambda>e. set_eobj f (snd e)) m objs ! i = map f objs ! i"
    using fold_set_eobj [OF m, of f i] i all n pow by auto
qed (use fold_set_eobj [OF m] in simp)

lemma map_inv_entries:
  assumes "map_inv c objs" "cl_endpoints c = Some m"
  shows "\<forall>e \<in> set m. snd e < length objs" "\<forall>i < length objs. i \<in> snd ` set m"
proof -
  have ok: "ok_map m" and look: "\<And>k e. map_of m k = Some e \<longleftrightarrow> e < length objs \<and> eo_fqdn (objs ! e) = k"
    using assms by (auto simp: map_inv_def)
  show "\<forall>e \<in> set m. snd e < length objs"
    using amap.entries_look [OF ok] look by (metis map_entries_def prod.collapse)
  show "\<forall>i < length objs. i \<in> snd ` set m"
  proof (intro allI impI)
    fix i assume "i < length objs"
    then have "map_of m (eo_fqdn (objs ! i)) = Some i" using look by blast
    then have "(eo_fqdn (objs ! i), i) \<in> set m" by (rule map_of_SomeD)
    then show "i \<in> snd ` set m" by force
  qed
qed

lemma UpdateConfig_map:
  assumes "map_inv c objs"
  shows "Client_UpdateConfig config (c, objs) =
    (c\<lparr>cl_config := config\<rparr>, if cl_endpoints c = None then objs else map (\<lambda>x. x\<lparr>eo_config := config\<rparr>) objs)"
  using map_inv_entries [OF assms]
  by (auto simp: Client_UpdateConfig_def Let_def fold_set_all split: option.split)

lemma Close_map:
  assumes "map_inv c objs"
  shows "Client_Close (c, objs) =
    (c\<lparr>cl_endpoints := None\<rparr>, if cl_endpoints c = None then objs else map (\<lambda>x. x\<lparr>eo_closed := True\<rparr>) objs)"
  using map_inv_entries [OF assms]
  by (auto simp: Client_Close_def fold_set_all split: option.split)

lemma inv_second:
  assumes inv: "map_inv c objs" and st: "endpoint_second fqdn (c, objs) = (res, c', objs')"
  shows "map_inv c' objs' \<and> got_inv res objs' \<and> (\<exists>ext. objs' = objs @ ext)"
proof (cases "cl_endpoints c")
  case None
  with inv st show ?thesis by (auto simp: endpoint_second_def got_inv_def)
next
  case (Some m)
  have ok: "ok_map m" and look: "\<And>k e. map_of m k = Some e \<longleftrightarrow> e < length objs \<and> eo_fqdn (objs ! e) = k"
    using inv Some by (auto simp: map_inv_def)
  show ?thesis
  proof (cases "map_of m fqdn")
    case None
    have "fqdn \<notin> eo_fqdn ` set objs"
    proof
      assume "fqdn \<in> eo_fqdn ` set objs"
      then obtain i where "i < length objs" "eo_fqdn (objs ! i) = fqdn" by (auto simp: in_set_conv_nth)
      then have "map_of m fqdn = Some i" using look by blast
      with None show False by simp
    qed
    moreover have "map_of (AList.update fqdn (length objs) m) k = Some e \<longleftrightarrow>
        e < Suc (length objs) \<and> eo_fqdn ((objs @ [\<lparr>eo_fqdn = fqdn, eo_config = cl_config c, eo_closed = False\<rparr>]) ! e) = k" for k e
      using None look [of k e] look [of fqdn e]
      by (auto simp: amap.look_put nth_append less_Suc_eq)
    ultimately show ?thesis
      using inv st Some None ok by (auto simp: endpoint_second_def Let_def map_inv_def got_inv_def amap.ok_put)
  next
    case (Some e)
    with \<open>cl_endpoints c = Some m\<close> inv st look show ?thesis by (auto simp: endpoint_second_def got_inv_def)
  qed
qed

lemma got_idle [simp]: "got_inv CcIdle objs" "got_inv (CcMiss k) objs"
  by (simp_all add: got_inv_def)

lemma got_append: "got_inv p objs \<Longrightarrow> got_inv p (objs @ ext)"
  by (auto simp: got_inv_def nth_append split: ccaller.splits sum.splits)

lemma got_map: "(\<And>x. eo_fqdn (f x) = eo_fqdn x) \<Longrightarrow> got_inv p (map f objs) = got_inv p objs"
  by (auto simp: got_inv_def split: ccaller.splits sum.splits)

lemma map_inv_change:
  assumes "map_inv c objs" "\<And>x. eo_fqdn (f x) = eo_fqdn x"
    "cl_endpoints c' = None \<and> (\<forall>x. eo_closed (f x)) \<or>
     cl_endpoints c' = cl_endpoints c \<and> cl_endpoints c \<noteq> None \<and> (\<forall>x. eo_closed (f x) = eo_closed x \<and> eo_config (f x) = cl_config c')"
  shows "map_inv c' (map f objs)"
  using assms by (auto simp: map_inv_def comp_def split: option.splits)

lemma client_inv_step:
  assumes inv: "client_inv s" and st: "client_step e s = Some t"
  shows "client_inv t"
proof (cases e)
  case (ClUpdateConfig config)
  from inv have m: "map_inv (kl_client s) (kl_objs s)" by (simp add: client_inv_def)
  show ?thesis
  proof (cases "cl_endpoints (kl_client s)")
    case None
    with inv st ClUpdateConfig UpdateConfig_map [OF m, of config] show ?thesis by (auto simp: client_inv_def map_inv_def)
  next
    case (Some x)
    with inv st ClUpdateConfig UpdateConfig_map [OF m, of config] show ?thesis
      by (auto simp: client_inv_def got_map intro!: map_inv_change [OF m])
  qed
next
  case ClClose
  from inv have m: "map_inv (kl_client s) (kl_objs s)" by (simp add: client_inv_def)
  show ?thesis
  proof (cases "cl_endpoints (kl_client s)")
    case None
    with inv st ClClose Close_map [OF m] show ?thesis by (auto simp: client_inv_def map_inv_def)
  next
    case (Some x)
    with inv st ClClose Close_map [OF m] show ?thesis
      by (auto simp: client_inv_def got_map intro!: map_inv_change [OF m])
  qed
next
  case (ClEndpoint i fqdn)
  with inv have "got_inv (endpoint_first fqdn (kl_client s)) (kl_objs s)"
    by (auto simp: client_inv_def map_inv_def got_inv_def endpoint_first_def Let_def split: option.splits)
  with inv st ClEndpoint show ?thesis by (auto simp: client_inv_def split: if_splits)
next
  case (ClEndpointSecond i)
  with st obtain fqdn res c objs where p: "kl_callers s i = CcMiss fqdn"
    "endpoint_second fqdn (kl_client s, kl_objs s) = (res, c, objs)"
    "t = s\<lparr>kl_client := c, kl_objs := objs, kl_callers := (kl_callers s)(i := res)\<rparr>"
    by (auto split: ccaller.splits prod.splits)
  with inv inv_second [OF _ p(2)] show ?thesis by (auto simp: client_inv_def got_append)
next
  case (ClForget i)
  with inv st show ?thesis by (auto simp: client_inv_def split: ccaller.splits)
qed

lemma client_inv_init: "client_init s \<Longrightarrow> client_inv s"
  by (auto simp: client_init_def client_inv_def NewClientWithConfig_def map_inv_def got_inv_def)

interpretation client_machine: inductive_invariant client_step client_init client_inv
  by unfold_locales (fact client_inv_init, fact client_inv_step)

section \<open>Queries\<close>

text \<open>
  The methods of Endpoint that a query goes through, for a caller that has read the state; what
  happens to the state afterwards is the event EvCallFinish of theory Endpoint.
\<close>

record 'c snapshot =
  sn_state :: "'c EndpointState"
  sn_threshold :: duration
  sn_begin :: time
  sn_end :: time

definition Endpoint_Vector ::
  "('c \<Rightarrow> nat) \<Rightarrow> ('c \<Rightarrow> duration) \<Rightarrow> 'c snapshot \<Rightarrow> ('cx, 'r, 'a) vector_method \<Rightarrow> ('cx, 'r, 'a) vector_method" where
  "Endpoint_Vector Len MaxElapsed sn V cx guid r st =
     (let call = Call_Begin (sn_begin sn) ''Endpoint.Vector'' Call_zero
      in if es_Err (sn_state sn) \<noteq> None
         then Ret ((None, deferred_Complete (sn_end sn) call, es_Err (sn_state sn)), r, st)
         else if State_Unresponsive Len MaxElapsed (sn_threshold sn) (sn_state sn)
         then Ret ((None, deferred_Complete (sn_end sn) call, Some ErrUnresponsive), r, st)
         else (case V cx guid r st of
                 Panic m \<Rightarrow> Panic m
               | Ret ((v, subcall, err), r', st') \<Rightarrow>
                   Ret ((v, deferred_Complete (sn_end sn) (Call_Add subcall call), err), r', st')))"

type_synonym bresult = "goint list \<times> Call \<times> gerr option"

definition Endpoint_Backlog ::
  "('c \<Rightarrow> nat) \<Rightarrow> ('c \<Rightarrow> duration) \<Rightarrow> 'c snapshot \<Rightarrow> bresult outcome \<Rightarrow> bresult outcome" where
  "Endpoint_Backlog Len MaxElapsed sn answer =
     (let call = Call_Begin (sn_begin sn) ''Endpoint.Backlog'' Call_zero
      in if es_Err (sn_state sn) \<noteq> None
         then Ret ([], deferred_Complete (sn_end sn) call, es_Err (sn_state sn))
         else if State_Unresponsive Len MaxElapsed (sn_threshold sn) (sn_state sn)
         then Ret ([], deferred_Complete (sn_end sn) call, Some ErrUnresponsive)
         else (case answer of
                 Panic m \<Rightarrow> Panic m
               | Ret (bs, subcall, err) \<Rightarrow> Ret (bs, deferred_Complete (sn_end sn) (Call_Add subcall call), err)))"

text \<open>Report does not look at the responsiveness of the server.\<close>

definition Endpoint_Report ::
  "'c snapshot \<Rightarrow> ('a option \<times> string \<times> Call \<times> gerr option) outcome \<Rightarrow> ('a option \<times> string \<times> Call \<times> gerr option) outcome" where
  "Endpoint_Report sn answer =
     (let call = Call_Begin (sn_begin sn) ''Endpoint.Report'' Call_zero
      in if es_Err (sn_state sn) \<noteq> None
         then Ret (None, [], deferred_Complete (sn_end sn) call, es_Err (sn_state sn))
         else (case answer of
                 Panic m \<Rightarrow> Panic m
               | Ret (data, report, subcall, err) \<Rightarrow>
                   Ret (data, report, deferred_Complete (sn_end sn) (Call_Add subcall call), err)))"

text \<open>
  The methods of Client over the results f and t of endpoint. The deferred v.Close runs on every
  path once the vector is there.
\<close>

definition Client_Vector ::
  "time \<Rightarrow> time \<Rightarrow> nat + gerr \<Rightarrow> (nat \<Rightarrow> 'r \<Rightarrow> 'a vstore \<Rightarrow> (vresult \<times> 'r \<times> 'a vstore) outcome) \<Rightarrow>
   'r \<Rightarrow> 'a vstore \<Rightarrow> (vresult \<times> 'r \<times> 'a vstore) outcome" where
  "Client_Vector t0 t1 e eVector r st =
     (let call = Call_Begin t0 ''Client.Vector'' Call_zero
      in case e of
           Inr err \<Rightarrow> Ret ((None, deferred_Complete t1 call, Some err), r, st)
         | Inl i \<Rightarrow>
             (case eVector i r st of
                Panic m \<Rightarrow> Panic m
              | Ret ((v, vcall, err), r', st') \<Rightarrow> Ret ((v, deferred_Complete t1 (Call_Add vcall call), err), r', st')))"

definition Client_Backlog ::
  "time \<Rightarrow> time \<Rightarrow> nat + gerr \<Rightarrow> nat + gerr \<Rightarrow> (nat \<Rightarrow> 'r \<Rightarrow> 'a vstore \<Rightarrow> (vresult \<times> 'r \<times> 'a vstore) outcome) \<Rightarrow>
   (nat \<Rightarrow> nat \<Rightarrow> 'a vstore \<Rightarrow> bresult outcome) \<Rightarrow> 'r \<Rightarrow> 'a vstore \<Rightarrow> (bresult \<times> 'r \<times> 'a vstore) outcome" where
  "Client_Backlog t0 t1 from to eVector eBacklog r st =
     (let call = Call_Begin t0 ''Client.Backlog'' Call_zero
      in case from of
           Inr err \<Rightarrow> Ret (([], deferred_Complete t1 call, Some err), r, st)
         | Inl f \<Rightarrow>
             (case to of
                Inr err \<Rightarrow> Ret (([], deferred_Complete t1 call, Some err), r, st)
              | Inl t \<Rightarrow>
                  (case eVector t r st of
                     Panic m \<Rightarrow> Panic m
                   | Ret ((v, vcall, Some err), r', st') \<Rightarrow>
                       Ret (([], deferred_Complete t1 (Call_Add vcall call), Some err), r', st')
                   | Ret ((None, vcall, None), r', st') \<Rightarrow> Panic ''nil pointer dereference''
                   | Ret ((Some i, vcall, None), r', st') \<Rightarrow>
                       (case eBacklog f i st' of
                          Panic m \<Rightarrow> Panic m
                        | Ret (bs, bcall, err) \<Rightarrow>
                            Ret ((bs, deferred_Complete t1 (Call_Add bcall (Call_Add vcall call)), err), r',
                                 Vector_Close i st')))))"

definition Client_Report ::
  "time \<Rightarrow> time \<Rightarrow> nat + gerr \<Rightarrow> (nat \<Rightarrow> ('a option \<times> string \<times> Call \<times> gerr option) outcome) \<Rightarrow>
   ('a option \<times> string \<times> Call \<times> gerr option) outcome" where
  "Client_Report t0 t1 e eReport =
     (let call = Call_Begin t0 ''Client.Report'' Call_zero
      in case e of
           Inr err \<Rightarrow> Ret (None, [], deferred_Complete t1 call, Some err)
         | Inl i \<Rightarrow>
             (case eReport i of
                Panic m \<Rightarrow> Panic m
              | Ret (data, report, rcall, err) \<Rightarrow> Ret (data, report, deferred_Complete t1 (Call_Add rcall call), err)))"

text \<open>A backlog query from a member to one whose connection is the default one.\<close>

definition default_Vector ::
  "(64 word \<Rightarrow> gerr) \<Rightarrow> gerr \<Rightarrow> ('a \<Rightarrow> gerr + 'a) \<Rightarrow>
   ('a rctx lctx cctx, ('h reporter \<times> nat) limiter cacher, 'a) vector_method" where
  "default_Vector ole nr cp = cacher_Vector (limiter_Vector (reporter_Vector ole) nr) cp"

definition default_Backlog ::
  "(64 word \<Rightarrow> gerr) \<Rightarrow> variant list rctx \<Rightarrow> ('h reporter \<times> nat) limiter cacher \<Rightarrow> nat \<Rightarrow> 'a vstore \<Rightarrow> bresult outcome" where
  "default_Backlog ole cx c v st =
     cacher_Backlog (limiter_Backlog (\<lambda>rn. reporter_Backlog ole cx v (fst rn) st)) c"

text \<open>
  A report that is asked for through the client, the endpoint and the layers of its default connection is never
  delivered: the call fails or panics.
\<close>

definition default_Report ::
  "gerr \<Rightarrow> bool \<Rightarrow> gerr option \<Rightarrow> time \<Rightarrow> time \<Rightarrow> nat option \<Rightarrow> bool \<Rightarrow> bool \<Rightarrow> 'a vstore \<Rightarrow>
   ('h reporter \<times> nat) limiter cacher \<Rightarrow> ('a option \<times> string \<times> Call \<times> gerr option) outcome" where
  "default_Report E alloc_ok early t0 t1 v backlog files st c =
     cacher_Report (limiter_Report (\<lambda>rn. reporter_Report E alloc_ok early t0 t1 v backlog files (fst rn) st)) c"

lemma client_report_never_succeeds:
  "case Client_Report t0 t1 e (\<lambda>i. Endpoint_Report (sn i) (default_Report E ok early u0 u1 v backlog files st (conn i))) of
     Panic m \<Rightarrow> True | Ret (data, report, call, err) \<Rightarrow> data = None \<and> err \<noteq> None"
  using conjunct1 [OF report_never_succeeds [of E ok early u0 u1 v backlog files "fst (li_r (ca_r (conn (projl e))))" st]]
  by (cases e) (auto simp: Client_Report_def Endpoint_Report_def default_Report_def cacher_Report_def limiter_Report_def Let_def
      split: outcome.splits)

lemma makeBacklog_ok: "VOther \<notin> set vs \<Longrightarrow> \<exists>bs. makeBacklog vs = Ret bs"
  using makeBacklog_keeps [of vs] by (auto split: outcome.splits)

lemma default_Backlog_returns:
  assumes "alive_in st v" "VOther \<notin> set (cx_result cx)"
  shows "\<exists>x. default_Backlog ole cx c v st = Ret x"
  using assms(1) makeBacklog_ok [OF assms(2)]
  by (auto simp: default_Backlog_def cacher_Backlog_def limiter_Backlog_def reporter_Backlog_def Let_def
      GetReferenceBacklogCounts_def alive_in_def split: option.split)

section \<open>Properties\<close>


definition clsys0 :: clsys where
  "clsys0 = \<lparr>kl_client = NewClient, kl_objs = [], kl_callers = (\<lambda>_. CcIdle)\<rparr>"

lemma clsys0_reach: "run client_step clsys0 es = Some s \<Longrightarrow> reach client_step client_init s"
  by (rule run_reach) (auto simp: clsys0_def client_init_def NewClient_def)

lemmas client_run_simps = clsys0_def NewClient_def NewClientWithConfig_def endpoint_first_def endpoint_second_def
  Client_Close_def Client_UpdateConfig_def set_eobj_def Let_def


text \<open>
  Callers that ask for names that differ only in case get the same endpoint, also when they
  ask at the same time.
\<close>

theorem same_name_same_endpoint:
  assumes "reach client_step client_init s" "kl_callers s i = CcGot k (Inl e)" "kl_callers s j = CcGot k (Inl e')"
  shows "e = e'"
proof -
  from client_machine.reach_inv [OF assms(1)] have "client_inv s" .
  then have d: "distinct (map eo_fqdn (kl_objs s))" and g: "got_inv (kl_callers s i) (kl_objs s)" "got_inv (kl_callers s j) (kl_objs s)"
    by (auto simp: client_inv_def map_inv_def)
  with assms(2,3) show ?thesis by (simp add: got_inv_def distinct_conv_nth) (metis)
qed

theorem same_name_same_endpoint_witness:
  "\<exists>s e. run client_step clsys0 [ClEndpoint 0 ''Ab'', ClEndpoint 1 ''aB'', ClEndpointSecond 1, ClEndpointSecond 0] = Some s \<and>
     kl_callers s 0 = CcGot ''ab'' (Inl e) \<and> kl_callers s 1 = CcGot ''ab'' (Inl e)"
proof -
  have l: "ToLower ''Ab'' = ''ab''" "ToLower ''aB'' = ''ab''" by code_simp+
  obtain s e e' where r: "run client_step clsys0 [ClEndpoint 0 ''Ab'', ClEndpoint 1 ''aB'', ClEndpointSecond 1, ClEndpointSecond 0] = Some s"
    and g: "kl_callers s 0 = CcGot ''ab'' (Inl e)" "kl_callers s 1 = CcGot ''ab'' (Inl e')"
    by (simp add: client_run_simps l)
  from same_name_same_endpoint [OF clsys0_reach [OF r] g] r g show ?thesis by blast
qed

definition backlog_cacher where
  "backlog_cacher = NewCacher \<lparr>li_r = open_reporter, li_vwp = \<lparr>wp_workers = 1, wp_running = True\<rparr>\<rparr> 30"

definition backlog_node where
  "backlog_node = \<lparr>sn_state = \<lparr>es_Err = None, es_Changed = 0, es_Updated = 0, es_IdleSince = 0, es_Calls = 0\<rparr>,
     sn_threshold = 30, sn_begin = 1, sn_end = 2\<rparr>"

definition backlog_vector_ctx where
  "backlog_vector_ctx = \<lparr>cc_t0 = 1, cc_now = 2, cc_later = 3, cc_t1 = 4, cc_ctx = \<lparr>lc_begin = 1, lc_end = 2, lc_send_err = None,
     lc_ctx = \<lparr>cx_early = None, cx_late = None, cx_begin = 1, cx_end = 2, cx_hr = 0, cx_result = ''vv''\<rparr>\<rparr>\<rparr>"

definition backlog_ctx where
  "backlog_ctx = \<lparr>cx_early = None, cx_late = None, cx_begin = 1, cx_end = 2, cx_hr = 0, cx_result = [VInt32 4]\<rparr>"

lemma backlog_cacher_hyps:
  "wf_vcache (ca_vc backlog_cacher)" "cached_vectors (ca_vc backlog_cacher) \<subseteq> {i. alive_in [] i}"
  "VOther \<notin> set (cx_result backlog_ctx)" "cx_late (lc_ctx (cc_ctx backlog_vector_ctx)) = None"
  by (simp_all add: backlog_cacher_def backlog_ctx_def backlog_vector_ctx_def NewCacher_def wf_vcache_New)
     (simp add: NewCache_def cached_vectors_def)



end
