(* ===== verification/Update.thy ===== *)
theory Update imports DfsrTypes "HOL-Library.Multiset" begin

text \<open>
  The type Update of package monitor (monitor/update.go): the backlog values of one round of
  polling and the channels they are delivered on.

  The slice of listeners is kept as Go keeps it, as an array and a length, because the goroutines
  that send works on hold the address of an array cell: append copies the cells into a new array
  when the old one is full, and from then on the goroutines and the slice see different copies.
  Sections under the update's mutex, and under a listener's mutex, are one event each.
\<close>

section \<open>State\<close>

record updateListener =
  ul_ch :: "nat option"
  ul_remaining :: int

text \<open>A buffered channel: its capacity, everything sent so far, and how much has been received.\<close>

record 'b uchan =
  ch_cap :: nat
  ch_sent :: "'b list"
  ch_taken :: nat
  ch_closed :: bool

record 'b Update =
  up_size :: nat
  up_start :: time
  up_end :: time
  up_started :: int
  up_ended :: int
  up_canceled :: bool
  up_values :: "'b list"
  up_received :: int
  up_remaining :: int
  up_listeners :: "(nat \<times> nat) option"

datatype 'b goroutine = GoSend nat nat 'b | GoCancel nat nat

record 'b usys =
  us_update :: "'b Update"
  us_arrays :: "updateListener list list"
  us_chans :: "'b uchan list"
  us_pending :: "'b goroutine list"
  us_panic :: bool

definition updateListener_zero :: updateListener where
  "updateListener_zero = \<lparr>ul_ch = None, ul_remaining = 0\<rparr>"

text \<open>make([]updateListener, 0, 2) is array 0 with no element in use.\<close>

definition newUpdate :: "nat \<Rightarrow> 'b Update" where
  "newUpdate size0 = \<lparr>up_size = size0, up_start = time_zero, up_end = time_zero, up_started = 1, up_ended = 1,
     up_canceled = False, up_values = [], up_received = int size0, up_remaining = int size0,
     up_listeners = Some (0, 0)\<rparr>"

definition usys_new :: "nat \<Rightarrow> 'b usys" where
  "usys_new n = \<lparr>us_update = newUpdate n, us_arrays = [[updateListener_zero, updateListener_zero]],
     us_chans = [], us_pending = [], us_panic = False\<rparr>"

section \<open>Operations\<close>

text \<open>append on the slice of listeners; a full array is replaced by one of twice the size.\<close>

definition append_listener :: "updateListener \<Rightarrow> 'b usys \<Rightarrow> 'b usys" where
  "append_listener e s =
     (case up_listeners (us_update s) of
        None \<Rightarrow> s\<lparr>us_update := (us_update s)\<lparr>up_listeners := Some (length (us_arrays s), 1)\<rparr>,
                  us_arrays := us_arrays s @ [[e]]\<rparr>
      | Some (a, l) \<Rightarrow>
          (let arr = us_arrays s ! a
           in if l < length arr
              then s\<lparr>us_update := (us_update s)\<lparr>up_listeners := Some (a, Suc l)\<rparr>,
                     us_arrays := (us_arrays s)[a := arr[l := e]]\<rparr>
              else s\<lparr>us_update := (us_update s)\<lparr>up_listeners := Some (length (us_arrays s), Suc l)\<rparr>,
                     us_arrays := us_arrays s @ [arr @ [e] @ replicate (l - 1) updateListener_zero]\<rparr>))"

definition Update_Listen :: "'b usys \<Rightarrow> nat \<times> 'b usys" where
  "Update_Listen s =
     (let u = us_update s; ch = length (us_chans s);
          new = (\<lambda>xs c. \<lparr>ch_cap = up_size u, ch_sent = xs, ch_taken = 0, ch_closed = c\<rparr>)
      in if up_size u = 0 then (ch, s\<lparr>us_chans := us_chans s @ [new [] True]\<rparr>)
         else if up_canceled u then (ch, s\<lparr>us_chans := us_chans s @ [new (up_values u) True]\<rparr>)
         else (ch, append_listener \<lparr>ul_ch = Some ch, ul_remaining = up_remaining u\<rparr>
                     (s\<lparr>us_chans := us_chans s @ [new (up_values u) False]\<rparr>)))"

definition Update_Size :: "'b Update \<Rightarrow> nat" where
  "Update_Size u = up_size u"

text \<open>Values, Start, End and Duration block (None) until their wait group is done.\<close>

definition Update_Values :: "'b usys \<Rightarrow> 'b list option" where
  "Update_Values s = (if up_received (us_update s) = 0 then Some (up_values (us_update s)) else None)"

definition Update_Start :: "'b Update \<Rightarrow> time option" where
  "Update_Start u = (if up_started u = 0 then Some (up_start u) else None)"

definition Update_End :: "'b Update \<Rightarrow> time option" where
  "Update_End u = (if up_ended u = 0 then Some (up_end u) else None)"

definition Update_Duration :: "'b Update \<Rightarrow> duration option" where
  "Update_Duration u = (if up_ended u = 0 then Some (TimeSub (up_end u) (up_start u)) else None)"

definition setStart :: "time \<Rightarrow> 'b Update \<Rightarrow> 'b Update" where
  "setStart t u = u\<lparr>up_start := t, up_started := up_started u - 1\<rparr>"

definition setEnd :: "time \<Rightarrow> 'b Update \<Rightarrow> 'b Update" where
  "setEnd t u = u\<lparr>up_end := t, up_ended := up_ended u - 1\<rparr>"

definition cells :: "'b Update \<Rightarrow> (nat \<times> nat) list" where
  "cells u = (case up_listeners u of None \<Rightarrow> [] | Some (a, l) \<Rightarrow> map (Pair a) [0..<l])"

definition Update_send :: "'b \<Rightarrow> 'b usys \<Rightarrow> 'b usys" where
  "Update_send b s =
     (let u = us_update s
      in if up_canceled u then s
         else if up_remaining u = 0 then s\<lparr>us_panic := True\<rparr>
         else
           (let u1 = u\<lparr>up_values := up_values u @ [b], up_received := up_received u - 1,
                       up_remaining := up_remaining u - 1\<rparr>;
                u2 = (if up_remaining u1 = 0 then u1\<lparr>up_listeners := None\<rparr> else u1)
            in s\<lparr>us_update := u2, us_pending := us_pending s @ map (\<lambda>(a, i). GoSend a i b) (cells u)\<rparr>))"

definition Update_cancel :: "'b usys \<Rightarrow> 'b usys" where
  "Update_cancel s =
     (let u = us_update s
      in if up_canceled u \<or> up_remaining u = 0 then s
         else s\<lparr>us_update := u\<lparr>up_canceled := True, up_listeners := None,
                                up_received := up_received u - up_remaining u\<rparr>,
                us_pending := us_pending s @ map (\<lambda>(a, i). GoCancel a i) (cells u)\<rparr>)"

definition cell :: "'b usys \<Rightarrow> nat \<Rightarrow> nat \<Rightarrow> updateListener" where
  "cell s a i = us_arrays s ! a ! i"

definition set_cell :: "nat \<Rightarrow> nat \<Rightarrow> updateListener \<Rightarrow> 'b usys \<Rightarrow> 'b usys" where
  "set_cell a i e s = s\<lparr>us_arrays := (us_arrays s)[a := (us_arrays s ! a)[i := e]]\<rparr>"

definition set_chan :: "nat \<Rightarrow> 'b uchan \<Rightarrow> 'b usys \<Rightarrow> 'b usys" where
  "set_chan c ch s = s\<lparr>us_chans := (us_chans s)[c := ch]\<rparr>"

definition chan_full :: "'b uchan \<Rightarrow> bool" where
  "chan_full ch \<longleftrightarrow> ch_cap ch \<le> length (ch_sent ch) - ch_taken ch"

text \<open>updateListener.send: blocked (None) on a full channel, a panic on a closed one.\<close>

definition listener_send :: "nat \<Rightarrow> nat \<Rightarrow> 'b \<Rightarrow> 'b usys \<Rightarrow> 'b usys option" where
  "listener_send a i b s =
     (let ul = cell s a i
      in case ul_ch ul of
           None \<Rightarrow> Some s
         | Some c \<Rightarrow>
             (let ch = us_chans s ! c
              in if ch_closed ch then Some (s\<lparr>us_panic := True\<rparr>)
                 else if chan_full ch then None
                 else
                   (let r = ul_remaining ul - 1
                    in if r = 0
                       then Some (set_cell a i \<lparr>ul_ch = None, ul_remaining = r\<rparr>
                              (set_chan c (ch\<lparr>ch_sent := ch_sent ch @ [b], ch_closed := True\<rparr>) s))
                       else Some (set_cell a i \<lparr>ul_ch = Some c, ul_remaining = r\<rparr>
                              (set_chan c (ch\<lparr>ch_sent := ch_sent ch @ [b]\<rparr>) s)))))"

definition listener_cancel :: "nat \<Rightarrow> nat \<Rightarrow> 'b usys \<Rightarrow> 'b usys" where
  "listener_cancel a i s =
     (let ul = cell s a i
      in case ul_ch ul of
           None \<Rightarrow> s
         | Some c \<Rightarrow>
             set_cell a i (ul\<lparr>ul_ch := None\<rparr>)
               (set_chan c ((us_chans s ! c)\<lparr>ch_closed := True\<rparr>)
                 (s\<lparr>us_panic := (us_panic s \<or> ch_closed (us_chans s ! c))\<rparr>)))"

section \<open>The machine\<close>

datatype 'b update_event =
    UpListen
  | UpSend 'b
  | UpCancel
  | UpGo nat
  | UpReceive nat
  | UpSetStart time
  | UpSetEnd time

definition drop_at :: "nat \<Rightarrow> 'a list \<Rightarrow> 'a list" where
  "drop_at k xs = take k xs @ drop (Suc k) xs"

fun run_goroutine :: "'b goroutine \<Rightarrow> 'b usys \<Rightarrow> 'b usys option" where
  "run_goroutine (GoSend a i b) s = listener_send a i b s"
| "run_goroutine (GoCancel a i) s = Some (listener_cancel a i s)"

fun live_step :: "'b update_event \<Rightarrow> 'b usys \<Rightarrow> 'b usys option" where
  "live_step UpListen s = Some (snd (Update_Listen s))"
| "live_step (UpSend b) s = Some (Update_send b s)"
| "live_step UpCancel s = Some (Update_cancel s)"
| "live_step (UpGo k) s =
     (if k < length (us_pending s)
      then run_goroutine (us_pending s ! k) (s\<lparr>us_pending := drop_at k (us_pending s)\<rparr>) else None)"
| "live_step (UpReceive c) s =
     (if c < length (us_chans s) \<and> ch_taken (us_chans s ! c) < length (ch_sent (us_chans s ! c))
      then Some (set_chan c ((us_chans s ! c)\<lparr>ch_taken := Suc (ch_taken (us_chans s ! c))\<rparr>) s) else None)"
| "live_step (UpSetStart t) s = Some (s\<lparr>us_update := setStart t (us_update s)\<rparr>)"
| "live_step (UpSetEnd t) s = Some (s\<lparr>us_update := setEnd t (us_update s)\<rparr>)"

definition update_step :: "'b update_event \<Rightarrow> 'b usys \<Rightarrow> 'b usys option" where
  "update_step e s = (if us_panic s then None else live_step e s)"

definition update_init :: "nat \<Rightarrow> 'b usys \<Rightarrow> bool" where
  "update_init n s \<longleftrightarrow> s = usys_new n"

lemma mset_drop_at: "k < length xs \<Longrightarrow> mset xs = add_mset (xs ! k) (mset (drop_at k xs))"
  using id_take_nth_drop [of k xs] by (metis drop_at_def mset.simps(2) mset_append union_mset_add_mset_right)

lemma in_drop_at: "x \<in> set (drop_at k xs) \<Longrightarrow> x \<in> set xs"
  by (auto simp: drop_at_def dest: in_set_takeD in_set_dropD)

section \<open>The invariant of an update that is not canceled\<close>

fun works_on :: "nat \<Rightarrow> 'b goroutine \<Rightarrow> 'b list" where
  "works_on c (GoSend a i b) = (if i = c then [b] else [])"
| "works_on c (GoCancel a i) = []"

definition in_flight :: "'b goroutine list \<Rightarrow> nat \<Rightarrow> 'b multiset" where
  "in_flight gs c = mset (concat (map (works_on c) gs))"

definition count_inv :: "'b Update \<Rightarrow> bool" where
  "count_inv u \<longleftrightarrow> 0 \<le> up_remaining u \<and> up_remaining u + int (length (up_values u)) = int (up_size u) \<and>
     up_received u = up_remaining u"

definition chan_inv :: "'b Update \<Rightarrow> 'b goroutine list \<Rightarrow> 'b uchan list \<Rightarrow> bool" where
  "chan_inv u gs chans \<longleftrightarrow> (\<forall>c < length chans.
     mset (ch_sent (chans ! c)) + in_flight gs c = mset (up_values u) \<and> ch_cap (chans ! c) = up_size u \<and>
     (ch_closed (chans ! c) \<longrightarrow> length (ch_sent (chans ! c)) = up_size u))"

definition slice_inv :: "'b Update \<Rightarrow> updateListener list list \<Rightarrow> nat \<Rightarrow> 'b goroutine list \<Rightarrow> bool" where
  "slice_inv u arrays n gs \<longleftrightarrow>
     (case up_listeners u of
        None \<Rightarrow> up_remaining u = 0
      | Some (a, l) \<Rightarrow> a < length arrays \<and> l \<le> length (arrays ! a) \<and>
          (if up_remaining u = 0 then \<forall>b i v. GoSend b i v \<in> set gs \<longrightarrow> b \<noteq> a
           else l = n \<and> (\<forall>i < l. ul_ch (arrays ! a ! i) = Some i)))"

definition pending_inv :: "updateListener list list \<Rightarrow> nat \<Rightarrow> 'b goroutine list \<Rightarrow> bool" where
  "pending_inv arrays n gs \<longleftrightarrow> (\<forall>g \<in> set gs. \<exists>a i b. g = GoSend a i b \<and> a < length arrays \<and>
     i < length (arrays ! a) \<and> i < n \<and> ul_ch (arrays ! a ! i) = Some i)"

definition cells_inv :: "nat \<Rightarrow> updateListener list list \<Rightarrow> 'b uchan list \<Rightarrow> bool" where
  "cells_inv size0 arrays chans \<longleftrightarrow> (\<forall>e c. (\<exists>arr \<in> set arrays. e \<in> set arr) \<and> ul_ch e = Some c \<longrightarrow>
     c < length chans \<and> int size0 - int (length (ch_sent (chans ! c))) \<le> ul_remaining e)"

definition update_inv :: "nat \<Rightarrow> 'b usys \<Rightarrow> bool" where
  "update_inv n s \<longleftrightarrow> up_size (us_update s) = n \<and> (up_canceled (us_update s) \<or>
     count_inv (us_update s) \<and> chan_inv (us_update s) (us_pending s) (us_chans s) \<and>
     slice_inv (us_update s) (us_arrays s) (length (us_chans s)) (us_pending s) \<and>
     pending_inv (us_arrays s) (length (us_chans s)) (us_pending s) \<and>
     cells_inv n (us_arrays s) (us_chans s))"

lemma in_flight_simps [simp]:
  "in_flight [] c = {#}"
  "in_flight (g # gs) c = mset (works_on c g) + in_flight gs c"
  "in_flight (gs @ hs) c = in_flight gs c + in_flight hs c"
  by (simp_all add: in_flight_def)

lemma in_flight_drop_at:
  "k < length gs \<Longrightarrow> in_flight gs c = mset (works_on c (gs ! k)) + in_flight (drop_at k gs) c"
  unfolding drop_at_def in_flight_simps
  by (subst id_take_nth_drop [of k gs]) (simp_all del: append_take_drop_id)

lemma in_flight_sends:
  "in_flight (map (\<lambda>(a, i). GoSend a i b) (map (Pair a) [0..<l])) c = (if c < l then {#b#} else {#})"
  by (induction l) (auto simp: less_Suc_eq)

lemma in_flight_none: "pending_inv arrays n gs \<Longrightarrow> n \<le> c \<Longrightarrow> in_flight gs c = {#}"
  by (induction gs) (auto simp: pending_inv_def)

lemma update_inv_frame:
  "up_size u' = up_size u \<Longrightarrow> up_canceled u' = up_canceled u \<Longrightarrow> up_values u' = up_values u \<Longrightarrow>
   up_received u' = up_received u \<Longrightarrow> up_remaining u' = up_remaining u \<Longrightarrow> up_listeners u' = up_listeners u \<Longrightarrow>
   us_update s = u \<Longrightarrow> update_inv n (s\<lparr>us_update := u'\<rparr>) = update_inv n s"
  by (simp add: update_inv_def count_inv_def chan_inv_def slice_inv_def cong: option.case_cong)

lemma inv_send:
  assumes "update_inv n s"
  shows "update_inv n (Update_send b s)"
proof (cases "up_canceled (us_update s) \<or> up_remaining (us_update s) = 0")
  case True
  with assms show ?thesis by (auto simp: Update_send_def update_inv_def Let_def)
next
  case False
  let ?u = "us_update s"
  let ?gs = "map (\<lambda>(a, i). GoSend a i b) (cells ?u)"
  from False assms have inv: "count_inv ?u" "chan_inv ?u (us_pending s) (us_chans s)"
    "slice_inv ?u (us_arrays s) (length (us_chans s)) (us_pending s)"
    "pending_inv (us_arrays s) (length (us_chans s)) (us_pending s)" "cells_inv n (us_arrays s) (us_chans s)"
    and n: "up_size ?u = n" by (auto simp: update_inv_def)
  from inv(3) False obtain a where al: "up_listeners ?u = Some (a, length (us_chans s))" "a < length (us_arrays s)"
    "length (us_chans s) \<le> length (us_arrays s ! a)"
    "\<forall>i < length (us_chans s). ul_ch (us_arrays s ! a ! i) = Some i"
    by (auto simp: slice_inv_def split: option.splits)
  have cells: "cells ?u = map (Pair a) [0..<length (us_chans s)]" by (simp add: cells_def al(1))
  have "pending_inv (us_arrays s) (length (us_chans s)) (us_pending s @ ?gs)"
    using inv(4) al by (auto simp: pending_inv_def cells)
  moreover have "chan_inv (?u\<lparr>up_values := up_values ?u @ [b]\<rparr>) (us_pending s @ ?gs) (us_chans s)"
    using inv(2) in_flight_sends [of b a "length (us_chans s)"] by (simp add: chan_inv_def cells)
  ultimately show ?thesis
    using inv(1,5) False n al
    by (auto simp: update_inv_def Update_send_def Let_def count_inv_def chan_inv_def slice_inv_def)
qed

lemma inv_append:
  assumes "pending_inv arrays n gs" "arrays' = arrays @ [arr]"
  shows "pending_inv arrays' n gs"
  using assms by (fastforce simp: pending_inv_def nth_append)

lemma cells_append:
  "cells_inv size0 arrays chans \<Longrightarrow> (\<forall>e \<in> set arr. \<forall>c. ul_ch e = Some c \<longrightarrow> c < length chans \<and>
      int size0 - int (length (ch_sent (chans ! c))) \<le> ul_remaining e) \<Longrightarrow>
   cells_inv size0 (arrays @ [arr]) chans"
  by (auto simp: cells_inv_def)

lemma cells_set:
  assumes "cells_inv size0 arrays chans" "a < length arrays"
    "\<And>c. ul_ch e = Some c \<Longrightarrow> c < length chans \<and> int size0 - int (length (ch_sent (chans ! c))) \<le> ul_remaining e"
  shows "cells_inv size0 (arrays[a := (arrays ! a)[i := e]]) chans"
proof -
  have "x = e \<or> (\<exists>arr \<in> set arrays. x \<in> set arr)" if "arr \<in> set (arrays[a := (arrays ! a)[i := e]])" "x \<in> set arr" for arr x
  proof -
    have "arr = (arrays ! a)[i := e] \<or> arr \<in> set arrays"
      using that(1) set_update_subset_insert [of arrays a "(arrays ! a)[i := e]"] by blast
    moreover have "x = e \<or> x \<in> set (arrays ! a)" if "x \<in> set ((arrays ! a)[i := e])"
      using that set_update_subset_insert [of "arrays ! a" i e] by blast
    ultimately show ?thesis using that(2) nth_mem [OF assms(2)] by blast
  qed
  with assms(1,3) show ?thesis unfolding cells_inv_def by metis
qed

lemma pending_set:
  assumes "pending_inv arrays n gs" "a < length arrays"
    "\<And>v. GoSend a l v \<in> set gs \<Longrightarrow> ul_ch e = ul_ch (arrays ! a ! l)"
  shows "pending_inv (arrays[a := (arrays ! a)[l := e]]) n gs"
  unfolding pending_inv_def
proof
  fix g assume g: "g \<in> set gs"
  then obtain b i v where "g = GoSend b i v" "b < length arrays" "i < length (arrays ! b)" "i < n"
    "ul_ch (arrays ! b ! i) = Some i" using assms(1) by (auto simp: pending_inv_def)
  with g assms(3) show "\<exists>b i v. g = GoSend b i v \<and> b < length (arrays[a := (arrays ! a)[l := e]]) \<and>
      i < length (arrays[a := (arrays ! a)[l := e]] ! b) \<and> i < n \<and>
      ul_ch (arrays[a := (arrays ! a)[l := e]] ! b ! i) = Some i"
    by (cases "b = a"; cases "i = l") (auto simp: nth_list_update)
qed

lemma slice_set:
  assumes "slice_inv u A n gs" "up_remaining u \<noteq> 0 \<Longrightarrow> ul_ch e = ul_ch (A ! a ! i)"
  shows "slice_inv u (A[a := (A ! a)[i := e]]) n gs"
proof -
  have l: "length (A[a := (A ! a)[i := e]] ! b) = length (A ! b)" for b
    by (cases "a = b"; cases "a < length A") (simp_all add: list_update_beyond)
  have c: "ul_ch (A[a := (A ! a)[i := e]] ! b ! j) = ul_ch (A ! b ! j)" if "up_remaining u \<noteq> 0" for b j
    using assms(2) [OF that]
    by (cases "a = b"; cases "a < length A"; cases "i = j"; cases "i < length (A ! a)") (simp_all add: list_update_beyond)
  show ?thesis using assms(1) c by (cases "up_listeners u") (auto simp: slice_inv_def l split: if_splits)
qed

lemma slice_weaken: "slice_inv u A n (g # gs) \<Longrightarrow> slice_inv u A n gs"
  by (cases "up_listeners u") (auto simp: slice_inv_def split: if_splits)

lemma cells_new_chan:
  "cells_inv size0 arrays chans \<Longrightarrow> cells_inv size0 arrays (chans @ [ch])"
  by (fastforce simp: cells_inv_def nth_append)

lemma inv_append_listener:
  assumes inv: "count_inv u" "chan_inv u (us_pending s) (us_chans s)"
      "slice_inv u (us_arrays s) (length (us_chans s)) (us_pending s)"
      "pending_inv (us_arrays s) (length (us_chans s)) (us_pending s)" "cells_inv n (us_arrays s) (us_chans s)"
    and u: "us_update s = u" "up_size u = n" "\<not> up_canceled u"
  shows "update_inv n (append_listener \<lparr>ul_ch = Some (length (us_chans s)), ul_remaining = up_remaining u\<rparr>
     (s\<lparr>us_chans := us_chans s @ [\<lparr>ch_cap = n, ch_sent = up_values u, ch_taken = 0, ch_closed = False\<rparr>]\<rparr>))"
    (is "update_inv n (append_listener ?e (s\<lparr>us_chans := us_chans s @ [?ch]\<rparr>))")
proof -
  let ?chans = "us_chans s @ [?ch]"
  have e: "length (us_chans s) < length ?chans \<and>
      int n - int (length (ch_sent (?chans ! length (us_chans s)))) \<le> up_remaining u"
    using inv(1) u(2) by (simp add: count_inv_def)
  have c: "chan_inv u (us_pending s) ?chans"
    using inv(2) in_flight_none [OF inv(4)] u(2) by (auto simp: chan_inv_def nth_append less_Suc_eq)
  have p: "pending_inv (us_arrays s) (length ?chans) (us_pending s)"
    using inv(4) by (fastforce simp: pending_inv_def)
  have ce: "cells_inv n (us_arrays s) ?chans" using inv(5) by (rule cells_new_chan)
  show ?thesis
  proof (cases "up_listeners u")
    case None
    with inv(3) have r: "up_remaining u = 0" by (simp add: slice_inv_def)
    have "\<forall>b i v. GoSend b i v \<in> set (us_pending s) \<longrightarrow> b \<noteq> length (us_arrays s)"
      using inv(4) by (fastforce simp: pending_inv_def)
    moreover have "cells_inv n (us_arrays s @ [[?e]]) ?chans" using ce e by (intro cells_append) auto
    ultimately show ?thesis
      using None r inv(1) c u inv_append [OF p refl]
      by (simp add: update_inv_def append_listener_def count_inv_def chan_inv_def slice_inv_def)
  next
    case (Some al)
    then obtain a l where al: "up_listeners u = Some (a, l)" by (cases al) auto
    let ?arr = "us_arrays s ! a"
    have a: "a < length (us_arrays s)" "l \<le> length ?arr" using inv(3) al by (auto simp: slice_inv_def)
    show ?thesis
    proof (cases "l < length ?arr")
      case True
      have "pending_inv ((us_arrays s)[a := ?arr[l := ?e]]) (length ?chans) (us_pending s)"
        using p a(1)
      proof (rule pending_set)
        fix v assume g: "GoSend a l v \<in> set (us_pending s)"
        with inv(4) have "l < length (us_chans s)" by (auto simp: pending_inv_def)
        with g inv(3) al show "ul_ch ?e = ul_ch (?arr ! l)" by (auto simp: slice_inv_def split: if_splits)
      qed
      moreover have "cells_inv n ((us_arrays s)[a := ?arr[l := ?e]]) ?chans"
        using ce a(1) e by (intro cells_set) auto
      moreover have "slice_inv (u\<lparr>up_listeners := Some (a, Suc l)\<rparr>) ((us_arrays s)[a := ?arr[l := ?e]])
          (length ?chans) (us_pending s)"
        using inv(3) al a True by (auto simp: slice_inv_def nth_list_update less_Suc_eq split: if_splits)
      ultimately show ?thesis
        using True al inv(1) c u
        by (simp add: update_inv_def append_listener_def count_inv_def chan_inv_def)
    next
      case False
      let ?new = "?arr @ [?e] @ replicate (l - 1) updateListener_zero"
      have "\<forall>b i v. GoSend b i v \<in> set (us_pending s) \<longrightarrow> b \<noteq> length (us_arrays s)"
        using inv(4) by (fastforce simp: pending_inv_def)
      moreover have "cells_inv n (us_arrays s @ [?new]) ?chans"
      proof (intro cells_append ce ballI allI impI)
        fix x c assume x: "x \<in> set ?new" "ul_ch x = Some c"
        then have "x \<in> set ?arr \<or> x = ?e" by (auto simp: updateListener_zero_def)
        with x(2) ce e nth_mem [OF a(1)] show "c < length ?chans \<and>
            int n - int (length (ch_sent (?chans ! c))) \<le> ul_remaining x"
          unfolding cells_inv_def by auto
      qed
      moreover have "slice_inv (u\<lparr>up_listeners := Some (length (us_arrays s), Suc l)\<rparr>) (us_arrays s @ [?new])
          (length ?chans) (us_pending s)"
        using inv(3) al a False calculation(1) by (auto simp: slice_inv_def nth_append less_Suc_eq split: if_splits)
      ultimately show ?thesis
        using False al inv(1) c u inv_append [OF p refl]
        by (simp add: update_inv_def append_listener_def count_inv_def chan_inv_def Let_def)
    qed
  qed
qed

lemma inv_Listen:
  assumes "update_inv n s"
  shows "update_inv n (snd (Update_Listen s))"
proof (cases "up_canceled (us_update s) \<or> up_size (us_update s) = 0")
  case True
  have "up_values (us_update s) = []" "up_remaining (us_update s) = 0"
    if "up_size (us_update s) = 0" "\<not> up_canceled (us_update s)"
  proof -
    have "0 \<le> up_remaining (us_update s)" "up_remaining (us_update s) + int (length (up_values (us_update s))) = 0"
      using that assms by (auto simp: update_inv_def count_inv_def)
    then have "length (up_values (us_update s)) = 0" "up_remaining (us_update s) = 0" by linarith+
    then show "up_values (us_update s) = []" "up_remaining (us_update s) = 0" by simp_all
  qed
  with True assms show ?thesis
    by (auto simp: update_inv_def Update_Listen_def Let_def chan_inv_def nth_append less_Suc_eq slice_inv_def
        pending_inv_def in_flight_none cells_new_chan split: option.splits if_splits)
next
  case False
  with assms inv_append_listener [of "us_update s" s n] show ?thesis
    by (simp add: update_inv_def Update_Listen_def Let_def)
qed

lemma in_flight_empty: "in_flight gs c = {#} \<Longrightarrow> GoSend a c v \<notin> set gs"
  by (induction gs) auto

lemma cells_sent:
  assumes "cells_inv n arrays chans" "c < length chans" "length (ch_sent (chans ! c)) \<le> length (ch_sent ch)"
  shows "cells_inv n arrays (chans[c := ch])"
  using assms by (fastforce simp: cells_inv_def nth_list_update)

text \<open>The goroutine \<open>GoSend a i b\<close> that is about to run, with \<open>gs\<close> the others.\<close>

definition send_ready :: "nat \<Rightarrow> nat \<Rightarrow> nat \<Rightarrow> 'b \<Rightarrow> 'b goroutine list \<Rightarrow> 'b usys \<Rightarrow> bool" where
  "send_ready n a i b gs s \<longleftrightarrow> count_inv (us_update s) \<and> chan_inv (us_update s) (GoSend a i b # gs) (us_chans s) \<and>
      slice_inv (us_update s) (us_arrays s) (length (us_chans s)) (GoSend a i b # gs) \<and>
      pending_inv (us_arrays s) (length (us_chans s)) (GoSend a i b # gs) \<and> cells_inv n (us_arrays s) (us_chans s) \<and>
      up_size (us_update s) = n \<and> us_pending s = gs"

lemma send_ready_facts:
  assumes "send_ready n a i b gs s"
  shows "a < length (us_arrays s)" "i < length (us_arrays s ! a)" "i < length (us_chans s)"
    "ul_ch (cell s a i) = Some i" "\<not> ch_closed (us_chans s ! i)" "\<not> chan_full (us_chans s ! i)"
    "int n - int (length (ch_sent (us_chans s ! i))) \<le> ul_remaining (cell s a i)"
    "length (ch_sent (us_chans s ! i)) + 1 + size (in_flight gs i) = length (up_values (us_update s))"
    "length (up_values (us_update s)) \<le> n"
proof -
  show p: "a < length (us_arrays s)" "i < length (us_arrays s ! a)" "i < length (us_chans s)" "ul_ch (cell s a i) = Some i"
    using assms by (auto simp: send_ready_def pending_inv_def cell_def)
  from assms p(3) have "mset (ch_sent (us_chans s ! i)) + in_flight (GoSend a i b # gs) i = mset (up_values (us_update s))"
    by (auto simp: send_ready_def chan_inv_def)
  then have "size (mset (ch_sent (us_chans s ! i)) + in_flight (GoSend a i b # gs) i) = length (up_values (us_update s))"
    by (metis size_mset)
  then show l: "length (ch_sent (us_chans s ! i)) + 1 + size (in_flight gs i) = length (up_values (us_update s))" by simp
  show v: "length (up_values (us_update s)) \<le> n" using assms by (auto simp: send_ready_def count_inv_def)
  show "\<not> ch_closed (us_chans s ! i)" "\<not> chan_full (us_chans s ! i)"
    using assms p(3) l v by (auto simp: send_ready_def chan_inv_def chan_full_def)
  have "cell s a i \<in> set (us_arrays s ! a)" "us_arrays s ! a \<in> set (us_arrays s)" using p by (auto simp: cell_def)
  with assms p show "int n - int (length (ch_sent (us_chans s ! i))) \<le> ul_remaining (cell s a i)"
    unfolding send_ready_def cells_inv_def by blast
qed

lemma send_enabled: "send_ready n a i b gs s \<Longrightarrow> \<exists>t. listener_send a i b s = Some t \<and> us_panic t = us_panic s"
  using send_ready_facts [of n a i b gs s] by (simp add: listener_send_def Let_def set_cell_def set_chan_def)

lemma inv_send_run:
  assumes rd: "send_ready n a i b gs s" and t: "listener_send a i b s = Some t"
  shows "update_inv n t"
proof -
  note f = send_ready_facts [OF rd]
  define ul where "ul = cell s a i"
  define fin where "fin = (ul_remaining ul = 1)"
  define e where "e = \<lparr>ul_ch = (if fin then None else Some i), ul_remaining = ul_remaining ul - 1\<rparr>"
  define ch where "ch = (us_chans s ! i)\<lparr>ch_sent := ch_sent (us_chans s ! i) @ [b], ch_closed := (if fin then True else ch_closed (us_chans s ! i))\<rparr>"
  have t: "t = set_cell a i e (set_chan i ch s)"
    using t f(4-6) by (cases "us_chans s ! i") (auto simp: listener_send_def Let_def e_def ch_def fin_def ul_def split: if_splits)
  have full: "length (ch_sent (us_chans s ! i)) + 1 = n \<and> in_flight gs i = {#} \<and> up_remaining (us_update s) = 0" if fin
  proof -
    have "n \<le> length (ch_sent (us_chans s ! i)) + 1" using f(7) that by (simp add: fin_def ul_def)
    with f(8,9) have "length (ch_sent (us_chans s ! i)) + 1 = n" "size (in_flight gs i) = 0"
      "length (up_values (us_update s)) = n" by linarith+
    with rd show ?thesis by (simp add: send_ready_def count_inv_def)
  qed
  have "chan_inv (us_update s) gs ((us_chans s)[i := ch])"
    using rd full f(3,5) by (auto simp: send_ready_def chan_inv_def nth_list_update ch_def)
  moreover have "pending_inv (us_arrays t) (length (us_chans s)) gs"
  proof -
    have "ul_ch e = ul_ch (us_arrays s ! a ! i)" if "GoSend a i v \<in> set gs" for v
      using that full in_flight_empty [of gs i a v] f(4) by (auto simp: e_def cell_def)
    then show ?thesis
      using rd f(1) by (simp add: t set_cell_def set_chan_def, intro pending_set) (auto simp: send_ready_def pending_inv_def)
  qed
  moreover have "slice_inv (us_update s) (us_arrays t) (length (us_chans s)) gs"
  proof -
    have "slice_inv (us_update s) (us_arrays s) (length (us_chans s)) gs"
      using rd slice_weaken unfolding send_ready_def by blast
    moreover have "ul_ch e = ul_ch (us_arrays s ! a ! i)" if "up_remaining (us_update s) \<noteq> 0"
      using that full f(4) by (auto simp: e_def cell_def)
    ultimately show ?thesis unfolding t by (simp add: set_cell_def set_chan_def slice_set)
  qed
  moreover have "cells_inv n (us_arrays t) ((us_chans s)[i := ch])"
    using rd f(1,3,7)
    by (simp add: t set_cell_def set_chan_def, intro cells_set cells_sent) (auto simp: send_ready_def ch_def e_def ul_def split: if_splits)
  ultimately show ?thesis
    using rd by (simp add: update_inv_def send_ready_def t set_cell_def set_chan_def)
qed

lemma ready_of_inv:
  assumes "update_inv n s" "\<not> up_canceled (us_update s)" "k < length (us_pending s)"
  shows "\<exists>a i b. us_pending s ! k = GoSend a i b \<and>
     send_ready n a i b (drop_at k (us_pending s)) (s\<lparr>us_pending := drop_at k (us_pending s)\<rparr>)"
proof -
  have s: "set (us_pending s) = insert (us_pending s ! k) (set (drop_at k (us_pending s)))"
    using assms(3) mset_drop_at by (metis set_mset_add_mset_insert set_mset_mset)
  from assms obtain a i b where g: "us_pending s ! k = GoSend a i b"
    unfolding update_inv_def pending_inv_def by (metis nth_mem)
  have p: "pending_inv A m (us_pending s) = pending_inv A m (GoSend a i b # drop_at k (us_pending s))" for A m
    by (simp add: pending_inv_def s g)
  have sl: "slice_inv u A m (us_pending s) = slice_inv u A m (GoSend a i b # drop_at k (us_pending s))" for u :: "'a Update" and A m
    by (simp add: slice_inv_def s g cong: option.case_cong)
  have c: "chan_inv u (us_pending s) cs = chan_inv u (GoSend a i b # drop_at k (us_pending s)) cs" for u cs
    using in_flight_drop_at [OF assms(3)] by (simp add: chan_inv_def g)
  from assms(1,2) g show ?thesis unfolding update_inv_def p sl c by (simp add: send_ready_def)
qed

lemma update_inv_step:
  assumes inv: "update_inv n s" and st: "update_step e s = Some t"
  shows "update_inv n t"
proof (cases e)
  case (UpGo k)
  show ?thesis
  proof (cases "up_canceled (us_update s)")
    case True
    have "us_update t = us_update s"
      using st UpGo
      by (cases "us_pending s ! k")
        (auto simp: update_step_def listener_send_def listener_cancel_def Let_def set_cell_def set_chan_def
          split: if_splits option.splits)
    with True inv show ?thesis by (simp add: update_inv_def)
  next
    case False
    from st UpGo have "k < length (us_pending s)" by (auto simp: update_step_def split: if_splits)
    from ready_of_inv [OF inv False this] st UpGo show ?thesis
      by (auto simp: update_step_def split: if_splits intro: inv_send_run)
  qed
next
  case (UpReceive c)
  with inv st show ?thesis
    by (auto simp: update_step_def set_chan_def update_inv_def chan_inv_def nth_list_update
        split: if_splits intro!: cells_sent)
next
  case UpCancel
  with inv st show ?thesis by (auto simp: update_step_def Update_cancel_def update_inv_def Let_def split: if_splits)
next
  case (UpSetStart x)
  with inv st show ?thesis
    by (auto simp: update_step_def setStart_def update_inv_frame split: if_splits)
next
  case (UpSetEnd x)
  with inv st show ?thesis
    by (auto simp: update_step_def setEnd_def update_inv_frame split: if_splits)
qed (use inv st in \<open>auto simp: update_step_def split: if_splits intro: inv_send inv_Listen\<close>)

lemma update_inv_new: "update_init n s \<Longrightarrow> update_inv n s"
  by (auto simp: update_init_def usys_new_def newUpdate_def update_inv_def count_inv_def chan_inv_def slice_inv_def
      pending_inv_def cells_inv_def updateListener_zero_def)

interpretation update_machine: inductive_invariant update_step "update_init n" "update_inv n" for n
  by unfold_locales (fact update_inv_new, fact update_inv_step)

lemma update_delivers_step:
  assumes "reach update_step (update_init n) s" "\<not> up_canceled (us_update s)" "\<not> us_panic s" "k < length (us_pending s)"
  shows "\<exists>t. update_step (UpGo k) s = Some t \<and> \<not> us_panic t"
  using ready_of_inv [OF update_machine.reach_inv [OF assms(1)] assms(2,4)] send_enabled assms(3,4)
  by (fastforce simp: update_step_def)

section \<open>While the slice of listeners has not been reallocated\<close>

definition open_or_tracked :: "nat \<Rightarrow> updateListener list list \<Rightarrow> 'b uchan list \<Rightarrow> nat \<Rightarrow> bool" where
  "open_or_tracked n arrays chans i \<longleftrightarrow> ch_closed (chans ! i) \<or>
     i < length (arrays ! 0) \<and> ul_ch (arrays ! 0 ! i) = Some i \<and> 0 < ul_remaining (arrays ! 0 ! i) \<and>
     ul_remaining (arrays ! 0 ! i) = int n - int (length (ch_sent (chans ! i)))"

definition single_inv :: "nat \<Rightarrow> 'b usys \<Rightarrow> bool" where
  "single_inv n s \<longleftrightarrow> update_inv n s \<and> us_arrays s \<noteq> [] \<and> (up_canceled (us_update s) \<or> 1 < length (us_arrays s) \<or>
     (n \<noteq> 0 \<and> up_remaining (us_update s) = 0 \<longrightarrow> up_listeners (us_update s) = None) \<and>
     (\<forall>i < length (us_chans s). open_or_tracked n (us_arrays s) (us_chans s) i))"

lemma arrays_grow: "update_step e s = Some t \<Longrightarrow> length (us_arrays s) \<le> length (us_arrays t)"
  by (cases e; cases "case e of UpGo k \<Rightarrow> us_pending s ! k | _ \<Rightarrow> GoCancel 0 0")
    (auto simp: update_step_def Update_Listen_def append_listener_def Update_send_def Update_cancel_def Let_def
      listener_send_def listener_cancel_def set_cell_def set_chan_def split: if_splits option.splits)

lemma canceled_stays: "update_step e s = Some t \<Longrightarrow> up_canceled (us_update s) \<Longrightarrow> up_canceled (us_update t)"
  by (cases e; cases "case e of UpGo k \<Rightarrow> us_pending s ! k | _ \<Rightarrow> GoCancel 0 0")
    (auto simp: update_step_def Update_Listen_def append_listener_def Update_send_def Update_cancel_def Let_def
      listener_send_def listener_cancel_def set_cell_def set_chan_def setStart_def setEnd_def split: if_splits option.splits)

lemma tracked_Listen:
  assumes inv: "single_inv n s" and nc: "\<not> up_canceled (us_update s)"
    and len: "length (us_arrays (snd (Update_Listen s))) \<le> 1"
  shows "single_inv n (snd (Update_Listen s))"
proof (cases "n = 0")
  case True
  with inv inv_Listen [of n s] show ?thesis
    by (auto simp: single_inv_def update_inv_def Update_Listen_def Let_def open_or_tracked_def nth_append less_Suc_eq)
next
  case False
  let ?u = "us_update s" and ?t = "snd (Update_Listen s)"
  from inv nc have sl: "slice_inv ?u (us_arrays s) (length (us_chans s)) (us_pending s)" and ct: "count_inv ?u"
    and n: "up_size ?u = n" and ne: "us_arrays s \<noteq> []" by (auto simp: single_inv_def update_inv_def)
  obtain al where al: "up_listeners ?u = Some al"
    using len ne nc n False by (cases "up_listeners ?u") (auto simp: Update_Listen_def append_listener_def Let_def)
  then obtain a l where al: "up_listeners ?u = Some (a, l)" by (cases al) auto
  have a: "a < length (us_arrays s)" using sl al by (simp add: slice_inv_def)
  have l: "l < length (us_arrays s ! a)"
  proof (rule ccontr)
    assume "\<not> l < length (us_arrays s ! a)"
    then have "length (us_arrays ?t) = Suc (length (us_arrays s))"
      using al nc n False by (simp add: Update_Listen_def append_listener_def Let_def)
    with len ne show False by simp
  qed
  have "length (us_arrays ?t) = length (us_arrays s)"
    using al l nc n False by (simp add: Update_Listen_def append_listener_def Let_def)
  with len ne have one: "length (us_arrays s) = 1" by (simp add: le_Suc_eq)
  with a have a0: "a = 0" by simp
  have r: "up_remaining ?u \<noteq> 0" using inv one nc al False by (auto simp: single_inv_def)
  with sl al have "l = length (us_chans s)" by (simp add: slice_inv_def)
  moreover have "up_remaining ?u = int n - int (length (up_values ?u))" "0 < up_remaining ?u"
    using ct n r by (auto simp: count_inv_def)
  moreover have "\<forall>i < length (us_chans s). open_or_tracked n (us_arrays s) (us_chans s) i"
    using inv one nc by (auto simp: single_inv_def)
  ultimately have "\<forall>i < length (us_chans ?t). open_or_tracked n (us_arrays ?t) (us_chans ?t) i"
    using al nc n False l a0 a
    by (auto simp: Update_Listen_def append_listener_def Let_def open_or_tracked_def nth_append less_Suc_eq)
  moreover have "up_remaining (us_update ?t) = up_remaining ?u" "us_arrays ?t \<noteq> []"
    using al nc n False l ne by (simp_all add: Update_Listen_def append_listener_def Let_def)
  ultimately show ?thesis using inv_Listen [of n s] inv r by (simp add: single_inv_def)
qed

lemma tracked_send:
  assumes rd: "send_ready n a i b gs s" and t: "listener_send a i b s = Some t" and one: "length (us_arrays s) \<le> 1"
    and tr: "\<forall>j < length (us_chans s). open_or_tracked n (us_arrays s) (us_chans s) j"
  shows "\<forall>j < length (us_chans t). open_or_tracked n (us_arrays t) (us_chans t) j"
proof -
  note f = send_ready_facts [OF rd]
  have a0: "a = 0" using f(1) one by simp
  have o: "open_or_tracked n (us_arrays s) (us_chans s) i" using tr f(3) by blast
  have fx: "length (us_chans t) = length (us_chans s)" "length (us_arrays t ! 0) = length (us_arrays s ! 0)"
    "j \<noteq> i \<Longrightarrow> us_chans t ! j = us_chans s ! j" "j \<noteq> i \<Longrightarrow> us_arrays t ! 0 ! j = us_arrays s ! 0 ! j" for j
    using t f(1-6)
    by (auto simp: listener_send_def Let_def set_cell_def set_chan_def cell_def a0 split: if_splits)
  have "open_or_tracked n (us_arrays t) (us_chans t) i"
    using t f(1-6) o
    by (cases "ul_remaining (cell s a i) = 1")
      (auto simp: listener_send_def Let_def set_cell_def set_chan_def open_or_tracked_def cell_def a0)
  moreover have "open_or_tracked n (us_arrays t) (us_chans t) j" if "j < length (us_chans t)" "j \<noteq> i" for j
    using that tr fx(1,2) fx(3,4) [OF that(2)] by (simp add: open_or_tracked_def)
  ultimately show ?thesis by blast
qed

lemma single_step:
  assumes inv: "single_inv n s" and st: "update_step e s = Some t"
  shows "single_inv n t"
proof -
  have u: "update_inv n t" "us_arrays t \<noteq> []"
    using inv update_inv_step [OF _ st] arrays_grow [OF st] by (auto simp: single_inv_def)
  show ?thesis
  proof (cases "up_canceled (us_update t) \<or> 1 < length (us_arrays t)")
    case True
    with u show ?thesis by (auto simp: single_inv_def)
  next
    case False
    then have nc: "\<not> up_canceled (us_update s)" and one: "length (us_arrays s) \<le> 1"
      using canceled_stays [OF st] arrays_grow [OF st] by auto
    with inv have l: "n \<noteq> 0 \<and> up_remaining (us_update s) = 0 \<longrightarrow> up_listeners (us_update s) = None"
      and tr: "\<forall>i < length (us_chans s). open_or_tracked n (us_arrays s) (us_chans s) i"
      by (auto simp: single_inv_def)
    show ?thesis
    proof (cases e)
      case UpListen
      with st inv nc False show ?thesis by (auto simp: update_step_def split: if_splits intro!: tracked_Listen)
    next
      case (UpGo k)
      with st have k: "k < length (us_pending s)" by (auto simp: update_step_def split: if_splits)
      have inv': "update_inv n s" using inv by (simp add: single_inv_def)
      from ready_of_inv [OF inv' nc k] obtain a i b where
        g: "us_pending s ! k = GoSend a i b" and
        rd: "send_ready n a i b (drop_at k (us_pending s)) (s\<lparr>us_pending := drop_at k (us_pending s)\<rparr>)" by blast
      have ls: "listener_send a i b (s\<lparr>us_pending := drop_at k (us_pending s)\<rparr>) = Some t"
        using st UpGo g by (auto simp: update_step_def split: if_splits)
      have "us_update t = us_update s"
        using ls by (auto simp: listener_send_def Let_def set_cell_def set_chan_def split: if_splits option.splits)
      with tracked_send [OF rd ls] one tr l u show ?thesis by (simp add: single_inv_def)
    next
      case (UpReceive c)
      with st tr l u show ?thesis
        by (auto simp: update_step_def set_chan_def single_inv_def open_or_tracked_def nth_list_update split: if_splits)
    qed (use st tr l u in \<open>auto simp: update_step_def Update_send_def Update_cancel_def Let_def setStart_def setEnd_def
        single_inv_def split: if_splits\<close>)
  qed
qed

lemma single_new: "update_init n s \<Longrightarrow> single_inv n s"
  using update_inv_new [of n s] by (auto simp: single_inv_def update_init_def usys_new_def newUpdate_def)

interpretation update_single: inductive_invariant update_step "update_init n" "single_inv n" for n
  by unfold_locales (fact single_new, fact single_step)

section \<open>Channels that nothing will ever close\<close>

definition never_closed :: "nat \<Rightarrow> nat \<Rightarrow> 'b usys \<Rightarrow> bool" where
  "never_closed n c s \<longleftrightarrow> update_inv n s \<and> \<not> up_canceled (us_update s) \<and> up_remaining (us_update s) = 0 \<and>
     c < length (us_chans s) \<and> \<not> ch_closed (us_chans s ! c) \<and> in_flight (us_pending s) c = {#}"

lemma never_closed_step:
  assumes inv: "never_closed n c s" and st: "update_step e s = Some t"
  shows "never_closed n c t"
proof -
  have u: "update_inv n t" using inv update_inv_step [OF _ st] by (simp add: never_closed_def)
  show ?thesis
  proof (cases e)
    case UpListen
    with st inv u show ?thesis
      by (auto simp: update_step_def never_closed_def Update_Listen_def append_listener_def Let_def nth_append
          split: if_splits option.splits)
  next
    case (UpGo k)
    from inv have nc: "\<not> up_canceled (us_update s)" and inv': "update_inv n s" by (auto simp: never_closed_def)
    from st UpGo have k: "k < length (us_pending s)" by (auto simp: update_step_def split: if_splits)
    from ready_of_inv [OF inv' nc k] obtain a i b where
      g: "us_pending s ! k = GoSend a i b" and
      rd: "send_ready n a i b (drop_at k (us_pending s)) (s\<lparr>us_pending := drop_at k (us_pending s)\<rparr>)" by blast
    note f = send_ready_facts [OF rd]
    have "i \<noteq> c \<and> in_flight (drop_at k (us_pending s)) c = {#}"
      using inv in_flight_drop_at [OF k, of c] by (auto simp: never_closed_def g split: if_splits)
    moreover have "listener_send a i b (s\<lparr>us_pending := drop_at k (us_pending s)\<rparr>) = Some t"
      using st UpGo g by (auto simp: update_step_def split: if_splits)
    ultimately show ?thesis
      using inv u f(4)
      by (auto simp: never_closed_def listener_send_def Let_def set_cell_def set_chan_def nth_list_update split: if_splits)
  next
    case (UpReceive d)
    with st inv u show ?thesis
      by (auto simp: update_step_def never_closed_def set_chan_def nth_list_update split: if_splits)
  qed (use st inv u in \<open>auto simp: update_step_def never_closed_def Update_send_def Update_cancel_def Let_def
      setStart_def setEnd_def split: if_splits\<close>)
qed

interpretation unclosed: trap update_step "never_closed n c" for n c
  by unfold_locales (simp, fact never_closed_step)

section \<open>Properties\<close>

text \<open>
  C16. Whatever number of listeners joins at whatever time, every channel gets every backlog
  value once: what was sent on it together with what goroutines are still about to send is the
  list of values received so far; a goroutine can always deliver at once, as no channel is ever
  full, and none hits a closed channel; a closed channel has got all the values. Values and the
  count of values agree with the number that is still missing.
\<close>

theorem update_delivers_once:
  assumes "reach update_step (update_init n) s" "\<not> up_canceled (us_update s)" "\<not> us_panic s"
  shows "(\<forall>c < length (us_chans s).
      mset (ch_sent (us_chans s ! c)) + in_flight (us_pending s) c = mset (up_values (us_update s)) \<and>
      (ch_closed (us_chans s ! c) \<longrightarrow> length (ch_sent (us_chans s ! c)) = n \<and> in_flight (us_pending s) c = {#})) \<and>
    (\<forall>k < length (us_pending s). \<exists>t. update_step (UpGo k) s = Some t \<and> \<not> us_panic t) \<and>
    Update_Values s = (if length (up_values (us_update s)) = n then Some (up_values (us_update s)) else None)"
proof -
  have inv: "update_inv n s" using assms(1) by (rule update_machine.reach_inv)
  have len: "length (up_values (us_update s)) \<le> n" "chan_inv (us_update s) (us_pending s) (us_chans s)"
    "count_inv (us_update s)" "up_size (us_update s) = n"
    using inv assms(2) by (auto simp: update_inv_def count_inv_def)
  have "\<forall>c < length (us_chans s).
      mset (ch_sent (us_chans s ! c)) + in_flight (us_pending s) c = mset (up_values (us_update s)) \<and>
      (ch_closed (us_chans s ! c) \<longrightarrow> length (ch_sent (us_chans s ! c)) = n \<and> in_flight (us_pending s) c = {#})"
  proof (intro allI impI)
    fix c assume c: "c < length (us_chans s)"
    with len(2,4) have m: "mset (ch_sent (us_chans s ! c)) + in_flight (us_pending s) c = mset (up_values (us_update s))"
      and cl: "ch_closed (us_chans s ! c) \<longrightarrow> length (ch_sent (us_chans s ! c)) = n" by (auto simp: chan_inv_def)
    from arg_cong [OF m, of size] have "length (ch_sent (us_chans s ! c)) + size (in_flight (us_pending s) c) \<le> n"
      using len(1) by simp
    then have "in_flight (us_pending s) c = {#}" if "length (ch_sent (us_chans s ! c)) = n"
      using that by (simp add: size_eq_0_iff_empty [symmetric] del: size_eq_0_iff_empty)
    with m cl show "mset (ch_sent (us_chans s ! c)) + in_flight (us_pending s) c = mset (up_values (us_update s)) \<and>
      (ch_closed (us_chans s ! c) \<longrightarrow> length (ch_sent (us_chans s ! c)) = n \<and> in_flight (us_pending s) c = {#})" by simp
  qed
  moreover have "\<exists>t. update_step (UpGo k) s = Some t \<and> \<not> us_panic t" if "k < length (us_pending s)" for k
    using update_delivers_step [OF assms that] .
  moreover have "Update_Values s = (if length (up_values (us_update s)) = n then Some (up_values (us_update s)) else None)"
    using len(3,4) by (auto simp: Update_Values_def count_inv_def)
  ultimately show ?thesis by blast
qed

lemma update_reach: "run update_step (usys_new n) es = Some s \<Longrightarrow> reach update_step (update_init n) s"
  by (rule run_reach) (simp add: update_init_def)

lemmas update_run_simps = update_step_def usys_new_def newUpdate_def Update_Listen_def append_listener_def
  Update_send_def cells_def listener_send_def set_cell_def set_chan_def chan_full_def cell_def drop_at_def
  updateListener_zero_def Let_def

theorem update_delivers_once_witness:
  "\<exists>s. run update_step (usys_new 2) [UpListen, UpSend ''x'', UpListen, UpSend ''y'', UpGo 2] = Some s \<and>
     mset (ch_sent (us_chans s ! 1)) + in_flight (us_pending s) 1 = {#''x'', ''y''#} \<and> ch_closed (us_chans s ! 1) \<and>
     Update_Values s = Some [''x'', ''y'']"
proof -
  obtain s where r: "run update_step (usys_new 2) [UpListen, UpSend ''x'', UpListen, UpSend ''y'', UpGo 2] = Some s"
    and f: "\<not> up_canceled (us_update s)" "\<not> us_panic s" "length (us_chans s) = 2" "ch_closed (us_chans s ! 1)"
      "up_values (us_update s) = [''x'', ''y'']"
    by (simp add: update_run_simps)
  from update_delivers_once [OF update_reach [OF r] f(1,2)] f(3,5)
  have "mset (ch_sent (us_chans s ! 1)) + in_flight (us_pending s) 1 = {#''x'', ''y''#}"
    "Update_Values s = Some [''x'', ''y'']" by auto
  with r f(4) show ?thesis by blast
qed

text \<open>
  As long as the slice of listeners has not been reallocated - at most two listeners, none
  of them after the last value - listening ends: once all values are in and the goroutines have
  run, every channel is closed and holds all values, so a range over it terminates.
\<close>

theorem two_listeners_end:
  assumes "reach update_step (update_init n) s" "\<not> up_canceled (us_update s)" "length (us_arrays s) = 1"
    "up_remaining (us_update s) = 0" "us_pending s = []" "c < length (us_chans s)"
  shows "ch_closed (us_chans s ! c) \<and> mset (ch_sent (us_chans s ! c)) = mset (up_values (us_update s)) \<and>
     length (up_values (us_update s)) = n"
proof -
  have inv: "update_inv n s" "single_inv n s"
    using update_machine.reach_inv [OF assms(1)] update_single.reach_inv [OF assms(1)] by blast+
  then have m: "mset (ch_sent (us_chans s ! c)) = mset (up_values (us_update s))" "length (up_values (us_update s)) = n"
    using assms(2-6) by (auto simp: update_inv_def chan_inv_def count_inv_def)
  have "open_or_tracked n (us_arrays s) (us_chans s) c" using inv(2) assms(2,3,6) by (auto simp: single_inv_def)
  moreover have "length (ch_sent (us_chans s ! c)) = n" using m by (metis size_mset)
  ultimately have "ch_closed (us_chans s ! c)" by (auto simp: open_or_tracked_def)
  with m show ?thesis by simp
qed

theorem two_listeners_end_witness:
  "\<exists>s. run update_step (usys_new 2) [UpListen, UpSend ''x'', UpListen, UpSend ''y'', UpGo 2, UpGo 0, UpGo 0] = Some s \<and>
     ch_closed (us_chans s ! 0) \<and> mset (ch_sent (us_chans s ! 0)) = {#''x'', ''y''#}"
proof -
  obtain s where r: "run update_step (usys_new 2) [UpListen, UpSend ''x'', UpListen, UpSend ''y'', UpGo 2, UpGo 0, UpGo 0] = Some s"
    and f: "\<not> up_canceled (us_update s)" "length (us_arrays s) = 1" "up_remaining (us_update s) = 0" "us_pending s = []"
      "0 < length (us_chans s)" "up_values (us_update s) = [''x'', ''y'']"
    by (simp add: update_run_simps)
  from two_listeners_end [OF update_reach [OF r] f(1-5)] f(6) r show ?thesis by auto
qed

text \<open>
  A channel whose listener joins after the last value is never closed: it holds all the
  values, but nothing that happens afterwards closes it, so a range over it blocks for ever.
\<close>

theorem late_listener_never_closed:
  assumes "reach update_step (update_init n) s" "\<not> up_canceled (us_update s)" "up_remaining (us_update s) = 0" "0 < n"
    and "Update_Listen s = (c, t)" "run update_step t es = Some u"
  shows "\<not> ch_closed (us_chans u ! c)"
proof -
  have inv: "update_inv n s" using assms(1) by (rule update_machine.reach_inv)
  then have n: "up_size (us_update s) = n" and p: "pending_inv (us_arrays s) (length (us_chans s)) (us_pending s)"
    using assms(2) by (auto simp: update_inv_def)
  have t: "t = snd (Update_Listen s)" "c = length (us_chans s)"
    using assms(2,4,5) n by (auto simp: Update_Listen_def Let_def split: if_splits)
  have "never_closed n c t"
    using inv_Listen [OF inv] in_flight_none [OF p] assms(2-4) n
    by (auto simp: never_closed_def t Update_Listen_def append_listener_def Let_def split: option.split)
  then have "never_closed n c u" using assms(6) by (rule unclosed.stays)
  then show ?thesis by (simp add: never_closed_def)
qed

theorem late_listener_never_closed_witness:
  "\<exists>s t u. run update_step (usys_new 1) [UpSend ''x''] = Some s \<and> Update_Listen s = (0, t) \<and>
     run update_step t [UpReceive 0, UpCancel] = Some u \<and> \<not> ch_closed (us_chans u ! 0)"
proof -
  obtain s t u where r: "run update_step (usys_new 1) [UpSend ''x''] = Some s"
    and l: "Update_Listen s = (0, t)" and u: "run update_step t [UpReceive 0, UpCancel] = Some u"
    and f: "\<not> up_canceled (us_update s)" "up_remaining (us_update s) = 0"
    by (simp add: update_run_simps Update_cancel_def)
  from late_listener_never_closed [OF update_reach [OF r] f less_one [THEN iffD2, OF refl] l u] r l u show ?thesis by blast
qed

text \<open>
  A third listener that joins while a goroutine still has to deliver to the first one makes
  the first one lose its close: append copied its counter before the delivery was counted, so
  the copy in the slice never reaches zero. Both values are delivered and the first channel
  stays open whatever happens next.
\<close>

theorem third_listener_loses_close:
  "\<exists>s. run update_step (usys_new 2)
      [UpListen, UpListen, UpSend ''x'', UpListen, UpGo 0, UpGo 0, UpSend ''y'', UpGo 0, UpGo 0, UpGo 0] = Some s \<and>
     us_pending s = [] \<and> Update_Values s = Some [''x'', ''y''] \<and> ch_sent (us_chans s ! 0) = [''x'', ''y''] \<and>
     ch_closed (us_chans s ! 2) \<and>
     (\<forall>es u. run update_step s es = Some u \<longrightarrow> \<not> ch_closed (us_chans u ! 0))"
proof -
  obtain s where r: "run update_step (usys_new 2)
      [UpListen, UpListen, UpSend ''x'', UpListen, UpGo 0, UpGo 0, UpSend ''y'', UpGo 0, UpGo 0, UpGo 0] = Some s"
    and f: "us_pending s = []" "Update_Values s = Some [''x'', ''y'']" "ch_sent (us_chans s ! 0) = [''x'', ''y'']"
      "ch_closed (us_chans s ! 2)" "\<not> up_canceled (us_update s)" "up_remaining (us_update s) = 0"
      "0 < length (us_chans s)" "\<not> ch_closed (us_chans s ! 0)"
    by (simp add: update_run_simps Update_Values_def)
  have "never_closed 2 0 s"
    using update_machine.reach_inv [OF update_reach [OF r]] f by (simp add: never_closed_def)
  then have "\<not> ch_closed (us_chans u ! 0)" if "run update_step s es = Some u" for es u
    using unclosed.stays [OF _ that] by (auto simp: never_closed_def)
  with r f show ?thesis by blast
qed

theorem third_listener_loses_close_witness:
  "\<exists>s u. run update_step (usys_new 2)
      [UpListen, UpListen, UpSend ''x'', UpListen, UpGo 0, UpGo 0, UpSend ''y'', UpGo 0, UpGo 0, UpGo 0] = Some s \<and>
     run update_step s [UpReceive 0, UpReceive 0] = Some u \<and> \<not> ch_closed (us_chans u ! 0)"
proof -
  obtain s where r: "run update_step (usys_new 2)
      [UpListen, UpListen, UpSend ''x'', UpListen, UpGo 0, UpGo 0, UpSend ''y'', UpGo 0, UpGo 0, UpGo 0] = Some s"
    and st: "\<And>es u. run update_step s es = Some u \<Longrightarrow> \<not> ch_closed (us_chans u ! 0)"
    using third_listener_loses_close by blast
  from r obtain u where "run update_step s [UpReceive 0, UpReceive 0] = Some u"
    by (simp add: update_run_simps) (drule sym, simp add: update_run_simps)
  with r st show ?thesis by blast
qed

end
