(* ===== verification/Broadcaster.thy ===== *)
theory Broadcaster imports Update begin

text \<open>
  The broadcaster of package monitor (monitor/broadcaster.go): the channels on which the
  listeners of a monitor get one Update per round of polling.

  Broadcast holds the mutex while it sends, and a send on a full channel waits for the receiver,
  so a Broadcast in its loop is part of the state; the other methods are one event each. An
  unbuffered channel hands over when the receiver comes. Updates are numbered in the order of
  their creation, and a log keeps what was sent where.
\<close>

section \<open>State\<close>

record bchan =
  bch_cap :: nat
  bch_queue :: "nat list"
  bch_got :: "nat list"
  bch_closed :: bool

record broadcaster =
  bc_listeners :: "nat list"
  bc_closed :: bool

text \<open>
  \<open>br_loop\<close> holds the listeners that Broadcast has yet to send to and the updates sent, with the
  size; \<open>br_updates\<close> the sizes of all updates; \<open>br_results\<close> the listeners and the result of every
  finished Broadcast.
\<close>

record bsys =
  br_bc :: broadcaster
  br_chans :: "bchan list"
  br_loop :: "(nat list \<times> nat list \<times> nat) option"
  br_updates :: "nat list"
  br_log :: "(nat \<times> nat) list"
  br_results :: "(nat list \<times> nat list) list"
  br_panic :: bool

definition broadcaster_zero :: broadcaster where
  "broadcaster_zero = \<lparr>bc_listeners = [], bc_closed = False\<rparr>"

definition bsys0 :: bsys where
  "bsys0 = \<lparr>br_bc = broadcaster_zero, br_chans = [], br_loop = None, br_updates = [], br_log = [],
     br_results = [], br_panic = False\<rparr>"

definition bsys_init :: "bsys \<Rightarrow> bool" where
  "bsys_init s \<longleftrightarrow> s = bsys0"

definition bc_free :: "bsys \<Rightarrow> bool" where
  "bc_free s \<longleftrightarrow> br_loop s = None"

section \<open>Operations\<close>

text \<open>close on a channel that is closed already panics.\<close>

definition close_chan :: "nat \<Rightarrow> bsys \<Rightarrow> bsys" where
  "close_chan c s = s\<lparr>br_chans := (br_chans s)[c := (br_chans s ! c)\<lparr>bch_closed := True\<rparr>],
     br_panic := (br_panic s \<or> bch_closed (br_chans s ! c))\<rparr>"

definition set_listeners :: "nat list \<Rightarrow> bsys \<Rightarrow> bsys" where
  "set_listeners ls s = s\<lparr>br_bc := (br_bc s)\<lparr>bc_listeners := ls\<rparr>\<rparr>"

definition bc_Close :: "bsys \<Rightarrow> bsys option" where
  "bc_Close s =
     (if bc_free s
      then Some (if bc_closed (br_bc s) then s
                 else
                   (let s1 = s\<lparr>br_bc := (br_bc s)\<lparr>bc_closed := True\<rparr>\<rparr>
                    in set_listeners [] (fold close_chan (bc_listeners (br_bc s1)) s1)))
      else None)"

definition bc_Listen :: "int \<Rightarrow> bsys \<Rightarrow> (nat \<times> bsys) option" where
  "bc_Listen chanSize s =
     (let ch = length (br_chans s);
          new = (\<lambda>c. \<lparr>bch_cap = nat chanSize, bch_queue = [], bch_got = [], bch_closed = c\<rparr>)
      in if chanSize < 0 then Some (ch, s\<lparr>br_panic := True\<rparr>)
         else if \<not> bc_free s then None
         else if \<not> bc_closed (br_bc s)
         then Some (ch, set_listeners (bc_listeners (br_bc s) @ [ch]) (s\<lparr>br_chans := br_chans s @ [new False]\<rparr>))
         else Some (ch, s\<lparr>br_chans := br_chans s @ [new True]\<rparr>))"

text \<open>The loop of Unlisten: the entries kept so far, and those that are still to be looked at.\<close>

fun unlisten_loop :: "nat \<Rightarrow> nat list \<Rightarrow> nat list \<Rightarrow> bool \<Rightarrow> bsys \<Rightarrow> bool \<times> bsys" where
  "unlisten_loop ch kept [] found s = (found, set_listeners kept s)"
| "unlisten_loop ch kept (entry # rest) found s =
     (if entry \<noteq> ch then unlisten_loop ch (kept @ [entry]) rest found s
      else unlisten_loop ch kept rest True (close_chan entry s))"

definition bc_Unlisten :: "nat \<Rightarrow> bsys \<Rightarrow> (bool \<times> bsys) option" where
  "bc_Unlisten ch s = (if bc_free s then Some (unlisten_loop ch [] (bc_listeners (br_bc s)) False s) else None)"

text \<open>Broadcast up to its loop, and the send of the loop to the next listener.\<close>

definition bc_Broadcast :: "nat \<Rightarrow> bsys \<Rightarrow> bsys option" where
  "bc_Broadcast n s =
     (if bc_free s
      then Some (if bc_listeners (br_bc s) = [] then s\<lparr>br_results := br_results s @ [([], [])]\<rparr>
                 else s\<lparr>br_loop := Some (bc_listeners (br_bc s), [], n)\<rparr>)
      else None)"

definition sent_to :: "nat \<Rightarrow> nat list \<Rightarrow> nat list \<Rightarrow> nat \<Rightarrow> bsys \<Rightarrow> bsys" where
  "sent_to c rest us n s =
     (let u = length (br_updates s);
          s1 = s\<lparr>br_updates := br_updates s @ [n], br_log := br_log s @ [(c, u)]\<rparr>
      in if rest = []
         then s1\<lparr>br_loop := None, br_results := br_results s @ [(bc_listeners (br_bc s), us @ [u])]\<rparr>
         else s1\<lparr>br_loop := Some (rest, us @ [u], n)\<rparr>)"

definition bc_deliver :: "bsys \<Rightarrow> bsys option" where
  "bc_deliver s =
     (case br_loop s of
        Some (c # rest, us, n) \<Rightarrow>
          (let ch = br_chans s ! c
           in if bch_closed ch then Some (s\<lparr>br_panic := True\<rparr>)
              else if bch_cap ch \<le> length (bch_queue ch) then None
              else Some (sent_to c rest us n
                     (s\<lparr>br_chans := (br_chans s)[c := ch\<lparr>bch_queue := bch_queue ch @ [length (br_updates s)]\<rparr>]\<rparr>)))
      | _ \<Rightarrow> None)"

text \<open>A consumer receives: from the buffer, or directly from a Broadcast that waits to send.\<close>

definition bc_receive :: "nat \<Rightarrow> bsys \<Rightarrow> bsys option" where
  "bc_receive c s =
     (if c < length (br_chans s) then
        (let ch = br_chans s ! c
         in case bch_queue ch of
              u # q \<Rightarrow> Some (s\<lparr>br_chans := (br_chans s)[c := ch\<lparr>bch_queue := q, bch_got := bch_got ch @ [u]\<rparr>]\<rparr>)
            | [] \<Rightarrow>
                if bch_closed ch then Some s
                else (case br_loop s of
                        Some (d # rest, us, n) \<Rightarrow>
                          (if d = c \<and> bch_cap ch = 0
                           then Some (sent_to c rest us n
                                  (s\<lparr>br_chans := (br_chans s)[c := ch\<lparr>bch_got := bch_got ch @ [length (br_updates s)]\<rparr>]\<rparr>))
                           else None)
                      | _ \<Rightarrow> None))
      else None)"

datatype broadcast_event =
    BrListen nat
  | BrUnlisten nat
  | BrClose
  | BrBroadcast nat
  | BrDeliver
  | BrReceive nat

fun broadcast_live :: "broadcast_event \<Rightarrow> bsys \<Rightarrow> bsys option" where
  "broadcast_live (BrListen n) s = map_option snd (bc_Listen (int n) s)"
| "broadcast_live (BrUnlisten c) s = map_option snd (bc_Unlisten c s)"
| "broadcast_live BrClose s = bc_Close s"
| "broadcast_live (BrBroadcast n) s = bc_Broadcast n s"
| "broadcast_live BrDeliver s = bc_deliver s"
| "broadcast_live (BrReceive c) s = bc_receive c s"

definition broadcast_step :: "broadcast_event \<Rightarrow> bsys \<Rightarrow> bsys option" where
  "broadcast_step e s = (if br_panic s then None else broadcast_live e s)"

section \<open>What Unlisten and Close do to the channels\<close>

definition closed_all :: "nat set \<Rightarrow> bchan list \<Rightarrow> bchan list" where
  "closed_all cs chans = map (\<lambda>(c, ch). if c \<in> cs then ch\<lparr>bch_closed := True\<rparr> else ch) (zip [0..<length chans] chans)"

lemma length_closed_all [simp]: "length (closed_all cs chans) = length chans"
  by (simp add: closed_all_def)

lemma nth_closed_all [simp]:
  "c < length chans \<Longrightarrow> closed_all cs chans ! c = (if c \<in> cs then (chans ! c)\<lparr>bch_closed := True\<rparr> else chans ! c)"
  by (simp add: closed_all_def)

lemma closed_all_empty [simp]: "closed_all {} chans = chans"
  by (rule nth_equalityI) auto

lemma closed_all_insert:
  "c < length chans \<Longrightarrow> closed_all (insert c cs) chans = closed_all cs (chans[c := (chans ! c)\<lparr>bch_closed := True\<rparr>])"
  by (rule nth_equalityI) (auto simp: nth_list_update)

definition open_in :: "nat \<Rightarrow> bchan list \<Rightarrow> bool" where
  "open_in c chans \<longleftrightarrow> c < length chans \<and> \<not> bch_closed (chans ! c)"

lemma close_chan_open:
  assumes "open_in c (br_chans s)"
  shows "close_chan c s = s\<lparr>br_chans := closed_all {c} (br_chans s)\<rparr>"
  using assms closed_all_insert [of c "br_chans s" "{}"] by (simp add: close_chan_def open_in_def)

lemma fold_close:
  assumes "distinct ls" "list_all (\<lambda>c. open_in c (br_chans s)) ls"
  shows "fold close_chan ls s = s\<lparr>br_chans := closed_all (set ls) (br_chans s)\<rparr>"
  using assms
proof (induction ls arbitrary: s)
  case (Cons c ls)
  have o: "list_all (\<lambda>d. open_in d (closed_all {c} (br_chans s))) ls"
    using Cons.prems by (auto simp: list_all_iff open_in_def)
  have "closed_all (set ls) (closed_all {c} (br_chans s)) = closed_all (set (c # ls)) (br_chans s)"
    by (rule nth_equalityI) auto
  with Cons o show ?case by (simp add: close_chan_open)
qed simp

lemma unlisten_loop_eq:
  assumes "distinct ls" "list_all (\<lambda>c. open_in c (br_chans s)) ls"
  shows "unlisten_loop c kept ls found s =
    (found \<or> c \<in> set ls, set_listeners (kept @ removeAll c ls)
      (s\<lparr>br_chans := closed_all ({c} \<inter> set ls) (br_chans s)\<rparr>))"
  using assms
proof (induction ls arbitrary: kept found s)
  case (Cons e ls)
  show ?case
  proof (cases "e = c")
    case True
    have o: "list_all (\<lambda>d. open_in d (closed_all {c} (br_chans s))) ls"
      using Cons.prems True by (auto simp: list_all_iff open_in_def)
    with Cons True show ?thesis by (simp add: close_chan_open removeAll_id)
  next
    case False
    with Cons show ?thesis by (auto simp: insert_commute)
  qed
qed simp

section \<open>The invariant\<close>

definition updates_of :: "nat \<Rightarrow> (nat \<times> nat) list \<Rightarrow> nat list" where
  "updates_of c l = map snd (filter (\<lambda>p. fst p = c) l)"

definition deliveries :: "(nat list \<times> nat list) list \<Rightarrow> (nat \<times> nat) list" where
  "deliveries rs = concat (map (\<lambda>(ls, us). zip ls us) rs)"

text \<open>A channel is open exactly as long as it is listed.\<close>

definition listed_inv :: "broadcaster \<Rightarrow> bchan list \<Rightarrow> bool" where
  "listed_inv bc chans \<longleftrightarrow> distinct (bc_listeners bc) \<and> (bc_closed bc \<longrightarrow> bc_listeners bc = []) \<and>
     (\<forall>c. open_in c chans \<longleftrightarrow> c \<in> set (bc_listeners bc))"

definition queue_inv :: "bchan list \<Rightarrow> (nat \<times> nat) list \<Rightarrow> bool" where
  "queue_inv chans l \<longleftrightarrow> (\<forall>c. updates_of c l =
     (if c < length chans then bch_got (chans ! c) @ bch_queue (chans ! c) else []))"

text \<open>What the Broadcast in its loop has sent so far.\<close>

definition loop_inv :: "bsys \<Rightarrow> bool" where
  "loop_inv s \<longleftrightarrow>
     (case br_loop s of
        None \<Rightarrow> br_log s = deliveries (br_results s)
      | Some (rest, us, n) \<Rightarrow> rest \<noteq> [] \<and> (\<exists>done_ls. bc_listeners (br_bc s) = done_ls @ rest \<and>
          length done_ls = length us \<and> br_log s = deliveries (br_results s) @ zip done_ls us \<and>
          list_all (\<lambda>u. br_updates s ! u = n) us))"

definition result_inv :: "bsys \<Rightarrow> bool" where
  "result_inv s \<longleftrightarrow> map snd (br_log s) = [0..<length (br_updates s)] \<and>
     list_all (\<lambda>(ls, us). distinct ls \<and> length ls = length us) (br_results s)"

definition bsys_inv :: "bsys \<Rightarrow> bool" where
  "bsys_inv s \<longleftrightarrow> \<not> br_panic s \<and> listed_inv (br_bc s) (br_chans s) \<and> queue_inv (br_chans s) (br_log s) \<and>
     loop_inv s \<and> result_inv s"

lemma updates_of_simps [simp]:
  "updates_of c [] = []"
  "updates_of c (l @ k) = updates_of c l @ updates_of c k"
  "updates_of c [(d, u)] = (if d = c then [u] else [])"
  by (simp_all add: updates_of_def)

lemma deliveries_simps [simp]:
  "deliveries [] = []"
  "deliveries (rs @ qs) = deliveries rs @ deliveries qs"
  "deliveries [(ls, us)] = zip ls us"
  by (simp_all add: deliveries_def)

lemma open_append: "open_in c (chans @ [ch]) \<longleftrightarrow> open_in c chans \<or> c = length chans \<and> \<not> bch_closed ch"
  by (auto simp: open_in_def nth_append less_Suc_eq)

lemma open_closed_all: "open_in c (closed_all cs chans) \<longleftrightarrow> open_in c chans \<and> c \<notin> cs"
  by (cases "c < length chans") (simp_all add: open_in_def)

lemma open_update: "open_in c (chans[d := ch]) \<longleftrightarrow>
    (if c = d then c < length chans \<and> \<not> bch_closed ch else open_in c chans)"
  by (auto simp: open_in_def nth_list_update)

lemma queue_append: "queue_inv chans l \<Longrightarrow> bch_got ch = [] \<Longrightarrow> bch_queue ch = [] \<Longrightarrow> queue_inv (chans @ [ch]) l"
  by (simp add: queue_inv_def nth_append less_Suc_eq)

lemma queue_closed_all: "queue_inv (closed_all cs chans) l \<longleftrightarrow> queue_inv chans l"
  by (simp add: queue_inv_def)

lemma listed_open: "listed_inv bc chans \<Longrightarrow> list_all (\<lambda>c. open_in c chans) (bc_listeners bc)"
  by (auto simp: listed_inv_def list_all_iff)

lemma inv_frame:
  assumes "bsys_inv s" "br_loop s = None" "listed_inv b cs" "queue_inv cs (br_log s)"
  shows "bsys_inv (s\<lparr>br_chans := cs, br_bc := b\<rparr>)"
  using assms unfolding bsys_inv_def loop_inv_def result_inv_def by auto

lemma inv_chans:
  assumes "bsys_inv s" "br_loop s = None" "listed_inv (br_bc s) cs" "queue_inv cs (br_log s)"
  shows "bsys_inv (s\<lparr>br_chans := cs\<rparr>)"
  using assms unfolding bsys_inv_def loop_inv_def result_inv_def by auto

lemma bc_inv_Close:
  assumes "bsys_inv s" "bc_Close s = Some t"
  shows "bsys_inv t"
proof -
  have "distinct (bc_listeners (br_bc s))" "list_all (\<lambda>c. open_in c (br_chans s)) (bc_listeners (br_bc s))"
    using assms(1) listed_open by (auto simp: bsys_inv_def listed_inv_def)
  with fold_close [of "bc_listeners (br_bc s)" "s\<lparr>br_bc := (br_bc s)\<lparr>bc_closed := True\<rparr>\<rparr>"] assms
  show ?thesis
    by (auto simp: bc_Close_def Let_def set_listeners_def bc_free_def bsys_inv_def listed_inv_def
        open_closed_all queue_closed_all loop_inv_def result_inv_def split: if_splits option.splits)
qed

lemma inv_Unlisten:
  assumes "bsys_inv s" "bc_Unlisten c s = Some (f, t)"
  shows "bsys_inv t" "f \<longleftrightarrow> c \<in> set (bc_listeners (br_bc s))"
proof -
  have d: "distinct (bc_listeners (br_bc s))" "list_all (\<lambda>c. open_in c (br_chans s)) (bc_listeners (br_bc s))"
    using assms(1) listed_open by (auto simp: bsys_inv_def listed_inv_def)
  from unlisten_loop_eq [OF this] assms show "f \<longleftrightarrow> c \<in> set (bc_listeners (br_bc s))"
    by (auto simp: bc_Unlisten_def split: if_splits)
  from unlisten_loop_eq [OF d] assms show "bsys_inv t"
    by (auto simp: bc_Unlisten_def set_listeners_def bc_free_def bsys_inv_def listed_inv_def distinct_removeAll
        open_closed_all queue_closed_all loop_inv_def result_inv_def split: if_splits option.splits)
qed

lemma bc_inv_Listen:
  assumes inv: "bsys_inv s" and t: "bc_Listen (int n) s = Some (c, t)"
  shows "bsys_inv t"
proof -
  let ?b = "br_bc s" and ?m = "length (br_chans s)"
  let ?new = "\<lambda>x. \<lparr>bch_cap = n, bch_queue = [], bch_got = [], bch_closed = x\<rparr>"
  have li: "listed_inv ?b (br_chans s)" and q: "queue_inv (br_chans s @ [?new x]) (br_log s)" for x
    using inv by (auto simp: bsys_inv_def queue_append)
  have nm: "\<not> open_in ?m (br_chans s)" by (simp add: open_in_def)
  have l: "br_loop s = None" using t by (cases "br_loop s") (simp_all add: bc_Listen_def bc_free_def Let_def)
  show ?thesis
  proof (cases "bc_closed ?b")
    case True
    then have "t = s\<lparr>br_chans := br_chans s @ [?new True]\<rparr>" using t l by (simp add: bc_Listen_def bc_free_def Let_def)
    moreover have "listed_inv ?b (br_chans s @ [?new True])" using li by (simp add: listed_inv_def open_append)
    ultimately show ?thesis using inv_chans [OF inv l _ q] by simp
  next
    case False
    then have "t = s\<lparr>br_chans := br_chans s @ [?new False], br_bc := ?b\<lparr>bc_listeners := bc_listeners ?b @ [?m]\<rparr>\<rparr>"
      using t l by (auto simp: bc_Listen_def bc_free_def Let_def set_listeners_def)
    moreover have "listed_inv (?b\<lparr>bc_listeners := bc_listeners ?b @ [?m]\<rparr>) (br_chans s @ [?new False])"
      using li nm False by (auto simp: listed_inv_def open_append)
    ultimately show ?thesis using inv_frame [OF inv l _ q] by simp
  qed
qed

lemma inv_Broadcast: "bsys_inv s \<Longrightarrow> bc_Broadcast n s = Some t \<Longrightarrow> bsys_inv t"
  by (auto simp: bc_Broadcast_def bc_free_def bsys_inv_def loop_inv_def result_inv_def split: if_splits)

text \<open>Both ways to send to the next listener end in \<open>sent_to\<close>.\<close>

lemma inv_sent:
  assumes inv: "bsys_inv s" and l: "br_loop s = Some (c # rest, us, n)"
    and ch: "bch_got ch @ bch_queue ch = bch_got (br_chans s ! c) @ bch_queue (br_chans s ! c) @ [length (br_updates s)]"
      "bch_closed ch = bch_closed (br_chans s ! c)"
  shows "bsys_inv (sent_to c rest us n (s\<lparr>br_chans := (br_chans s)[c := ch]\<rparr>))"
proof -
  let ?u = "length (br_updates s)"
  from inv l obtain ds where ds: "bc_listeners (br_bc s) = ds @ c # rest" "length ds = length us"
    "br_log s = deliveries (br_results s) @ zip ds us" "list_all (\<lambda>u. br_updates s ! u = n) us"
    by (auto simp: bsys_inv_def loop_inv_def)
  have c: "open_in c (br_chans s)" using inv ds(1) by (auto simp: bsys_inv_def listed_inv_def)
  have us: "set us \<subseteq> {..<?u}"
  proof -
    have "set us = snd ` set (zip ds us)" using ds(2) by (metis map_snd_zip set_map)
    also have "\<dots> \<subseteq> set (map snd (br_log s))" using ds(3) by auto
    also have "\<dots> = {..<?u}" using inv by (simp add: bsys_inv_def result_inv_def lessThan_atLeast0 del: set_map)
    finally show ?thesis .
  qed
  have a: "listed_inv (br_bc s) ((br_chans s)[c := ch])"
  proof -
    have "open_in d ((br_chans s)[c := ch]) = open_in d (br_chans s)" for d
      using c ch(2) by (simp add: open_update) (simp add: open_in_def)
    with inv show ?thesis by (simp add: bsys_inv_def listed_inv_def)
  qed
  have b: "queue_inv ((br_chans s)[c := ch]) (br_log s @ [(c, ?u)])"
    using inv c ch(1) by (simp add: bsys_inv_def queue_inv_def open_in_def nth_list_update)
  have d: "list_all (\<lambda>u. (br_updates s @ [n]) ! u = n) (us @ [?u])"
    using ds(4) us by (auto simp: list_all_iff nth_append)
  have e: "br_log s @ [(c, ?u)] = deliveries (br_results s) @ zip (ds @ [c]) (us @ [?u])" using ds(2,3) by simp
  have f: "distinct (ds @ c # rest)" using inv ds(1) by (metis bsys_inv_def listed_inv_def)
  have g: "map snd (br_log s @ [(c, ?u)]) = [0..<length (br_updates s @ [n])]"
    using inv by (simp add: bsys_inv_def result_inv_def)
  note * = f e a b d g
  have old: "\<not> br_panic s" "list_all (\<lambda>(ls, us). distinct ls \<and> length ls = length us) (br_results s)"
    using inv by (simp_all add: bsys_inv_def result_inv_def)
  show ?thesis
  proof (cases rest)
    case Nil
    with * old ds(1,2) show ?thesis
      by (simp add: sent_to_def Let_def bsys_inv_def loop_inv_def result_inv_def del: upt_Suc zip_append)
  next
    case (Cons d ls)
    let ?t = "s\<lparr>br_chans := (br_chans s)[c := ch], br_updates := br_updates s @ [n], br_log := br_log s @ [(c, ?u)],
      br_loop := Some (rest, us @ [?u], n)\<rparr>"
    have "loop_inv ?t"
      using *(2,5) ds(1,2) Cons by (simp add: loop_inv_def)
    moreover have "result_inv ?t" using *(6) old(2) by (simp add: result_inv_def)
    ultimately have "bsys_inv ?t" using * old(1) by (simp add: bsys_inv_def)
    moreover have "sent_to c rest us n (s\<lparr>br_chans := (br_chans s)[c := ch]\<rparr>) = ?t" using Cons by (simp add: sent_to_def Let_def)
    ultimately show ?thesis by simp
  qed
qed

lemma inv_deliver:
  assumes inv: "bsys_inv s" and t: "bc_deliver s = Some t"
  shows "bsys_inv t"
proof -
  obtain c rest us n where l: "br_loop s = Some (c # rest, us, n)"
    using t by (auto simp: bc_deliver_def split: option.splits list.splits)
  from inv l obtain ds where "bc_listeners (br_bc s) = ds @ c # rest" by (auto simp: bsys_inv_def loop_inv_def)
  then have "open_in c (br_chans s)" using inv by (simp add: bsys_inv_def listed_inv_def)
  then have "t = sent_to c rest us n (s\<lparr>br_chans := (br_chans s)[c := (br_chans s ! c)\<lparr>bch_queue :=
      bch_queue (br_chans s ! c) @ [length (br_updates s)]\<rparr>]\<rparr>)"
    using t l by (simp add: bc_deliver_def Let_def open_in_def split: if_splits)
  then show ?thesis by (simp only:) (rule inv_sent [OF inv l], simp_all)
qed

lemma inv_receive:
  assumes inv: "bsys_inv s" and t: "bc_receive c s = Some t"
  shows "bsys_inv t"
proof (cases "bch_queue (br_chans s ! c)")
  case (Cons u q)
  have c: "c < length (br_chans s)" using t by (auto simp: bc_receive_def split: if_splits)
  let ?ch = "(br_chans s ! c)\<lparr>bch_queue := q, bch_got := bch_got (br_chans s ! c) @ [u]\<rparr>"
  have "open_in d ((br_chans s)[c := ?ch]) = open_in d (br_chans s)" for d
    using c by (simp add: open_update) (simp add: open_in_def)
  moreover have "queue_inv ((br_chans s)[c := ?ch]) (br_log s)"
    using inv c Cons by (auto simp: bsys_inv_def queue_inv_def nth_list_update)
  ultimately show ?thesis
    using inv t Cons c
    by (auto simp: bc_receive_def Let_def bsys_inv_def listed_inv_def loop_inv_def result_inv_def
        split: option.splits prod.splits)
next
  case Nil
  with inv t inv_sent [OF inv, of c] show ?thesis
    by (auto simp: bc_receive_def Let_def split: if_splits option.splits list.splits prod.splits)
qed

lemma bsys_inv_step: "bsys_inv s \<Longrightarrow> broadcast_step e s = Some t \<Longrightarrow> bsys_inv t"
  by (cases e) (auto simp: broadcast_step_def intro: bc_inv_Listen inv_Unlisten(1) bc_inv_Close inv_Broadcast
      inv_deliver inv_receive split: if_splits)

lemma bsys_inv_init: "bsys_init s \<Longrightarrow> bsys_inv s"
  by (simp add: bsys_init_def bsys0_def broadcaster_zero_def bsys_inv_def listed_inv_def queue_inv_def
      loop_inv_def result_inv_def open_in_def)

interpretation broadcast_machine: inductive_invariant broadcast_step bsys_init bsys_inv
  by unfold_locales (fact bsys_inv_init, fact bsys_inv_step)

fun outside :: "broadcast_event \<Rightarrow> bool" where
  "outside BrClose = False"
| "outside (BrBroadcast n) = False"
| "outside _ = True"

text \<open>Neither listeners nor the sends of a Broadcast start one or close the broadcaster.\<close>

lemma unlisten_frame:
  "br_loop (snd (unlisten_loop c kept ls f s)) = br_loop s"
  "bc_closed (br_bc (snd (unlisten_loop c kept ls f s))) = bc_closed (br_bc s)"
  by (induction c kept ls f s rule: unlisten_loop.induct) (simp_all add: set_listeners_def close_chan_def)

lemma channels_frame:
  assumes "outside e" "broadcast_step e s = Some t"
  shows "br_loop t \<noteq> None \<longrightarrow> br_loop s \<noteq> None" "bc_closed (br_bc t) = bc_closed (br_bc s)"
proof -
  have l: "broadcast_live e s = Some t" using assms(2) by (simp add: broadcast_step_def split: if_splits)
  have "(br_loop t \<noteq> None \<longrightarrow> br_loop s \<noteq> None) \<and> bc_closed (br_bc t) = bc_closed (br_bc s)"
  proof (cases e)
    case (BrListen n)
    with l show ?thesis by (auto simp: bc_Listen_def Let_def set_listeners_def bc_free_def split: if_splits)
  next
    case (BrUnlisten c)
    with l have "t = snd (unlisten_loop c [] (bc_listeners (br_bc s)) False s)" by (auto simp: bc_Unlisten_def split: if_splits)
    then show ?thesis by (simp add: unlisten_frame)
  next
    case BrDeliver
    with l show ?thesis by (auto simp: bc_deliver_def Let_def sent_to_def split: option.splits list.splits if_splits)
  next
    case (BrReceive c)
    with l show ?thesis
      by (auto simp: bc_receive_def Let_def sent_to_def split: option.splits list.splits if_splits prod.splits)
  qed (use assms(1) in simp_all)
  then show "br_loop t \<noteq> None \<longrightarrow> br_loop s \<noteq> None" "bc_closed (br_bc t) = bc_closed (br_bc s)" by blast+
qed

section \<open>A listener that does not receive\<close>

text \<open>
  Broadcast is about to send to \<open>c\<close>, whose buffer is full; only a receive from \<open>c\<close> helps.
\<close>

definition stalled :: "nat \<Rightarrow> bsys \<Rightarrow> bool" where
  "stalled c s \<longleftrightarrow> (\<exists>rest us n. br_loop s = Some (c # rest, us, n)) \<and> open_in c (br_chans s) \<and>
     bch_cap (br_chans s ! c) \<le> length (bch_queue (br_chans s ! c))"

definition step_without_receive :: "nat \<Rightarrow> broadcast_event \<Rightarrow> bsys \<Rightarrow> bsys option" where
  "step_without_receive c e s = (if e = BrReceive c then None else broadcast_step e s)"

lemma stalled_step:
  assumes "stalled c s" "step_without_receive c e s = Some t"
  shows "stalled c t \<and> br_log t = br_log s \<and> br_bc t = br_bc s \<or> br_panic t"
proof (cases e)
  case (BrReceive d)
  with assms show ?thesis
    by (auto simp: step_without_receive_def broadcast_step_def bc_receive_def Let_def stalled_def open_update open_in_def
        split: if_splits list.splits option.splits prod.splits)
qed (use assms in \<open>auto simp: step_without_receive_def broadcast_step_def stalled_def bc_free_def bc_Listen_def bc_Unlisten_def
    bc_Close_def bc_Broadcast_def bc_deliver_def Let_def open_in_def split: if_splits\<close>)

interpretation stall: trap "step_without_receive c" "\<lambda>s. bsys_inv s \<and> stalled c s \<and> br_log s = l \<and> br_bc s = b" for c l b
proof (unfold_locales, simp)
  fix s e t assume s: "bsys_inv s \<and> stalled c s \<and> br_log s = l \<and> br_bc s = b" and t: "step_without_receive c e s = Some t"
  from s t have "bsys_inv t" by (auto simp: step_without_receive_def split: if_splits intro: bsys_inv_step)
  with stalled_step [OF _ t] s show "bsys_inv t \<and> stalled c t \<and> br_log t = l \<and> br_bc t = b"
    by (auto simp: bsys_inv_def)
qed

lemma run_without:
  "BrReceive c \<notin> set es \<Longrightarrow> run broadcast_step s es = Some t \<Longrightarrow> run (step_without_receive c) s es = Some t"
  by (induction es arbitrary: s) (auto simp: step_without_receive_def split: option.splits)

section \<open>Listeners that receive\<close>

text \<open>The next listener empties its buffer and takes the update, and the loop goes on.\<close>

lemma head_goes:
  assumes "bsys_inv s" "br_loop s = Some (c # rest, us, n)"
  shows "\<exists>es t u. run broadcast_step s es = Some t \<and> set es \<subseteq> {BrReceive c, BrDeliver} \<and>
    br_loop t = (if rest = [] then None else Some (rest, us @ [u], n))"
  using assms
proof (induction "length (bch_queue (br_chans s ! c))" arbitrary: s)
  case 0
  from "0.prems" obtain ds where "bc_listeners (br_bc s) = ds @ c # rest" by (auto simp: bsys_inv_def loop_inv_def)
  then have o: "open_in c (br_chans s)" using "0.prems"(1) by (simp add: bsys_inv_def listed_inv_def)
  have p: "\<not> br_panic s" using "0.prems"(1) by (simp add: bsys_inv_def)
  let ?e = "if bch_cap (br_chans s ! c) = 0 then BrReceive c else BrDeliver"
  have "\<exists>t. broadcast_step ?e s = Some t \<and>
      br_loop t = (if rest = [] then None else Some (rest, us @ [length (br_updates s)], n))"
    using 0 o p by (simp add: broadcast_step_def bc_receive_def bc_deliver_def sent_to_def Let_def open_in_def)
  then obtain t where "run broadcast_step s [?e] = Some t"
      "br_loop t = (if rest = [] then None else Some (rest, us @ [length (br_updates s)], n))" by auto
  moreover have "set [?e] \<subseteq> {BrReceive c, BrDeliver}" by simp
  ultimately show ?case by blast
next
  case (Suc k)
  from Suc.prems obtain ds where "bc_listeners (br_bc s) = ds @ c # rest" by (auto simp: bsys_inv_def loop_inv_def)
  then have "open_in c (br_chans s)" using Suc.prems(1) by (simp add: bsys_inv_def listed_inv_def)
  then have o: "c < length (br_chans s)" by (simp add: open_in_def)
  obtain u q where q: "bch_queue (br_chans s ! c) = u # q" using Suc.hyps(2) by (cases "bch_queue (br_chans s ! c)") auto
  let ?s = "s\<lparr>br_chans := (br_chans s)[c := (br_chans s ! c)\<lparr>bch_queue := q, bch_got := bch_got (br_chans s ! c) @ [u]\<rparr>]\<rparr>"
  have st: "broadcast_step (BrReceive c) s = Some ?s"
    using o q Suc.prems(1) by (simp add: broadcast_step_def bc_receive_def bsys_inv_def Let_def)
  then have "bsys_inv ?s" by (rule bsys_inv_step [OF Suc.prems(1)])
  moreover have "k = length (bch_queue (br_chans ?s ! c))" "br_loop ?s = Some (c # rest, us, n)"
    using q o Suc.hyps(2) Suc.prems(2) by simp_all
  ultimately obtain es t v where "run broadcast_step ?s es = Some t" "set es \<subseteq> {BrReceive c, BrDeliver}"
    "br_loop t = (if rest = [] then None else Some (rest, us @ [v], n))" using Suc.hyps(1) by blast
  with st have "run broadcast_step s (BrReceive c # es) = Some t" "set (BrReceive c # es) \<subseteq> {BrReceive c, BrDeliver}"
    "br_loop t = (if rest = [] then None else Some (rest, us @ [v], n))" by simp_all
  then show ?case by blast
qed

lemma loop_ends:
  assumes "bsys_inv s" "br_loop s = Some (rest, us, n)"
  shows "\<exists>es t. run broadcast_step s es = Some t \<and> set es \<subseteq> insert BrDeliver (BrReceive ` set rest) \<and> br_loop t = None"
  using assms
proof (induction rest arbitrary: s us)
  case Nil
  then show ?case by (simp add: bsys_inv_def loop_inv_def)
next
  case (Cons c rest)
  obtain es t u where t: "run broadcast_step s es = Some t" "set es \<subseteq> {BrReceive c, BrDeliver}"
    "br_loop t = (if rest = [] then None else Some (rest, us @ [u], n))" using head_goes [OF Cons.prems] by blast
  show ?case
  proof (cases rest)
    case Nil
    with t show ?thesis by (intro exI [of _ es] exI [of _ t]) auto
  next
    case (Cons d ls)
    with t Cons.IH [OF broadcast_machine.run_inv [OF Cons.prems(1) t(1)], of "us @ [u]"]
    obtain fs v where "run broadcast_step t fs = Some v" "set fs \<subseteq> insert BrDeliver (BrReceive ` set rest)" "br_loop v = None"
      by auto
    with t(1,2) show ?thesis by (intro exI [of _ "es @ fs"] exI [of _ v]) (auto simp: run_append)
  qed
qed

section \<open>Properties\<close>



text \<open>
  A listener that has stopped to receive cannot get out: once Broadcast waits for its full
  channel, Unlisten of that channel waits for the mutex, and so do Close and every other
  listener, until somebody receives from the channel; nothing is delivered in the meantime.
\<close>

theorem stalled_listener_blocks_unlisten:
  assumes "reach broadcast_step bsys_init s" "stalled c s" "run broadcast_step s es = Some t" "BrReceive c \<notin> set es"
  shows "stalled c t \<and> br_log t = br_log s \<and> broadcast_step (BrUnlisten d) t = None \<and> broadcast_step BrClose t = None \<and>
     broadcast_step (BrListen n) t = None \<and> broadcast_step BrDeliver t = None"
proof -
  from assms(1) have "bsys_inv s" by (rule broadcast_machine.reach_inv)
  with stall.stays [of s c "br_log s" "br_bc s" es t] assms(2) run_without [OF assms(4,3)]
  have t: "stalled c t" "br_log t = br_log s" by auto
  then show ?thesis
    by (auto simp: broadcast_step_def stalled_def bc_Unlisten_def bc_Close_def bc_Listen_def bc_deliver_def bc_free_def
        open_in_def Let_def)
qed

theorem stalled_listener_blocks_unlisten_witness:
  "\<exists>s t. run broadcast_step bsys0 [BrListen 1, BrListen 1, BrBroadcast 5, BrDeliver, BrDeliver, BrBroadcast 5] = Some s \<and>
     run broadcast_step s [BrReceive 1, BrReceive 0, BrDeliver] \<noteq> None \<and>
     run broadcast_step s [BrReceive 1] = Some t \<and> broadcast_step (BrUnlisten 0) t = None \<and> broadcast_step BrClose t = None"
proof -
  note ev = bsys0_def broadcaster_zero_def broadcast_step_def bc_Listen_def bc_Unlisten_def bc_Broadcast_def bc_deliver_def
    bc_receive_def sent_to_def bc_free_def set_listeners_def close_chan_def Let_def stalled_def open_in_def
  obtain s t where r: "run broadcast_step bsys0 [BrListen 1, BrListen 1, BrBroadcast 5, BrDeliver, BrDeliver, BrBroadcast 5] = Some s"
    and t: "run broadcast_step s [BrReceive 1] = Some t" and f: "stalled 0 s" "run broadcast_step s [BrReceive 1, BrReceive 0, BrDeliver] \<noteq> None"
    by (simp add: ev)
  have "reach broadcast_step bsys_init s" by (rule run_reach [OF _ r]) (simp add: bsys_init_def)
  from stalled_listener_blocks_unlisten [OF this f(1) t] r t f show ?thesis by auto
qed

text \<open>
  Broadcast ends as soon as its listeners receive: from every reachable state with a
  Broadcast in its loop there is a continuation that consists of receives by the listeners that
  it has yet to serve and of its own sends, and ends with the mutex free.
\<close>

theorem broadcast_ends:
  assumes "reach broadcast_step bsys_init s" "br_loop s = Some (rest, us, n)"
  shows "\<exists>es t. run broadcast_step s es = Some t \<and> set es \<subseteq> insert BrDeliver (BrReceive ` set rest) \<and> bc_free t"
  using loop_ends [OF broadcast_machine.reach_inv [OF assms(1)] assms(2)] by (simp add: bc_free_def)

theorem broadcast_ends_witness:
  "\<exists>s es t. run broadcast_step bsys0 [BrListen 1, BrListen 0, BrBroadcast 5] = Some s \<and>
     run broadcast_step s es = Some t \<and> set es \<subseteq> {BrDeliver, BrReceive 0, BrReceive 1} \<and> bc_free t"
proof -
  obtain s where r: "run broadcast_step bsys0 [BrListen 1, BrListen 0, BrBroadcast 5] = Some s"
    and f: "br_loop s = Some ([0, 1], [], 5)"
    by (simp add: bsys0_def broadcaster_zero_def broadcast_step_def bc_Listen_def bc_Broadcast_def bc_free_def set_listeners_def Let_def)
  have "reach broadcast_step bsys_init s" by (rule run_reach [OF _ r]) (simp add: bsys_init_def)
  from broadcast_ends [OF this f] r show ?thesis by auto
qed

end
