(* ===== verification/Worker.thy ===== *)
theory Worker imports Broadcaster begin

text \<open>
  The polling source of the monitor (monitor/worker.go, monitor/utility.go): the connections of a
  domain, one round of Poll with its goroutines of compute, and the updates it fills.

  The updates of a round are states of the machine of theory Update, one per listener of the
  broadcaster; listeners go on using them while the round runs. A section between two waits,
  locks or remote calls is one event.
\<close>

section \<open>The connections of a domain\<close>

definition new_backlog :: "Group \<Rightarrow> string \<Rightarrow> string \<Rightarrow> Backlog" where
  "new_backlog g from_host to_host = \<lparr>b_Group = g, b_From = from_host, b_To = to_host, b_Folders = [],
     b_Call = Call_zero, b_Err = None\<rparr>"

definition connections :: "Domain \<Rightarrow> Backlog list" where
  "connections domain =
     fold (\<lambda>g output.
       fold (\<lambda>member output.
           (let to_host = co_Host (mi_Computer (m_MemberInfo member))
            in if to_host = [] then output
               else fold (\<lambda>conn output.
                      (let from_host = co_Host (cn_Computer conn)
                       in if from_host = [] then output
                          else if \<not> cn_Enabled conn then output
                          else output @ [new_backlog g from_host to_host])) (m_Connections member) output))
         (g_Members g) output) (d_Groups domain) []"

text \<open>A context is nil or has been cancelled or not.\<close>

definition cancelRequested :: "bool option \<Rightarrow> bool outcome" where
  "cancelRequested ctx = (case ctx of None \<Rightarrow> Panic ''nil context'' | Some cancelled \<Rightarrow> Ret cancelled)"

section \<open>State\<close>

datatype compute_pc =
    CpNew            \<comment> \<open>before the check of the context\<close>
  | CpCalling        \<comment> \<open>inside client.Backlog\<close>
  | CpSending nat    \<comment> \<open>about to send to the update of that number\<close>
  | CpDone
  | CpSkipped        \<comment> \<open>left because the context was cancelled\<close>

datatype poll_pc =
    PollBegin
  | PollSource
  | PollBuilt Domain
  | PollBroadcast Domain
  | PollStarting nat
  | PollComputed
  | PollSent time
  | PollEnding time nat
  | PollReturned

record wsys =
  w_pc :: poll_pc
  w_conns :: "Backlog list"
  w_updates :: "Backlog usys list"
  w_go :: "compute_pc list"
  w_computed :: int
  w_sent :: int
  w_start :: time
  w_now :: time
  w_cancelled :: bool
  w_panic :: bool

definition wsys0 :: wsys where
  "wsys0 = \<lparr>w_pc = PollBegin, w_conns = [], w_updates = [], w_go = [], w_computed = 0, w_sent = 0,
     w_start = 0, w_now = 0, w_cancelled = False, w_panic = False\<rparr>"

definition wsys_init :: "wsys \<Rightarrow> bool" where
  "wsys_init s \<longleftrightarrow> s = wsys0"

section \<open>Poll\<close>

text \<open>Up to the first check, and the source's answer with what follows it.\<close>

definition poll_check :: "wsys \<Rightarrow> wsys option" where
  "poll_check s =
     (case w_pc s of
        PollBegin \<Rightarrow> Some (s\<lparr>w_pc := (if w_cancelled s then PollReturned else PollSource)\<rparr>)
      | PollBuilt domain \<Rightarrow> Some (s\<lparr>w_pc := (if w_cancelled s then PollReturned else PollBroadcast domain)\<rparr>)
      | _ \<Rightarrow> None)"

definition poll_source :: "Domain \<Rightarrow> gerr option \<Rightarrow> wsys \<Rightarrow> wsys option" where
  "poll_source domain err s =
     (if w_pc s = PollSource
      then Some (if err \<noteq> None then s\<lparr>w_pc := PollReturned\<rparr>
                 else
                   (let conns = connections domain
                    in if length conns = 0 then s\<lparr>w_pc := PollReturned\<rparr>
                       else s\<lparr>w_pc := PollBuilt domain, w_conns := conns\<rparr>))
      else None)"

text \<open>
  The return of Broadcast, with as many updates as there were listeners, and the start of the
  goroutines.
\<close>

definition poll_broadcast :: "nat \<Rightarrow> wsys \<Rightarrow> wsys option" where
  "poll_broadcast listeners s =
     (case w_pc s of
        PollBroadcast domain \<Rightarrow>
          (let size0 = length (w_conns s)
           in Some (s\<lparr>w_pc := PollStarting 0, w_updates := replicate listeners (usys_new size0),
                      w_computed := int size0, w_sent := int size0, w_start := w_now s,
                      w_go := replicate size0 CpNew\<rparr>))
      | _ \<Rightarrow> None)"

definition set_update :: "nat \<Rightarrow> Backlog usys \<Rightarrow> wsys \<Rightarrow> wsys" where
  "set_update j u s = s\<lparr>w_updates := (w_updates s)[j := u], w_panic := (w_panic s \<or> us_panic u)\<rparr>"

definition poll_next :: "wsys \<Rightarrow> wsys option" where
  "poll_next s =
     (case w_pc s of
        PollStarting i \<Rightarrow>
          Some (if i < length (w_updates s)
                then set_update i ((w_updates s ! i)\<lparr>us_update := setStart (w_start s) (us_update (w_updates s ! i))\<rparr>)
                       (s\<lparr>w_pc := PollStarting (Suc i)\<rparr>)
                else s\<lparr>w_pc := PollComputed\<rparr>)
      | PollComputed \<Rightarrow> (if w_computed s = 0 then Some (s\<lparr>w_pc := PollSent (w_now s)\<rparr>) else None)
      | PollSent end0 \<Rightarrow> (if w_sent s = 0 then Some (s\<lparr>w_pc := PollEnding end0 0\<rparr>) else None)
      | PollEnding end0 i \<Rightarrow>
          Some (if i < length (w_updates s)
                then set_update i ((w_updates s ! i)\<lparr>us_update := setEnd end0 (us_update (w_updates s ! i))\<rparr>)
                       (s\<lparr>w_pc := PollEnding end0 (Suc i)\<rparr>)
                else s\<lparr>w_pc := PollReturned\<rparr>)
      | _ \<Rightarrow> None)"

section \<open>compute\<close>

definition computed_Done :: "wsys \<Rightarrow> wsys" where
  "computed_Done s = s\<lparr>w_computed := w_computed s - 1, w_panic := (w_panic s \<or> w_computed s \<le> 0)\<rparr>"

definition sent_Done :: "wsys \<Rightarrow> wsys" where
  "sent_Done s = s\<lparr>w_sent := w_sent s - 1, w_panic := (w_panic s \<or> w_sent s \<le> 0)\<rparr>"

definition go_at :: "nat \<Rightarrow> compute_pc \<Rightarrow> wsys \<Rightarrow> bool" where
  "go_at k pc s \<longleftrightarrow> k < length (w_go s) \<and> w_go s ! k = pc"

definition set_go :: "nat \<Rightarrow> compute_pc \<Rightarrow> wsys \<Rightarrow> wsys" where
  "set_go k pc s = s\<lparr>w_go := (w_go s)[k := pc]\<rparr>"

definition compute_check :: "nat \<Rightarrow> wsys \<Rightarrow> wsys option" where
  "compute_check k s =
     (if go_at k CpNew s
      then Some (if w_cancelled s then set_go k CpSkipped (sent_Done (computed_Done s)) else set_go k CpCalling s)
      else None)"

text \<open>The answer of client.Backlog: the counts are attached when there is one for each folder.\<close>

definition fill_backlog :: "goint list \<Rightarrow> Call \<Rightarrow> gerr option \<Rightarrow> Backlog \<Rightarrow> Backlog" where
  "fill_backlog values call err b =
     (let b1 = b\<lparr>b_Call := call, b_Err := err\<rparr>; folders = g_Folders (b_Group b)
      in if length values = length folders
         then b1\<lparr>b_Folders := map (\<lambda>(f, v). \<lparr>fb_Folder = f, fb_Backlog = v\<rparr>) (zip folders values)\<rparr>
         else b1)"

definition compute_return :: "nat \<Rightarrow> goint list \<Rightarrow> Call \<Rightarrow> gerr option \<Rightarrow> wsys \<Rightarrow> wsys option" where
  "compute_return k values call err s =
     (if go_at k CpCalling s
      then Some (set_go k (CpSending 0)
                   (computed_Done (s\<lparr>w_conns := (w_conns s)[k := fill_backlog values call err (w_conns s ! k)]\<rparr>)))
      else None)"

definition compute_send :: "nat \<Rightarrow> wsys \<Rightarrow> wsys option" where
  "compute_send k s =
     (if k < length (w_go s) then
        (case w_go s ! k of
           CpSending j \<Rightarrow>
             Some (if j < length (w_updates s)
                   then set_go k (CpSending (Suc j)) (set_update j (Update_send (w_conns s ! k) (w_updates s ! j)) s)
                   else set_go k CpDone (sent_Done s))
         | _ \<Rightarrow> None)
      else None)"

section \<open>The machine\<close>

datatype worker_event =
    WkCheck
  | WkSource Domain "gerr option"
  | WkBroadcast nat
  | WkNext
  | WkCompute nat
  | WkReturn nat "goint list" Call "gerr option"
  | WkSend nat
  | WkCancel
  | WkTick time
  | WkListener nat "Backlog update_event"

text \<open>What the listeners, and the goroutines of an update, do on their own.\<close>

fun listener_event :: "'b update_event \<Rightarrow> bool" where
  "listener_event UpListen = True"
| "listener_event (UpGo k) = True"
| "listener_event (UpReceive c) = True"
| "listener_event e = False"

definition worker_listener :: "nat \<Rightarrow> Backlog update_event \<Rightarrow> wsys \<Rightarrow> wsys option" where
  "worker_listener j e s =
     (if j < length (w_updates s) \<and> listener_event e
      then map_option (\<lambda>u. set_update j u s) (update_step e (w_updates s ! j)) else None)"

fun worker_live :: "worker_event \<Rightarrow> wsys \<Rightarrow> wsys option" where
  "worker_live WkCheck s = poll_check s"
| "worker_live (WkSource domain err) s = poll_source domain err s"
| "worker_live (WkBroadcast n) s = poll_broadcast n s"
| "worker_live WkNext s = poll_next s"
| "worker_live (WkCompute k) s = compute_check k s"
| "worker_live (WkReturn k values call err) s = compute_return k values call err s"
| "worker_live (WkSend k) s = compute_send k s"
| "worker_live WkCancel s = Some (s\<lparr>w_cancelled := True\<rparr>)"
| "worker_live (WkTick t) s = (if w_now s \<le> t then Some (s\<lparr>w_now := t\<rparr>) else None)"
| "worker_live (WkListener j e) s = worker_listener j e s"

definition worker_step :: "worker_event \<Rightarrow> wsys \<Rightarrow> wsys option" where
  "worker_step e s = (if w_panic s then None else worker_live e s)"

section \<open>Which connections are polled\<close>

text \<open>The same list without the accumulator.\<close>

definition polled :: "Group \<Rightarrow> Member \<Rightarrow> Connection \<Rightarrow> bool" where
  "polled g m c \<longleftrightarrow> co_Host (mi_Computer (m_MemberInfo m)) \<noteq> [] \<and> co_Host (cn_Computer c) \<noteq> [] \<and> cn_Enabled c"

definition polled_list :: "Domain \<Rightarrow> Backlog list" where
  "polled_list d =
     concat (map (\<lambda>g. concat (map (\<lambda>m.
       map (\<lambda>c. new_backlog g (co_Host (cn_Computer c)) (co_Host (mi_Computer (m_MemberInfo m))))
         (filter (polled g m) (m_Connections m))) (g_Members g))) (d_Groups d))"

lemma fold_filter: "fold (\<lambda>x out. if P x then out else if Q x then out else out @ [f x]) xs out =
    out @ map f (filter (\<lambda>x. \<not> P x \<and> \<not> Q x) xs)"
  by (induction xs arbitrary: out) auto

lemma fold_concat: "(\<And>x out. F x out = out @ f x) \<Longrightarrow> fold F xs out = out @ concat (map f xs)"
  by (induction xs arbitrary: out) auto

lemma connections_polled: "connections d = polled_list d"
proof -
  have m: "(let to_host = co_Host (mi_Computer (m_MemberInfo m))
      in if to_host = [] then out
         else fold (\<lambda>conn out.
                (let from_host = co_Host (cn_Computer conn)
                 in if from_host = [] then out
                    else if \<not> cn_Enabled conn then out
                    else out @ [new_backlog g from_host to_host])) (m_Connections m) out) =
    out @ map (\<lambda>c. new_backlog g (co_Host (cn_Computer c)) (co_Host (mi_Computer (m_MemberInfo m))))
         (filter (polled g m) (m_Connections m))" for g m "out"
    by (auto simp: Let_def fold_filter polled_def intro!: arg_cong [of _ _ "map _"] filter_cong)
  show ?thesis
    unfolding connections_def polled_list_def m
    by (subst fold_concat [of _ "\<lambda>g. concat (map (\<lambda>m.
       map (\<lambda>c. new_backlog g (co_Host (cn_Computer c)) (co_Host (mi_Computer (m_MemberInfo m))))
         (filter (polled g m) (m_Connections m))) (g_Members g))"])
      (auto intro!: fold_concat)
qed

section \<open>The invariant of a round\<close>

fun past :: "nat \<Rightarrow> compute_pc \<Rightarrow> bool" where
  "past j (CpSending i) = (j < i)"
| "past j CpDone = True"
| "past j _ = False"

fun computing :: "compute_pc \<Rightarrow> bool" where
  "computing CpNew = True"
| "computing CpCalling = True"
| "computing _ = False"

fun active :: "compute_pc \<Rightarrow> bool" where
  "active CpDone = False"
| "active CpSkipped = False"
| "active _ = True"

text \<open>The values that update \<open>j\<close> has got are those of the goroutines that are past it.\<close>

definition wupdate_ok :: "nat \<Rightarrow> Backlog list \<Rightarrow> compute_pc list \<Rightarrow> nat \<Rightarrow> Backlog usys \<Rightarrow> bool" where
  "wupdate_ok n conns gs j u \<longleftrightarrow> reach update_step (update_init n) u \<and> \<not> us_panic u \<and> \<not> up_canceled (us_update u) \<and>
     mset (up_values (us_update u)) = image_mset (\<lambda>k. conns ! k) (filter_mset (\<lambda>k. past j (gs ! k)) (mset_set {..<n}))"

text \<open>How many of the updates have their start and their end.\<close>

fun starts_done :: "poll_pc \<Rightarrow> nat \<Rightarrow> nat" where
  "starts_done (PollStarting i) m = i"
| "starts_done PollComputed m = m"
| "starts_done (PollSent t) m = m"
| "starts_done (PollEnding t i) m = m"
| "starts_done PollReturned m = m"
| "starts_done _ m = 0"

fun ends_done :: "poll_pc \<Rightarrow> nat \<Rightarrow> nat" where
  "ends_done (PollEnding t i) m = i"
| "ends_done PollReturned m = m"
| "ends_done _ m = 0"

definition times_ok :: "poll_pc \<Rightarrow> Backlog usys list \<Rightarrow> bool" where
  "times_ok pc us \<longleftrightarrow> starts_done pc (length us) \<le> length us \<and> ends_done pc (length us) \<le> length us \<and>
     (\<forall>j < length us. up_started (us_update (us ! j)) = (if j < starts_done pc (length us) then 0 else 1) \<and>
        up_ended (us_update (us ! j)) = (if j < ends_done pc (length us) then 0 else 1))"

text \<open>Before Broadcast there are neither goroutines nor updates.\<close>

fun before :: "poll_pc \<Rightarrow> bool" where
  "before PollBegin = True"
| "before PollSource = True"
| "before (PollBuilt d) = True"
| "before (PollBroadcast d) = True"
| "before _ = False"

fun waited :: "poll_pc \<Rightarrow> int \<Rightarrow> int \<Rightarrow> bool" where
  "waited (PollSent t) computed sent = (computed = 0)"
| "waited (PollEnding t i) computed sent = (computed = 0 \<and> sent = 0)"
| "waited PollReturned computed sent = (computed = 0 \<and> sent = 0)"
| "waited _ computed sent = True"

definition counts_ok :: "poll_pc \<Rightarrow> compute_pc list \<Rightarrow> int \<Rightarrow> int \<Rightarrow> bool" where
  "counts_ok pc gs computed sent \<longleftrightarrow> computed = int (howmany computing gs) \<and> sent = int (howmany active gs) \<and>
     waited pc computed sent"

definition updates_ok :: "poll_pc \<Rightarrow> Backlog list \<Rightarrow> compute_pc list \<Rightarrow> Backlog usys list \<Rightarrow> bool" where
  "updates_ok pc conns gs us \<longleftrightarrow> (before pc \<longrightarrow> gs = [] \<and> us = []) \<and> (us \<noteq> [] \<longrightarrow> length gs = length conns) \<and>
     length gs \<le> length conns \<and> (\<forall>j < length us. wupdate_ok (length conns) conns gs j (us ! j))"

definition round_inv :: "wsys \<Rightarrow> bool" where
  "round_inv s \<longleftrightarrow> \<not> w_panic s \<and> counts_ok (w_pc s) (w_go s) (w_computed s) (w_sent s) \<and>
     updates_ok (w_pc s) (w_conns s) (w_go s) (w_updates s) \<and> times_ok (w_pc s) (w_updates s)"

lemma wupdate_okD:
  assumes "wupdate_ok n conns gs j u"
  shows "up_size (us_update u) = n" "up_remaining (us_update u) = int n - int (length (up_values (us_update u)))"
    "up_received (us_update u) = up_remaining (us_update u)" "0 \<le> up_remaining (us_update u)"
    "length (up_values (us_update u)) = card {k. k < n \<and> past j (gs ! k)}"
proof -
  have inv: "update_inv n u" and nc: "\<not> up_canceled (us_update u)" and m: "mset (up_values (us_update u)) =
      image_mset (\<lambda>k. conns ! k) (filter_mset (\<lambda>k. past j (gs ! k)) (mset_set {..<n}))"
    using assms update_machine.reach_inv by (auto simp: wupdate_ok_def)
  then show "up_size (us_update u) = n" "up_remaining (us_update u) = int n - int (length (up_values (us_update u)))"
    "up_received (us_update u) = up_remaining (us_update u)" "0 \<le> up_remaining (us_update u)"
    by (auto simp: update_inv_def count_inv_def)
  have "length (up_values (us_update u)) = size (filter_mset (\<lambda>k. past j (gs ! k)) (mset_set {..<n}))"
    using arg_cong [OF m, of size] by simp
  also have "\<dots> = card {k \<in> {..<n}. past j (gs ! k)}" by (simp add: filter_mset_mset_set)
  finally show "length (up_values (us_update u)) = card {k. k < n \<and> past j (gs ! k)}" by (simp add: lessThan_def)
qed

text \<open>Steps of the round that leave an update alone, and the ones that send to it.\<close>

lemma wupdate_ok_cong:
  assumes "wupdate_ok n conns gs j u" "\<And>k. k < n \<Longrightarrow> past j (gs' ! k) = past j (gs ! k)"
    "\<And>k. k < n \<Longrightarrow> past j (gs ! k) \<Longrightarrow> conns' ! k = conns ! k"
  shows "wupdate_ok n conns' gs' j u"
proof -
  have "filter_mset (\<lambda>k. past j (gs' ! k)) (mset_set {..<n}) = filter_mset (\<lambda>k. past j (gs ! k)) (mset_set {..<n})"
    using assms(2) by (intro filter_mset_cong) auto
  moreover have "image_mset ((!) conns') (filter_mset (\<lambda>k. past j (gs ! k)) (mset_set {..<n})) =
     image_mset ((!) conns) (filter_mset (\<lambda>k. past j (gs ! k)) (mset_set {..<n}))"
    using assms(3) by (intro image_mset_cong) auto
  ultimately show ?thesis using assms(1) by (simp add: wupdate_ok_def)
qed

lemma wupdate_ok_step:
  assumes "wupdate_ok n conns gs j u" "update_step e u = Some v" "listener_event e"
  shows "wupdate_ok n conns gs j v" "up_started (us_update v) = up_started (us_update u)"
    "up_ended (us_update v) = up_ended (us_update u)"
proof -
  have same: "up_values (us_update v) = up_values (us_update u)" "up_canceled (us_update v) = up_canceled (us_update u)"
    "up_started (us_update v) = up_started (us_update u)" "up_ended (us_update v) = up_ended (us_update u)"
    using assms(2,3)
    by (cases e; cases "case e of UpGo k \<Rightarrow> us_pending u ! k | _ \<Rightarrow> GoCancel 0 0";
        auto simp: update_step_def Update_Listen_def append_listener_def Let_def listener_send_def listener_cancel_def
          set_cell_def set_chan_def split: if_splits option.splits)+
  then show "up_started (us_update v) = up_started (us_update u)" "up_ended (us_update v) = up_ended (us_update u)" by blast+
  have r: "reach update_step (update_init n) u" and nc: "\<not> up_canceled (us_update u)" and np: "\<not> us_panic u"
    using assms(1) by (auto simp: wupdate_ok_def)
  have "\<not> us_panic v"
  proof (cases e)
    case (UpGo k)
    with assms(2) have "k < length (us_pending u)" by (auto simp: update_step_def split: if_splits)
    from update_delivers_step [OF r nc np this] UpGo assms(2) show ?thesis by auto
  qed (use assms(2,3) np in \<open>auto simp: update_step_def Update_Listen_def append_listener_def Let_def set_chan_def
      split: if_splits option.splits\<close>)
  with assms(1) same reach_step [OF r assms(2)] show "wupdate_ok n conns gs j v" by (simp add: wupdate_ok_def)
qed

lemma wupdate_ok_time:
  assumes "wupdate_ok n conns gs j u"
  shows "wupdate_ok n conns gs j (u\<lparr>us_update := setStart t (us_update u)\<rparr>)"
    "wupdate_ok n conns gs j (u\<lparr>us_update := setEnd t (us_update u)\<rparr>)"
proof -
  have "update_step (UpSetStart t) u = Some (u\<lparr>us_update := setStart t (us_update u)\<rparr>)"
    "update_step (UpSetEnd t) u = Some (u\<lparr>us_update := setEnd t (us_update u)\<rparr>)"
    using assms by (simp_all add: update_step_def wupdate_ok_def)
  with assms show "wupdate_ok n conns gs j (u\<lparr>us_update := setStart t (us_update u)\<rparr>)"
    "wupdate_ok n conns gs j (u\<lparr>us_update := setEnd t (us_update u)\<rparr>)"
    by (auto simp: wupdate_ok_def setStart_def setEnd_def intro: reach_step)
qed

lemma filter_one_more:
  fixes n :: nat
  assumes "k < n" "\<not> P k" "\<And>i. i \<noteq> k \<Longrightarrow> Q i = P i" "Q k"
  shows "filter_mset Q (mset_set {..<n}) = add_mset k (filter_mset P (mset_set {..<n}))"
proof -
  have "{i \<in> {..<n}. Q i} = insert k {i \<in> {..<n}. P i}"
  proof (rule set_eqI)
    fix i show "i \<in> {i \<in> {..<n}. Q i} \<longleftrightarrow> i \<in> insert k {i \<in> {..<n}. P i}"
      using assms by (cases "i = k") simp_all
  qed
  with assms(2) show ?thesis by (simp add: filter_mset_mset_set)
qed

lemma wupdate_ok_send:
  assumes "wupdate_ok n conns gs j u" "k < n" "length gs = n" "gs ! k = CpSending j"
  shows "wupdate_ok n conns (gs[k := CpSending (Suc j)]) j (Update_send (conns ! k) u)"
    "up_started (us_update (Update_send (conns ! k) u)) = up_started (us_update u)"
    "up_ended (us_update (Update_send (conns ! k) u)) = up_ended (us_update u)"
proof -
  have np: "\<not> us_panic u" and nc: "\<not> up_canceled (us_update u)" and r: "reach update_step (update_init n) u"
    using assms(1) by (auto simp: wupdate_ok_def)
  have "k \<in> {..<n}" "k \<notin> {i. i < n \<and> past j (gs ! i)}" using assms(2,4) by simp_all
  then have "{i. i < n \<and> past j (gs ! i)} \<subset> {..<n}" by blast
  then have "card {i. i < n \<and> past j (gs ! i)} < card {..<n}" by (intro psubset_card_mono) simp_all
  then have rem: "up_remaining (us_update u) \<noteq> 0" using wupdate_okD [OF assms(1)] by simp
  show "up_started (us_update (Update_send (conns ! k) u)) = up_started (us_update u)"
    "up_ended (us_update (Update_send (conns ! k) u)) = up_ended (us_update u)"
    by (simp_all add: Update_send_def Let_def)
  have "update_step (UpSend (conns ! k)) u = Some (Update_send (conns ! k) u)" using np by (simp add: update_step_def)
  then have r': "reach update_step (update_init n) (Update_send (conns ! k) u)" by (rule reach_step [OF r])
  have "filter_mset (\<lambda>i. past j (gs[k := CpSending (Suc j)] ! i)) (mset_set {..<n}) =
      add_mset k (filter_mset (\<lambda>i. past j (gs ! i)) (mset_set {..<n}))"
    using assms(2-4) by (intro filter_one_more) auto
  moreover have "up_values (us_update (Update_send (conns ! k) u)) = up_values (us_update u) @ [conns ! k]"
    "\<not> us_panic (Update_send (conns ! k) u)" "\<not> up_canceled (us_update (Update_send (conns ! k) u))"
    using nc rem np by (simp_all add: Update_send_def Let_def)
  ultimately show "wupdate_ok n conns (gs[k := CpSending (Suc j)]) j (Update_send (conns ! k) u)"
    using assms(1) r' by (simp add: wupdate_ok_def)
qed

lemma wupdate_ok_new: "wupdate_ok n conns (replicate n CpNew) j (usys_new n)"
proof -
  have "filter_mset (\<lambda>k. past j (replicate n CpNew ! k)) (mset_set {..<n}) = {#}"
    by (simp add: filter_mset_eq_mempty_iff del: filter_mset_mset_set)
  moreover have "reach update_step (update_init n) (usys_new n)" by (rule reach_init) (simp add: update_init_def)
  ultimately show ?thesis by (simp add: wupdate_ok_def usys_new_def newUpdate_def)
qed

section \<open>Every step keeps the invariant\<close>

lemma round_updates:
  "round_inv s \<Longrightarrow> j < length (w_updates s) \<Longrightarrow> wupdate_ok (length (w_conns s)) (w_conns s) (w_go s) j (w_updates s ! j)"
  by (simp add: round_inv_def updates_ok_def)

lemma updates_ok_set:
  assumes "updates_ok pc conns gs us" "j < length us" "wupdate_ok (length conns) conns gs j v"
  shows "updates_ok pc conns gs (us[j := v])"
  using assms by (simp add: updates_ok_def nth_list_update)

lemma times_ok_set:
  assumes t: "times_ok pc us" and v: "up_started (us_update v) = up_started (us_update (us ! j))"
    "up_ended (us_update v) = up_ended (us_update (us ! j))"
  shows "times_ok pc (us[j := v])"
  unfolding times_ok_def length_list_update
proof (intro conjI allI impI)
  fix i assume i: "i < length us"
  show "up_started (us_update (us[j := v] ! i)) = (if i < starts_done pc (length us) then 0 else 1)"
    "up_ended (us_update (us[j := v] ! i)) = (if i < ends_done pc (length us) then 0 else 1)"
    using t v i by (cases "i = j"; simp add: times_ok_def)+
qed (use t in \<open>simp_all add: times_ok_def\<close>)

lemma inv_set_update:
  assumes inv: "round_inv s" and j: "j < length (w_updates s)"
    and v: "wupdate_ok (length (w_conns s)) (w_conns s) (w_go s) j v"
    and pc: "counts_ok pc (w_go s) (w_computed s) (w_sent s)" "updates_ok pc (w_conns s) (w_go s) (w_updates s)"
      "times_ok pc ((w_updates s)[j := v])"
  shows "round_inv (set_update j v (s\<lparr>w_pc := pc\<rparr>))"
proof -
  have "\<not> us_panic v" using v by (simp add: wupdate_ok_def)
  with inv pc updates_ok_set [OF pc(2) j v] show ?thesis by (simp add: round_inv_def set_update_def)
qed

lemma inv_listener:
  assumes inv: "round_inv s" and t: "worker_listener j e s = Some t"
  shows "round_inv t"
proof -
  obtain v where v: "j < length (w_updates s)" "listener_event e" "update_step e (w_updates s ! j) = Some v" "t = set_update j v s"
    using t by (auto simp: worker_listener_def split: if_splits)
  note u = wupdate_ok_step [OF round_updates [OF inv v(1)] v(3,2)]
  have "times_ok (w_pc s) ((w_updates s)[j := v])"
    using inv u(2,3) by (auto simp: round_inv_def intro: times_ok_set)
  with inv_set_update [OF inv v(1) u(1), of "w_pc s"] inv v(4) show ?thesis by (simp add: round_inv_def)
qed

lemma inv_check:
  assumes "round_inv s" "poll_check s = Some t"
  shows "round_inv t"
  using assms by (cases "w_pc s") (auto simp: poll_check_def round_inv_def times_ok_def counts_ok_def updates_ok_def)

lemma inv_source: "round_inv s \<Longrightarrow> poll_source d err s = Some t \<Longrightarrow> round_inv t"
  by (auto simp: poll_source_def round_inv_def times_ok_def counts_ok_def updates_ok_def Let_def split: if_splits)

lemma wk_inv_broadcast:
  assumes inv: "round_inv s" and t: "poll_broadcast m s = Some t"
  shows "round_inv t"
proof -
  let ?n = "length (w_conns s)"
  have t: "t = s\<lparr>w_pc := PollStarting 0, w_updates := replicate m (usys_new ?n), w_computed := int ?n, w_sent := int ?n,
      w_start := w_now s, w_go := replicate ?n CpNew\<rparr>"
    using t by (cases "w_pc s") (simp_all add: poll_broadcast_def Let_def)
  have "updates_ok (PollStarting 0) (w_conns s) (replicate ?n CpNew) (replicate m (usys_new ?n))"
    using wupdate_ok_new by (simp add: updates_ok_def)
  moreover have "times_ok (PollStarting 0) (replicate m (usys_new ?n))"
    by (simp add: times_ok_def usys_new_def newUpdate_def)
  moreover have "counts_ok (PollStarting 0) (replicate ?n CpNew) (int ?n) (int ?n)" by (simp add: counts_ok_def)
  ultimately show ?thesis using inv by (simp add: t round_inv_def)
qed

lemma inv_start_update:
  assumes inv: "round_inv s" and pc: "w_pc s = PollStarting i" and i: "i < length (w_updates s)"
  shows "round_inv (set_update i ((w_updates s ! i)\<lparr>us_update := setStart x (us_update (w_updates s ! i))\<rparr>)
    (s\<lparr>w_pc := PollStarting (Suc i)\<rparr>))"
proof (rule inv_set_update [OF inv i wupdate_ok_time(1) [OF round_updates [OF inv i]]])
  show "counts_ok (PollStarting (Suc i)) (w_go s) (w_computed s) (w_sent s)"
    "updates_ok (PollStarting (Suc i)) (w_conns s) (w_go s) (w_updates s)"
    using inv pc by (simp_all add: round_inv_def counts_ok_def updates_ok_def)
  have "times_ok (PollStarting i) (w_updates s)" using inv pc by (simp add: round_inv_def)
  with i show "times_ok (PollStarting (Suc i)) ((w_updates s)[i := (w_updates s ! i)\<lparr>us_update := setStart x (us_update (w_updates s ! i))\<rparr>])"
    by (auto simp: times_ok_def nth_list_update setStart_def)
qed

lemma inv_end_update:
  assumes inv: "round_inv s" and pc: "w_pc s = PollEnding x i" and i: "i < length (w_updates s)"
  shows "round_inv (set_update i ((w_updates s ! i)\<lparr>us_update := setEnd x (us_update (w_updates s ! i))\<rparr>)
    (s\<lparr>w_pc := PollEnding x (Suc i)\<rparr>))"
proof (rule inv_set_update [OF inv i wupdate_ok_time(2) [OF round_updates [OF inv i]]])
  show "counts_ok (PollEnding x (Suc i)) (w_go s) (w_computed s) (w_sent s)"
    "updates_ok (PollEnding x (Suc i)) (w_conns s) (w_go s) (w_updates s)"
    using inv pc by (simp_all add: round_inv_def counts_ok_def updates_ok_def)
  have "times_ok (PollEnding x i) (w_updates s)" using inv pc by (simp add: round_inv_def)
  with i show "times_ok (PollEnding x (Suc i)) ((w_updates s)[i := (w_updates s ! i)\<lparr>us_update := setEnd x (us_update (w_updates s ! i))\<rparr>])"
    by (auto simp: times_ok_def nth_list_update setEnd_def)
qed

lemma inv_next:
  assumes inv: "round_inv s" and t: "poll_next s = Some t"
  shows "round_inv t"
proof (cases "w_pc s")
  case (PollStarting i)
  show ?thesis
  proof (cases "i < length (w_updates s)")
    case True
    with PollStarting t inv_start_update [OF inv PollStarting True, of "w_start s"] show ?thesis by (simp add: poll_next_def)
  next
    case False
    have "times_ok (PollStarting i) (w_updates s)" using inv PollStarting by (simp add: round_inv_def)
    with False have "times_ok PollComputed (w_updates s)" by (auto simp: times_ok_def)
    moreover have "t = s\<lparr>w_pc := PollComputed\<rparr>" using False PollStarting t by (simp add: poll_next_def)
    ultimately show ?thesis using PollStarting inv by (simp add: round_inv_def counts_ok_def updates_ok_def)
  qed
next
  case (PollEnding x i)
  show ?thesis
  proof (cases "i < length (w_updates s)")
    case True
    with PollEnding t inv_end_update [OF inv PollEnding True] show ?thesis by (simp add: poll_next_def)
  next
    case False
    have "times_ok (PollEnding x i) (w_updates s)" using inv PollEnding by (simp add: round_inv_def)
    with False have "times_ok PollReturned (w_updates s)" by (auto simp: times_ok_def)
    moreover have "t = s\<lparr>w_pc := PollReturned\<rparr>" using False PollEnding t by (simp add: poll_next_def)
    ultimately show ?thesis using PollEnding inv by (simp add: round_inv_def counts_ok_def updates_ok_def)
  qed
qed (use inv t in \<open>auto simp: poll_next_def round_inv_def times_ok_def counts_ok_def updates_ok_def split: if_splits\<close>)

text \<open>The steps of the goroutine of a connection.\<close>

lemma counts_ok_go:
  assumes "counts_ok pc gs c d" "k < length gs" "computing g \<longrightarrow> computing (gs ! k)" "active g \<longrightarrow> active (gs ! k)"
    "c' = c - (if computing (gs ! k) \<and> \<not> computing g then 1 else 0)"
    "d' = d - (if active (gs ! k) \<and> \<not> active g then 1 else 0)"
  shows "counts_ok pc (gs[k := g]) c' d'"
proof -
  have c: "c' = int (howmany computing (gs[k := g]))" "d' = int (howmany active (gs[k := g]))"
    using howmany_update [OF assms(2), of computing g] howmany_update [OF assms(2), of active g] assms
    by (auto simp: counts_ok_def split: if_splits)
  moreover have "0 \<le> c'" "0 \<le> d'" using c by simp_all
  moreover have "c' \<le> c" "d' \<le> d" using assms(5,6) by simp_all
  ultimately show ?thesis using assms(1) by (cases pc) (auto simp: counts_ok_def)
qed

lemma updates_ok_go:
  assumes "updates_ok pc conns gs us" "k < length gs"
    and g: "\<And>j. j < length us \<Longrightarrow> past j g = past j (gs ! k)"
    and cs: "length cs = length conns" "\<And>i. i \<noteq> k \<Longrightarrow> cs ! i = conns ! i" "\<And>j. past j (gs ! k) \<Longrightarrow> cs ! k = conns ! k"
  shows "updates_ok pc cs (gs[k := g]) us"
proof -
  have "wupdate_ok (length cs) cs (gs[k := g]) j (us ! j)" if j: "j < length us" for j
    unfolding cs(1)
  proof (rule wupdate_ok_cong)
    show "wupdate_ok (length conns) conns gs j (us ! j)" using assms(1) j by (simp add: updates_ok_def)
    fix i
    show "past j (gs[k := g] ! i) = past j (gs ! i)" using g [OF j] assms(2) by (simp add: nth_list_update)
    assume "past j (gs ! i)"
    then show "cs ! i = conns ! i" using cs(2,3) by (cases "i = k") auto
  qed
  with assms(1,2) cs(1) show ?thesis by (auto simp: updates_ok_def)
qed

lemma counts_pos:
  assumes "counts_ok pc gs c d" "k < length gs"
  shows "computing (gs ! k) \<Longrightarrow> 0 < c" "active (gs ! k) \<Longrightarrow> 0 < d"
  using assms howmany_pos [OF assms(2)] by (auto simp: counts_ok_def)

lemma inv_compute_check:
  assumes inv: "round_inv s" and t: "compute_check k s = Some t"
  shows "round_inv t"
proof -
  have k: "k < length (w_go s)" "w_go s ! k = CpNew" using t by (auto simp: compute_check_def go_at_def split: if_splits)
  have c: "counts_ok (w_pc s) (w_go s) (w_computed s) (w_sent s)" "updates_ok (w_pc s) (w_conns s) (w_go s) (w_updates s)"
    using inv by (auto simp: round_inv_def)
  have u: "updates_ok (w_pc s) (w_conns s) ((w_go s)[k := g]) (w_updates s)" if "g = CpSkipped \<or> g = CpCalling" for g
    using k that by (intro updates_ok_go [OF c(2)]) auto
  have n: "counts_ok (w_pc s) ((w_go s)[k := CpSkipped]) (w_computed s - 1) (w_sent s - 1)"
    "counts_ok (w_pc s) ((w_go s)[k := CpCalling]) (w_computed s) (w_sent s)"
    using k by (intro counts_ok_go [OF c(1)]; simp)+
  show ?thesis
    using t k inv u n counts_pos [OF c(1) k(1)]
    by (cases "w_cancelled s") (auto simp: compute_check_def go_at_def set_go_def sent_Done_def computed_Done_def round_inv_def)
qed

lemma inv_return:
  assumes inv: "round_inv s" and t: "compute_return k vs call err s = Some t"
  shows "round_inv t"
proof -
  have k: "k < length (w_go s)" "w_go s ! k = CpCalling" using t by (auto simp: compute_return_def go_at_def split: if_splits)
  have c: "counts_ok (w_pc s) (w_go s) (w_computed s) (w_sent s)" "updates_ok (w_pc s) (w_conns s) (w_go s) (w_updates s)"
    using inv by (auto simp: round_inv_def)
  have "updates_ok (w_pc s) ((w_conns s)[k := b]) ((w_go s)[k := CpSending 0]) (w_updates s)" for b
    using k by (intro updates_ok_go [OF c(2)]) auto
  moreover have "counts_ok (w_pc s) ((w_go s)[k := CpSending 0]) (w_computed s - 1) (w_sent s)"
    using k by (intro counts_ok_go [OF c(1)]) auto
  ultimately show ?thesis
    using t k inv counts_pos [OF c(1) k(1)]
    by (auto simp: compute_return_def go_at_def set_go_def computed_Done_def round_inv_def)
qed

lemma inv_send_done:
  assumes inv: "round_inv s" and k: "k < length (w_go s)" "w_go s ! k = CpSending j" "length (w_updates s) \<le> j"
  shows "round_inv (set_go k CpDone (sent_Done s))"
proof -
  have c: "counts_ok (w_pc s) (w_go s) (w_computed s) (w_sent s)" "updates_ok (w_pc s) (w_conns s) (w_go s) (w_updates s)"
    using inv by (auto simp: round_inv_def)
  have "updates_ok (w_pc s) (w_conns s) ((w_go s)[k := CpDone]) (w_updates s)"
    using k by (intro updates_ok_go [OF c(2)]) auto
  moreover have "counts_ok (w_pc s) ((w_go s)[k := CpDone]) (w_computed s) (w_sent s - 1)"
    using k by (intro counts_ok_go [OF c(1)]) auto
  ultimately show ?thesis
    using k inv counts_pos [OF c(1) k(1)] by (auto simp: set_go_def sent_Done_def round_inv_def)
qed

lemma inv_send_next:
  assumes inv: "round_inv s" and k: "k < length (w_go s)" "w_go s ! k = CpSending j" "j < length (w_updates s)"
  shows "round_inv (set_go k (CpSending (Suc j)) (set_update j (Update_send (w_conns s ! k) (w_updates s ! j)) s))"
proof -
  let ?v = "Update_send (w_conns s ! k) (w_updates s ! j)" and ?gs = "(w_go s)[k := CpSending (Suc j)]"
  have c: "counts_ok (w_pc s) (w_go s) (w_computed s) (w_sent s)" "updates_ok (w_pc s) (w_conns s) (w_go s) (w_updates s)"
    "times_ok (w_pc s) (w_updates s)"
    using inv by (auto simp: round_inv_def)
  have n: "length (w_go s) = length (w_conns s)" using c(2) k(3) by (auto simp: updates_ok_def)
  note v = wupdate_ok_send [OF round_updates [OF inv k(3)] k(1) [unfolded n] n k(2)]
  have o: "wupdate_ok (length (w_conns s)) (w_conns s) ?gs i (w_updates s ! i)" if "i < length (w_updates s)" "i \<noteq> j" for i
    using round_updates [OF inv that(1)] by (rule wupdate_ok_cong) (use k that(2) in \<open>auto simp: nth_list_update\<close>)
  have "updates_ok (w_pc s) (w_conns s) ?gs ((w_updates s)[j := ?v])"
    using c(2) v(1) o k(1,3) by (auto simp: updates_ok_def nth_list_update)
  moreover have "counts_ok (w_pc s) ?gs (w_computed s) (w_sent s)"
    using k by (intro counts_ok_go [OF c(1)]) auto
  moreover have "times_ok (w_pc s) ((w_updates s)[j := ?v])" using c(3) v(2,3) by (rule times_ok_set)
  moreover have "\<not> us_panic ?v" using v(1) by (simp add: wupdate_ok_def)
  ultimately show ?thesis using inv by (simp add: set_go_def set_update_def round_inv_def)
qed

lemma wk_inv_send:
  assumes inv: "round_inv s" and t: "compute_send k s = Some t"
  shows "round_inv t"
proof -
  obtain j where k: "k < length (w_go s)" "w_go s ! k = CpSending j"
    using t by (auto simp: compute_send_def split: if_splits compute_pc.splits)
  with t inv_send_done [OF inv k] inv_send_next [OF inv k] show ?thesis
    by (cases "j < length (w_updates s)") (auto simp: compute_send_def)
qed

lemma round_inv_step:
  assumes inv: "round_inv s" and st: "worker_step e s = Some t"
  shows "round_inv t"
proof -
  have l: "worker_live e s = Some t" using st by (simp add: worker_step_def split: if_splits)
  note steps = inv_check [OF inv] inv_source [OF inv] wk_inv_broadcast [OF inv] inv_next [OF inv] inv_compute_check [OF inv]
    inv_return [OF inv] wk_inv_send [OF inv] inv_listener [OF inv]
  show ?thesis
  proof (cases e)
    case WkCancel
    with l inv show ?thesis by (auto simp: round_inv_def)
  next
    case (WkTick x)
    with l inv show ?thesis by (auto simp: round_inv_def split: if_splits)
  qed (use l steps in simp_all)
qed

lemma round_inv_init: "wsys_init s \<Longrightarrow> round_inv s"
  by (simp add: wsys_init_def wsys0_def round_inv_def counts_ok_def updates_ok_def times_ok_def)

interpretation worker_machine: inductive_invariant worker_step wsys_init round_inv
  by unfold_locales (fact round_inv_init, fact round_inv_step)

section \<open>A round ends\<close>

fun go_left :: "nat \<Rightarrow> compute_pc \<Rightarrow> nat" where
  "go_left m CpNew = m + 3"
| "go_left m CpCalling = m + 2"
| "go_left m (CpSending j) = (m - j) + 1"
| "go_left m CpDone = 0"
| "go_left m CpSkipped = 0"

fun poll_left :: "nat \<Rightarrow> poll_pc \<Rightarrow> nat" where
  "poll_left m (PollStarting i) = (m - i) + m + 4"
| "poll_left m PollComputed = m + 3"
| "poll_left m (PollSent t) = m + 2"
| "poll_left m (PollEnding t i) = (m - i) + 1"
| "poll_left m pc = 0"

text \<open>The number of steps that the goroutines of a round can still make.\<close>

definition round_left :: "wsys \<Rightarrow> nat" where
  "round_left s = poll_left (length (w_updates s)) (w_pc s) + sum_list (map (go_left (length (w_updates s))) (w_go s))"

fun own_event :: "worker_event \<Rightarrow> bool" where
  "own_event WkNext = True"
| "own_event (WkCompute k) = True"
| "own_event (WkReturn k vs call err) = True"
| "own_event (WkSend k) = True"
| "own_event e = False"

lemma sum_go_left:
  assumes "k < length gs" "go_left m g < go_left m (gs ! k)"
  shows "sum_list (map (go_left m) (gs[k := g])) < sum_list (map (go_left m) gs)"
proof -
  have "go_left m (gs ! k) \<le> sum_list (map (go_left m) gs)"
    using assms(1) by (metis elem_le_sum_list length_map nth_map)
  with assms show ?thesis by (simp add: map_update sum_list_update)
qed

lemma begun: "\<not> before (w_pc s) \<Longrightarrow> poll_check s = None \<and> poll_source d err s = None \<and> poll_broadcast m s = None"
  by (cases "w_pc s") (simp_all add: poll_check_def poll_source_def poll_broadcast_def)

lemma own_event_decreases:
  assumes "\<not> before (w_pc s)" "worker_step e s = Some t"
  shows "\<not> before (w_pc t) \<and> round_left t + (if own_event e then 1 else 0) \<le> round_left s"
proof -
  have l: "worker_live e s = Some t" using assms(2) by (simp add: worker_step_def split: if_splits)
  show ?thesis
  proof (cases e)
    case WkNext
    with l assms(1) show ?thesis
      by (cases "w_pc s") (auto simp: poll_next_def round_left_def set_update_def split: if_splits)
  next
    case (WkCompute k)
    with l assms(1) sum_go_left [of k "w_go s" "length (w_updates s)"] show ?thesis
      by (auto simp: compute_check_def go_at_def set_go_def sent_Done_def computed_Done_def round_left_def Suc_le_eq
          split: if_splits)
  next
    case (WkReturn k vs call err)
    with l assms(1) sum_go_left [of k "w_go s" "length (w_updates s)" "CpSending 0"] show ?thesis
      by (auto simp: compute_return_def go_at_def set_go_def computed_Done_def round_left_def Suc_le_eq split: if_splits)
  next
    case (WkSend k)
    then obtain j where k: "k < length (w_go s)" "w_go s ! k = CpSending j"
      using l by (auto simp: compute_send_def split: if_splits compute_pc.splits)
    from sum_go_left [OF k(1), of "length (w_updates s)" "CpSending (Suc j)"]
      sum_go_left [OF k(1), of "length (w_updates s)" CpDone] WkSend l assms(1) k
    show ?thesis
      by (cases "j < length (w_updates s)")
        (auto simp: compute_send_def set_go_def sent_Done_def set_update_def round_left_def Suc_le_eq)
  next
    case (WkListener j x)
    with l assms(1) show ?thesis
      by (auto simp: worker_listener_def set_update_def round_left_def split: if_splits)
  qed (use l assms(1) begun [OF assms(1)] in \<open>auto simp: round_left_def split: if_splits\<close>)
qed

lemma own_events_bounded:
  assumes "\<not> before (w_pc s)" "run worker_step s es = Some t"
  shows "length (filter own_event es) + round_left t \<le> round_left s"
  using assms
proof (induction es arbitrary: s)
  case (Cons e es)
  then obtain u where u: "worker_step e s = Some u" "run worker_step u es = Some t" by (auto split: option.splits)
  note d = own_event_decreases [OF Cons.prems(1) u(1)]
  with Cons.IH [OF _ u(2)] show ?case by (cases "own_event e") auto
qed simp

lemma own_event_enabled:
  assumes inv: "round_inv s" and pc: "\<not> before (w_pc s)" "w_pc s \<noteq> PollReturned"
  shows "\<exists>e t. own_event e \<and> worker_step e s = Some t"
proof (cases "howmany active (w_go s) = 0")
  case True
  have "computing g \<Longrightarrow> active g" for g by (cases g) auto
  with True have "howmany computing (w_go s) = 0" by (auto simp: howmany_zero list_all_iff)
  with True inv pc have "\<exists>t. poll_next s = Some t" and np: "\<not> w_panic s"
    by (cases "w_pc s"; auto simp: poll_next_def round_inv_def counts_ok_def)+
  then show ?thesis by (intro exI [of _ WkNext]) (simp add: worker_step_def)
next
  case False
  then obtain k where k: "k < length (w_go s)" "active (w_go s ! k)"
    by (auto simp: howmany_zero list_all_length)
  have np: "\<not> w_panic s" using inv by (simp add: round_inv_def)
  have "worker_step (WkCompute k) s \<noteq> None \<or> worker_step (WkReturn k [] Call_zero None) s \<noteq> None \<or> worker_step (WkSend k) s \<noteq> None"
    using k np by (cases "w_go s ! k") (simp_all add: worker_step_def compute_check_def compute_return_def compute_send_def go_at_def)
  then show ?thesis by (meson not_None_eq own_event.simps)
qed

section \<open>A round with a goroutine that gave up\<close>

definition gave_up :: "nat \<Rightarrow> nat \<Rightarrow> wsys \<Rightarrow> bool" where
  "gave_up k m s \<longleftrightarrow> round_inv s \<and> k < length (w_go s) \<and> w_go s ! k = CpSkipped \<and> length (w_updates s) = m"

lemma gave_up_step:
  assumes g: "gave_up k m s" and st: "worker_step e s = Some t"
  shows "gave_up k m t"
proof -
  have l: "worker_live e s = Some t" using st by (simp add: worker_step_def split: if_splits)
  have nb: "\<not> before (w_pc s)" using g by (auto simp: gave_up_def round_inv_def updates_ok_def)
  have "k < length (w_go t) \<and> w_go t ! k = CpSkipped \<and> length (w_updates t) = m"
  proof (cases e)
    case WkNext
    with l g nb show ?thesis
      by (cases "w_pc s") (auto simp: poll_next_def gave_up_def set_update_def split: if_splits)
  next
    case (WkCompute i)
    with l g show ?thesis
      by (auto simp: compute_check_def go_at_def set_go_def sent_Done_def computed_Done_def gave_up_def nth_list_update
          split: if_splits)
  next
    case (WkReturn i vs call err)
    with l g show ?thesis
      by (auto simp: compute_return_def go_at_def set_go_def computed_Done_def gave_up_def nth_list_update split: if_splits)
  next
    case (WkSend i)
    with l g show ?thesis
      by (auto simp: compute_send_def set_go_def sent_Done_def set_update_def gave_up_def nth_list_update
          split: if_splits compute_pc.splits)
  next
    case (WkListener i x)
    with l g show ?thesis
      by (auto simp: worker_listener_def set_update_def gave_up_def split: if_splits)
  qed (use l g begun [OF nb] in \<open>auto simp: gave_up_def split: if_splits\<close>)
  moreover have "round_inv t" using g round_inv_step [OF _ st] by (simp add: gave_up_def)
  ultimately show ?thesis by (simp add: gave_up_def)
qed

interpretation given_up: trap worker_step "gave_up k m" for k m
  by unfold_locales (simp, fact gave_up_step)

lemma gave_up_values:
  assumes g: "gave_up k m s" and j: "j < m"
  shows "Update_Values (w_updates s ! j) = None" "c < length (us_chans (w_updates s ! j)) \<Longrightarrow> \<not> ch_closed (us_chans (w_updates s ! j) ! c)"
proof -
  let ?u = "w_updates s ! j" and ?n = "length (w_conns s)"
  have inv: "round_inv s" and j': "j < length (w_updates s)" using g j by (auto simp: gave_up_def)
  note u = round_updates [OF inv j']
  have k: "k < ?n" "\<not> past j (w_go s ! k)" using g inv j' by (auto simp: gave_up_def round_inv_def updates_ok_def)
  then have "k \<in> {..<?n}" "k \<notin> {i. i < ?n \<and> past j (w_go s ! i)}" by simp_all
  then have "{i. i < ?n \<and> past j (w_go s ! i)} \<subset> {..<?n}" by blast
  then have "card {i. i < ?n \<and> past j (w_go s ! i)} < card {..<?n}" by (intro psubset_card_mono) simp_all
  with wupdate_okD [OF u] have v: "length (up_values (us_update ?u)) < ?n" "up_received (us_update ?u) \<noteq> 0" by simp_all
  then show "Update_Values ?u = None" by (simp add: Update_Values_def)
  assume c: "c < length (us_chans ?u)"
  have "update_inv ?n ?u" "\<not> up_canceled (us_update ?u)" using u update_machine.reach_inv by (auto simp: wupdate_ok_def)
  then have m: "mset (ch_sent (us_chans ?u ! c)) + in_flight (us_pending ?u) c = mset (up_values (us_update ?u))"
    and cl: "ch_closed (us_chans ?u ! c) \<longrightarrow> length (ch_sent (us_chans ?u ! c)) = ?n"
    using c by (auto simp: update_inv_def chan_inv_def)
  from arg_cong [OF m, of size] have "length (ch_sent (us_chans ?u ! c)) \<le> length (up_values (us_update ?u))" by simp
  with v(1) cl show "\<not> ch_closed (us_chans ?u ! c)" by auto
qed

section \<open>Properties\<close>

lemma image_nth: "image_mset ((!) xs) (mset_set {..<length xs}) = mset xs"
  by (metis atLeast_upt map_nth mset_map mset_set_set distinct_upt)

text \<open>
  The connections that a round polls are exactly the enabled ones between named hosts, each
  once, in the order of the configuration: the double loop with its early exits computes the
  list of all connections of all members of all groups, filtered.
\<close>

theorem connections_are_enabled: "connections d = polled_list d"
  by (rule connections_polled)

text \<open>
  C18. A round of which no query was skipped hands every listener the complete result: when Poll
  has returned, Values of every update that Broadcast made returns at once with the backlog of
  every connection, each exactly once, and start and end are set. No update was sent a value too
  many on the way, and no wait group went below zero.
\<close>

theorem round_delivers:
  assumes "reach worker_step wsys_init s" "w_pc s = PollReturned" "CpSkipped \<notin> set (w_go s)" "j < length (w_updates s)"
  shows "\<not> w_panic s \<and> (\<exists>vs. Update_Values (w_updates s ! j) = Some vs \<and> mset vs = mset (w_conns s)) \<and>
    Update_Start (us_update (w_updates s ! j)) \<noteq> None \<and> Update_End (us_update (w_updates s ! j)) \<noteq> None"
proof -
  let ?u = "w_updates s ! j" and ?n = "length (w_conns s)"
  from assms(1) have inv: "round_inv s" by (rule worker_machine.reach_inv)
  note u = round_updates [OF inv assms(4)]
  have "howmany active (w_go s) = 0" "length (w_go s) = ?n"
    using inv assms(2,4) by (auto simp: round_inv_def counts_ok_def updates_ok_def)
  then have "w_go s ! k = CpDone" if "k < ?n" for k
    using that assms(3) by (cases "w_go s ! k") (auto simp: howmany_zero list_all_length in_set_conv_nth)
  then have "filter_mset (\<lambda>k. past j (w_go s ! k)) (mset_set {..<?n}) = filter_mset (\<lambda>_. True) (mset_set {..<?n})"
    by (intro filter_mset_cong) auto
  then have m: "mset (up_values (us_update ?u)) = mset (w_conns s)" using u image_nth by (simp add: wupdate_ok_def)
  from arg_cong [OF m, of size] wupdate_okD [OF u] have "up_received (us_update ?u) = 0" by simp
  with m have "Update_Values ?u = Some (up_values (us_update ?u)) \<and> mset (up_values (us_update ?u)) = mset (w_conns s)"
    by (simp add: Update_Values_def)
  moreover have "up_started (us_update ?u) = 0" "up_ended (us_update ?u) = 0"
    using inv assms(2,4) by (auto simp: round_inv_def times_ok_def)
  ultimately show ?thesis using inv by (auto simp: round_inv_def Update_Start_def Update_End_def)
qed

definition wk_domain :: Domain where
  "wk_domain = (let c = \<lambda>h. \<lparr>co_DN = [], co_Host = h\<rparr>;
      m = (\<lambda>h hs. \<lparr>m_MemberInfo = MemberInfo_zero\<lparr>mi_Computer := c h\<rparr>,
        m_Connections = map (\<lambda>(h, e). \<lparr>cn_Name = [], cn_ID = 1, cn_MemberDN = [], cn_Enabled = e, cn_Computer = c h\<rparr>) hs\<rparr>)
    in domain0 [group0 [m ''a'' [(''b'', True), (''c'', False)], m [] [(''b'', True)], m ''b'' [(''a'', True)]]])"

lemma wk_domain_connections: "map (\<lambda>b. (b_From b, b_To b)) (connections wk_domain) = [(''b'', ''a''), (''a'', ''b'')]"
  by (simp add: wk_domain_def connections_def domain0_def group0_def MemberInfo_zero_def new_backlog_def Let_def)

lemmas worker_run_simps = worker_step_def poll_check_def poll_source_def poll_broadcast_def poll_next_def compute_check_def
  compute_return_def compute_send_def worker_listener_def go_at_def set_go_def sent_Done_def computed_Done_def set_update_def
  wsys0_def Let_def Update_send_def usys_new_def newUpdate_def cells_def setStart_def setEnd_def

lemma worker_reach: "run worker_step wsys0 es = Some s \<Longrightarrow> reach worker_step wsys_init s"
  by (rule run_reach) (simp add: wsys_init_def)

definition wk_full_round :: "worker_event list" where
  "wk_full_round = [WkCheck, WkSource wk_domain None, WkCheck, WkBroadcast 1, WkCompute 0, WkNext, WkCompute 1,
     WkReturn 1 [3] Call_zero None, WkSend 1, WkNext, WkReturn 0 [] Call_zero (Some ErrUnresponsive), WkNext, WkSend 1,
     WkSend 0, WkSend 0, WkNext, WkNext, WkNext]"

lemma wk_domain_two: "\<exists>a b. connections wk_domain = [a, b]"
proof -
  have "length (connections wk_domain) = 2" using arg_cong [OF wk_domain_connections, of length] by simp
  then show ?thesis by (metis length_0_conv length_Suc_conv numeral_2_eq_2)
qed

theorem round_delivers_witness:
  "\<exists>s vs. run worker_step wsys0 wk_full_round = Some s \<and> Update_Values (w_updates s ! 0) = Some vs \<and>
     mset vs = mset (w_conns s) \<and> length vs = 2"
proof -
  obtain a b where c: "connections wk_domain = [a, b]" using wk_domain_two by blast
  obtain s where r: "run worker_step wsys0 wk_full_round = Some s" and
    f: "w_pc s = PollReturned" "CpSkipped \<notin> set (w_go s)" "0 < length (w_updates s)" "length (w_conns s) = 2"
    by (simp add: worker_run_simps wk_full_round_def c)
  from round_delivers [OF worker_reach [OF r] f(1-3)] obtain vs where
    v: "Update_Values (w_updates s ! 0) = Some vs" "mset vs = mset (w_conns s)" by blast
  then have "length vs = 2" using f(4) by (metis size_mset)
  with v r show ?thesis by blast
qed

text \<open>
  C19. Poll ends: once its goroutines are started, the number of their steps is bounded whatever
  listeners, clocks and cancellations do in between, and as long as Poll has not returned some
  step of its own can be taken, given that the remote queries answer. So a round that keeps
  taking steps returns, and the poller's Close gets through.
\<close>

theorem round_ends:
  assumes "reach worker_step wsys_init s" "\<not> before (w_pc s)"
  shows "(\<forall>es t. run worker_step s es = Some t \<longrightarrow> length (filter own_event es) \<le> round_left s) \<and>
    (w_pc s \<noteq> PollReturned \<longrightarrow> (\<exists>e t. own_event e \<and> worker_step e s = Some t))"
proof (intro conjI allI impI)
  show "length (filter own_event es) \<le> round_left s" if "run worker_step s es = Some t" for es t
    using own_events_bounded [OF assms(2) that] by simp
  show "\<exists>e t. own_event e \<and> worker_step e s = Some t" if "w_pc s \<noteq> PollReturned"
    using own_event_enabled [OF worker_machine.reach_inv [OF assms(1)] assms(2) that] .
qed

theorem round_ends_witness:
  "\<exists>s. run worker_step wsys0 [WkCheck, WkSource wk_domain None, WkCheck, WkBroadcast 1] = Some s \<and> round_left s = 14 \<and>
     (\<exists>e t. own_event e \<and> worker_step e s = Some t)"
proof -
  obtain a b where c: "connections wk_domain = [a, b]" using wk_domain_two by blast
  obtain s where r: "run worker_step wsys0 [WkCheck, WkSource wk_domain None, WkCheck, WkBroadcast 1] = Some s" and
    f: "\<not> before (w_pc s)" "w_pc s \<noteq> PollReturned" "round_left s = 14"
    by (simp add: worker_run_simps c round_left_def eval_nat_numeral)
  from round_ends [OF worker_reach [OF r] f(1)] r f show ?thesis by blast
qed

text \<open>
  A round of which one query was skipped because its context had ended leaves its listeners
  waiting for ever: compute returns without sending anything, and nobody calls cancel on the
  updates. Whatever happens afterwards, Values of every update of the round blocks, and no
  channel that a listener got from one of them is ever closed.
\<close>

theorem skipped_query_blocks_listeners:
  assumes "reach worker_step wsys_init s" "k < length (w_go s)" "w_go s ! k = CpSkipped"
    "run worker_step s es = Some t" "j < length (w_updates s)"
  shows "Update_Values (w_updates t ! j) = None \<and>
    list_all (\<lambda>ch. \<not> ch_closed ch) (us_chans (w_updates t ! j))"
proof -
  have "gave_up k (length (w_updates s)) s"
    using worker_machine.reach_inv [OF assms(1)] assms(2,3) by (simp add: gave_up_def)
  then have "gave_up k (length (w_updates s)) t" by (rule given_up.stays [OF _ assms(4)])
  from gave_up_values [OF this assms(5)] show ?thesis by (simp add: list_all_length)
qed

theorem skipped_query_blocks_listeners_witness:
  "\<exists>s t. run worker_step wsys0 [WkCheck, WkSource wk_domain None, WkCheck, WkBroadcast 1, WkListener 0 UpListen, WkCancel,
       WkCompute 0, WkCompute 1] = Some s \<and> run worker_step s [WkNext, WkNext, WkNext, WkNext, WkNext, WkNext] = Some t \<and>
     w_pc t = PollReturned \<and> Update_Values (w_updates t ! 0) = None"
proof -
  obtain a b where c: "connections wk_domain = [a, b]" using wk_domain_two by blast
  obtain s t where r: "run worker_step wsys0 [WkCheck, WkSource wk_domain None, WkCheck, WkBroadcast 1, WkListener 0 UpListen,
       WkCancel, WkCompute 0, WkCompute 1] = Some s" "run worker_step s [WkNext, WkNext, WkNext, WkNext, WkNext, WkNext] = Some t"
    and f: "0 < length (w_go s)" "w_go s ! 0 = CpSkipped" "0 < length (w_updates s)" "w_pc t = PollReturned"
    by (simp add: worker_run_simps c update_step_def Update_Listen_def append_listener_def)
  from skipped_query_blocks_listeners [OF worker_reach [OF r(1)] f(1,2) r(2) f(3)] r f(4) show ?thesis by blast
qed

end
