(* ===== verification/Dfsrconfig.thy ===== *)
theory Dfsrconfig imports DfsrTypes begin

text \<open>
  Package dfsrconfig without the monitor (client*.go, fetch.go, utility.go) and its package
  membercache: the client that reads the replication configuration of a domain from the
  directory.

  The directory client is the package adsi. Its answers are the parameter \<open>A\<close>, one function per
  method that the code calls; the directory does not change while one fetch reads it. A function of
  the code is a program over the operations that others can see: looking a member up in the shared
  cache, storing one there, and opening and closing the handles of the directory client. Groups runs
  one such program per group in a goroutine, so that their operations interleave.
\<close>

section \<open>The directory\<close>

text \<open>
  A method that returns a string and an error returns both here, as the code sometimes reads the
  string without looking at the error. An iterator is the list of its objects; Next returns an
  error after the last of them, which may be the end of the list or a failure.
\<close>

record 'o adsi =
  ad_Open :: "string \<Rightarrow> 'o + gerr"
  ad_OpenContainer :: "string \<Rightarrow> 'o + gerr"
  ob_Path :: "'o \<Rightarrow> string \<times> gerr option"
  ob_Name :: "'o \<Rightarrow> string \<times> gerr option"
  ob_Class :: "'o \<Rightarrow> string \<times> gerr option"
  ob_Parent :: "'o \<Rightarrow> string \<times> gerr option"
  ob_GUID :: "'o \<Rightarrow> uuid \<times> gerr option"
  ob_AttrString :: "'o \<Rightarrow> string \<Rightarrow> string \<times> gerr option"
  ob_AttrBool :: "'o \<Rightarrow> string \<Rightarrow> bool \<times> gerr option"
  ob_ToContainer :: "'o \<Rightarrow> 'o + gerr"
  ct_Children :: "'o \<Rightarrow> ('o list \<times> gerr) + gerr"
  ct_Container :: "'o \<Rightarrow> string \<Rightarrow> string \<Rightarrow> 'o + gerr"
  ct_Object :: "'o \<Rightarrow> string \<Rightarrow> string \<Rightarrow> 'o + gerr"

datatype 'o handle = HObject 'o | HContainer 'o | HIter 'o

datatype 'o hevent = Opened "'o handle" | Closed "'o handle"

section \<open>Programs\<close>

datatype ('o, 'a) prog =
    Done 'a
  | Retrieve string "MemberInfo option \<Rightarrow> ('o, 'a) prog"
  | SetMember MemberInfo "('o, 'a) prog"
  | Handle "'o hevent" "('o, 'a) prog"

primrec bind :: "('o, 'a) prog \<Rightarrow> ('a \<Rightarrow> ('o, 'b) prog) \<Rightarrow> ('o, 'b) prog" where
  "bind (Done a) f = f a"
| "bind (Retrieve dn k) f = Retrieve dn (\<lambda>x. bind (k x) f)"
| "bind (SetMember m p) f = SetMember m (bind p f)"
| "bind (Handle e p) f = Handle e (bind p f)"

text \<open>Opening a handle, with the deferred Close when the function returns.\<close>

definition using_handle :: "'o handle \<Rightarrow> ('o, 'a) prog \<Rightarrow> ('o, 'a) prog" where
  "using_handle h p = Handle (Opened h) (bind p (\<lambda>r. Handle (Closed h) (Done r)))"

text \<open>What follows after an error check: \<open>v\<close> are the named results at that point.\<close>

definition onerr :: "gerr option \<Rightarrow> 'a \<Rightarrow> ('o, 'a \<times> gerr option) prog \<Rightarrow> ('o, 'a \<times> gerr option) prog" where
  "onerr err v p = (if err \<noteq> None then Done (v, err) else p)"

definition LDAP :: string where "LDAP = ''LDAP://''"

lemma URL_LDAP: "URL dn = LDAP @ dn"
  by (simp add: URL_def LDAP_def)

section \<open>The member cache (membercache)\<close>

type_synonym membercache = "(string \<times> MemberInfo) list"

definition membercache_New :: membercache where
  "membercache_New = []"

definition membercache_Set :: "MemberInfo \<Rightarrow> membercache \<Rightarrow> membercache" where
  "membercache_Set member mc = AList.update (mi_DN member) member mc"

definition membercache_Retrieve :: "string \<Rightarrow> membercache \<Rightarrow> MemberInfo option" where
  "membercache_Retrieve dn mc = map_of mc dn"

section \<open>The client\<close>

record config_client =
  cc_domainDN :: string
  cc_mc :: membercache

definition cfg_NewClient :: "string \<Rightarrow> config_client" where
  "cfg_NewClient domain = \<lparr>cc_domainDN = Domain_DN domain, cc_mc = membercache_New\<rparr>"

definition openParent :: "'o adsi \<Rightarrow> 'o \<Rightarrow> 'o + gerr" where
  "openParent A obj = (case ob_Parent A obj of (path, Some e) \<Rightarrow> Inr e | (path, None) \<Rightarrow> ad_Open A path)"

definition openContainer :: "'o adsi \<Rightarrow> string \<Rightarrow> string \<Rightarrow> 'o + gerr" where
  "openContainer A domainDN partialDN = ad_OpenContainer A (URL (Combine [partialDN, domainDN]))"

definition NamingContext_zero :: NamingContext where
  "NamingContext_zero = \<lparr>nc_ID = 0, nc_DN = [], nc_Description = [], nc_Path = []\<rparr>"

definition cfg_NamingContext :: "'o adsi \<Rightarrow> string \<Rightarrow> ('o, NamingContext \<times> gerr option) prog" where
  "cfg_NamingContext A domainDN =
     (case ad_Open A (URL domainDN) of
        Inr e \<Rightarrow> Done (NamingContext_zero, Some e)
      | Inl domain \<Rightarrow> using_handle (HObject domain)
          (case ob_GUID A domain of (i, err) \<Rightarrow>
             let nc = NamingContext_zero\<lparr>nc_ID := i\<rparr> in
             onerr err nc
          (case ob_Path A domain of (path, err) \<Rightarrow>
             let nc = nc\<lparr>nc_Path := path\<rparr> in
             onerr err nc
          (let nc = nc\<lparr>nc_DN := TrimPrefix path LDAP\<rparr> in
           case ob_AttrString A domain ''description'' of (d, err) \<Rightarrow> Done (nc\<lparr>nc_Description := d\<rparr>, err)))))"

subsection \<open>Computers and local settings\<close>

definition cfg_computer :: "'o adsi \<Rightarrow> 'o \<Rightarrow> Computer \<times> gerr option" where
  "cfg_computer A cobj =
     (case ob_Path A cobj of
        (path, Some e) \<Rightarrow> (Computer_zero\<lparr>co_DN := path\<rparr>, Some e)
      | (path, None) \<Rightarrow>
          (let computer = Computer_zero\<lparr>co_DN := TrimPrefix path LDAP\<rparr>
           in case ob_AttrString A cobj ''dNSHostName'' of (host, err) \<Rightarrow> (computer\<lparr>co_Host := host\<rparr>, err)))"

definition cfg_Computer :: "'o adsi \<Rightarrow> string \<Rightarrow> ('o, Computer \<times> gerr option) prog" where
  "cfg_Computer A dn =
     (case ad_Open A (URL dn) of
        Inr e \<Rightarrow> Done (Computer_zero, Some e)
      | Inl cobj \<Rightarrow> using_handle (HObject cobj) (Done (cfg_computer A cobj)))"

definition cfg_localSettings :: "'o adsi \<Rightarrow> 'o \<Rightarrow> LocalSettings \<times> gerr option" where
  "cfg_localSettings A ls =
     (case ob_AttrString A ls ''msDFSR-Version'' of (v, err) \<Rightarrow> (LocalSettings_zero\<lparr>ls_Version := v\<rparr>, err))"

definition cfg_LocalSettings :: "'o adsi \<Rightarrow> string \<Rightarrow> ('o, LocalSettings \<times> gerr option) prog" where
  "cfg_LocalSettings A settingsDN =
     (case ad_Open A (URL settingsDN) of
        Inr e \<Rightarrow> Done (LocalSettings_zero, Some e)
      | Inl s \<Rightarrow> using_handle (HObject s) (Done (cfg_localSettings A s)))"

subsection \<open>Members\<close>

text \<open>memberInfo from the name on, with the object that describes the member and its reference.\<close>

definition memberInfo_rest :: "'o adsi \<Rightarrow> 'o \<Rightarrow> string \<Rightarrow> MemberInfo \<Rightarrow> ('o, MemberInfo \<times> gerr option) prog" where
  "memberInfo_rest A obj compref member =
     (case ob_Name A obj of (n, err) \<Rightarrow>
        onerr err (member\<lparr>mi_Name := n\<rparr>)
     (let member = member\<lparr>mi_Name := TrimPrefix n ''CN=''\<rparr> in
      case ob_GUID A obj of (i, err) \<Rightarrow>
        let member = member\<lparr>mi_ID := i\<rparr> in
        onerr err member
     (bind (cfg_Computer A compref) (\<lambda>(computer, err).
        let member = member\<lparr>mi_Computer := computer\<rparr> in
        onerr err member
     (bind (cfg_LocalSettings A (Combine [''cn=DFSR-LocalSettings'', compref])) (\<lambda>(settings, err).
        let member = member\<lparr>mi_Settings := settings\<rparr> in
        SetMember member (Done (member, err))))))))"

text \<open>The case of class server, into which the case nTDSDSA falls through.\<close>

definition memberInfo_server :: "'o adsi \<Rightarrow> 'o \<Rightarrow> MemberInfo \<Rightarrow> ('o, MemberInfo \<times> gerr option) prog" where
  "memberInfo_server A obj member =
     (case ob_AttrString A obj ''serverReference'' of (compref, err) \<Rightarrow>
        onerr err member (memberInfo_rest A obj compref member))"

definition cfg_memberInfo :: "'o adsi \<Rightarrow> 'o \<Rightarrow> string \<Rightarrow> ('o, MemberInfo \<times> gerr option) prog" where
  "cfg_memberInfo A obj dn =
     (let member = MemberInfo_zero\<lparr>mi_DN := if dn = [] then TrimPrefix (fst (ob_Path A obj)) LDAP else dn\<rparr> in
      case ob_Class A obj of (class, err) \<Rightarrow>
        onerr err member
     (if class = ''nTDSDSA'' then
        (case openParent A obj of
           Inr e \<Rightarrow> Done (member, Some e)
         | Inl parent \<Rightarrow> using_handle (HObject parent) (memberInfo_server A parent member))
      else if class = ''server'' then memberInfo_server A obj member
      else if class = ''msDFSR-Member'' then
        (case ob_AttrString A obj ''msDFSR-ComputerReference'' of (compref, err) \<Rightarrow>
           onerr err member (memberInfo_rest A obj compref member))
      else Done (member, Some (ErrOther 31 ''unknown active directory membership class''))))"

definition cfg_MemberInfo :: "'o adsi \<Rightarrow> string \<Rightarrow> ('o, MemberInfo \<times> gerr option) prog" where
  "cfg_MemberInfo A memberDN =
     Retrieve memberDN (\<lambda>r. case r of
        Some member \<Rightarrow> Done (member, None)
      | None \<Rightarrow>
          (case ad_Open A (URL memberDN) of
             Inr e \<Rightarrow> Done (MemberInfo_zero, Some e)
           | Inl m \<Rightarrow> using_handle (HObject m) (cfg_memberInfo A m memberDN)))"

subsection \<open>Connections\<close>

definition Connection_zero :: Connection where
  "Connection_zero = \<lparr>cn_Name = [], cn_ID = 0, cn_MemberDN = [], cn_Enabled = False, cn_Computer = Computer_zero\<rparr>"

definition cfg_connection :: "'o adsi \<Rightarrow> 'o \<Rightarrow> ('o, Connection \<times> gerr option) prog" where
  "cfg_connection A obj =
     (case ob_Class A obj of (class, err) \<Rightarrow>
        onerr err Connection_zero
     (case ob_Name A obj of (n, err) \<Rightarrow>
        onerr err (Connection_zero\<lparr>cn_Name := n\<rparr>)
     (case ob_GUID A obj of (i, err) \<Rightarrow>
        let conn = Connection_zero\<lparr>cn_Name := TrimPrefix n ''CN='', cn_ID := i\<rparr> in
        onerr err conn
     (case ob_AttrString A obj ''fromServer'' of (dn, err) \<Rightarrow>
        let conn = conn\<lparr>cn_MemberDN := dn\<rparr> in
        onerr err conn
     (case (if class = ''msDFSR-Connection'' then ob_AttrBool A obj ''msDFSR-Enabled''
            else if class = ''nTDSConnection'' then (True, None) else (False, None)) of (enabled, err) \<Rightarrow>
        let conn = conn\<lparr>cn_Enabled := enabled\<rparr> in
        onerr err conn
     (bind (cfg_MemberInfo A (cn_MemberDN conn)) (\<lambda>(mi, err).
        onerr err conn (Done (conn\<lparr>cn_Computer := mi_Computer mi\<rparr>, None)))))))))"

text \<open>The loop over the children: its own err shadows the result, so an error of Next ends it in peace.\<close>

fun connections_loop :: "'o adsi \<Rightarrow> 'o list \<Rightarrow> Connection list \<Rightarrow> ('o, Connection list \<times> gerr option) prog" where
  "connections_loop A [] connections = Done (connections, None)"
| "connections_loop A (child # rest) connections =
     using_handle (HObject child)
       (bind (cfg_connection A child) (\<lambda>(conn, err).
          onerr err [] (connections_loop A rest (connections @ [conn]))))"

definition cfg_connections :: "'o adsi \<Rightarrow> 'o \<Rightarrow> ('o, Connection list \<times> gerr option) prog" where
  "cfg_connections A member =
     (case ob_ToContainer A member of
        Inr e \<Rightarrow> Done ([], Some e)
      | Inl mc \<Rightarrow> using_handle (HContainer mc)
          (case ct_Children A mc of
             Inr e \<Rightarrow> Done ([], Some e)
           | Inl (children, end) \<Rightarrow> using_handle (HIter mc) (connections_loop A children [])))"

definition cfg_member :: "'o adsi \<Rightarrow> 'o \<Rightarrow> string \<Rightarrow> ('o, Member \<times> gerr option) prog" where
  "cfg_member A m dn =
     bind (cfg_memberInfo A m dn) (\<lambda>(mi, err).
       let member = \<lparr>m_MemberInfo = mi, m_Connections = []\<rparr> in
       onerr err member
      (let serverref = fst (ob_AttrString A m ''serverReference'') in
       if serverref \<noteq> [] then
         (case ad_Open A (URL serverref) of
            Inr e \<Rightarrow> Done (member, Some e)
          | Inl connContainer \<Rightarrow> Handle (Opened (HObject connContainer))
              (bind (cfg_connections A connContainer) (\<lambda>(cs, err). Done (member\<lparr>m_Connections := cs\<rparr>, err))))
       else bind (cfg_connections A m) (\<lambda>(cs, err). Done (member\<lparr>m_Connections := cs\<rparr>, err))))"

fun members_loop :: "'o adsi \<Rightarrow> 'o list \<Rightarrow> Member list \<Rightarrow> ('o, Member list \<times> gerr option) prog" where
  "members_loop A [] members = Done (members, None)"
| "members_loop A (m # rest) members =
     using_handle (HObject m)
       (bind (cfg_member A m []) (\<lambda>(member, err).
          onerr err [] (members_loop A rest (members @ [member]))))"

definition cfg_members :: "'o adsi \<Rightarrow> 'o \<Rightarrow> ('o, Member list \<times> gerr option) prog" where
  "cfg_members A topology =
     (case ob_ToContainer A topology of
        Inr e \<Rightarrow> Done ([], Some e)
      | Inl tc \<Rightarrow> using_handle (HContainer tc)
          (case ct_Children A tc of
             Inr e \<Rightarrow> Done ([], Some e)
           | Inl (children, end) \<Rightarrow> using_handle (HIter tc) (members_loop A children [])))"

definition Member_zero :: Member where
  "Member_zero = \<lparr>m_MemberInfo = MemberInfo_zero, m_Connections = []\<rparr>"

definition cfg_Member :: "'o adsi \<Rightarrow> string \<Rightarrow> ('o, Member \<times> gerr option) prog" where
  "cfg_Member A memberDN =
     (case ad_Open A (URL memberDN) of
        Inr e \<Rightarrow> Done (Member_zero, Some e)
      | Inl m \<Rightarrow> using_handle (HObject m) (cfg_member A m memberDN))"

subsection \<open>Groups\<close>

definition Folder_zero :: Folder where
  "Folder_zero = \<lparr>f_Name = [], f_ID = 0\<rparr>"

definition cfg_folder :: "'o adsi \<Rightarrow> 'o \<Rightarrow> Folder \<times> gerr option" where
  "cfg_folder A f =
     (case ob_Name A f of
        (n, Some e) \<Rightarrow> (Folder_zero\<lparr>f_Name := n\<rparr>, Some e)
      | (n, None) \<Rightarrow> (case ob_GUID A f of (i, err) \<Rightarrow> (\<lparr>f_Name = TrimPrefix n ''CN='', f_ID = i\<rparr>, err)))"

fun folders_loop :: "'o adsi \<Rightarrow> 'o list \<Rightarrow> Folder list \<Rightarrow> ('o, Folder list \<times> gerr option) prog" where
  "folders_loop A [] folders = Done (folders, None)"
| "folders_loop A (f # rest) folders =
     using_handle (HObject f)
       (case cfg_folder A f of (folder, err) \<Rightarrow> onerr err [] (folders_loop A rest (folders @ [folder])))"

definition cfg_folders :: "'o adsi \<Rightarrow> 'o \<Rightarrow> ('o, Folder list \<times> gerr option) prog" where
  "cfg_folders A content =
     (case ct_Children A content of
        Inr e \<Rightarrow> Done ([], Some e)
      | Inl (children, end) \<Rightarrow> using_handle (HIter content) (folders_loop A children []))"

definition Group_zero :: Group where
  "Group_zero = \<lparr>g_Name = [], g_ID = 0, g_Folders = [], g_Members = [], g_ConfigDuration = 0\<rparr>"

definition cfg_group :: "'o adsi \<Rightarrow> time \<times> time \<Rightarrow> 'o \<Rightarrow> ('o, Group \<times> gerr option) prog" where
  "cfg_group A clock g =
     (case ob_Name A g of (n, err) \<Rightarrow>
        onerr err (Group_zero\<lparr>g_Name := n\<rparr>)
     (case ob_GUID A g of (i, err) \<Rightarrow>
        let grp = Group_zero\<lparr>g_Name := TrimPrefix n ''CN='', g_ID := i\<rparr> in
        onerr err grp
     (case ob_ToContainer A g of
        Inr e \<Rightarrow> Done (grp, Some e)
      | Inl gc \<Rightarrow> using_handle (HContainer gc)
          (case ct_Container A gc ''msDFSR-Content'' ''cn=Content'' of
             Inr e \<Rightarrow> Done (grp, Some e)
           | Inl content \<Rightarrow> using_handle (HContainer content)
               (bind (cfg_folders A content) (\<lambda>(folders, err).
                  let grp = grp\<lparr>g_Folders := folders\<rparr> in
                  onerr err grp
               (case ct_Object A gc ''msDFSR-Topology'' ''cn=Topology'' of
                  Inr e \<Rightarrow> Done (grp, Some e)
                | Inl topology \<Rightarrow> using_handle (HObject topology)
                    (bind (cfg_members A topology) (\<lambda>(members, err).
                       let grp = grp\<lparr>g_Members := members\<rparr> in
                       onerr err grp
                    (Done (grp\<lparr>g_ConfigDuration := TimeSub (snd clock) (fst clock)\<rparr>, None)))))))))))"

definition cfg_Group :: "'o adsi \<Rightarrow> time \<times> time \<Rightarrow> string \<Rightarrow> ('o, Group \<times> gerr option) prog" where
  "cfg_Group A clock groupDN =
     (case ad_Open A (URL groupDN) of
        Inr e \<Rightarrow> Done (Group_zero, Some e)
      | Inl g \<Rightarrow> using_handle (HObject g) (cfg_group A clock g))"

definition global_settings :: string where
  "global_settings = Make ''cn'' [''DFSR-GlobalSettings'', ''System'']"

text \<open>The error of Name is not looked at: the code tests another variable, which is nil there.\<close>

fun by_name_loop :: "'o adsi \<Rightarrow> time \<times> time \<Rightarrow> string \<Rightarrow> 'o list \<Rightarrow> ('o, Group \<times> gerr option) prog" where
  "by_name_loop A clock groupName [] = Done (Group_zero, Some (ErrOther 32 ''replication group not found''))"
| "by_name_loop A clock groupName (g # rest) =
     using_handle (HObject g)
       (let candidate = ToLower (fst (ob_Name A g))
        in if candidate = groupName \<or> TrimPrefix candidate ''cn='' = groupName then cfg_group A clock g
           else by_name_loop A clock groupName rest)"

definition cfg_GroupByName :: "'o adsi \<Rightarrow> string \<Rightarrow> time \<times> time \<Rightarrow> string \<Rightarrow> ('o, Group \<times> gerr option) prog" where
  "cfg_GroupByName A domainDN clock groupName =
     (case openContainer A domainDN global_settings of
        Inr e \<Rightarrow> Done (Group_zero, Some e)
      | Inl container \<Rightarrow> using_handle (HContainer container)
          (case ct_Children A container of
             Inr e \<Rightarrow> Done (Group_zero, Some e)
           | Inl (children, end) \<Rightarrow> using_handle (HIter container) (by_name_loop A clock (ToLower groupName) children)))"

text \<open>fetch.go: Domain starts from a new client in the same way.\<close>

definition fetch_Group :: "'o adsi \<Rightarrow> string \<Rightarrow> time \<times> time \<Rightarrow> string \<Rightarrow> ('o, Group \<times> gerr option) prog" where
  "fetch_Group A domain clock groupName = cfg_GroupByName A (cc_domainDN (cfg_NewClient domain)) clock groupName"

subsection \<open>The domain of the computer\<close>

definition cfg_dnc :: "'o adsi \<Rightarrow> ('o, string \<times> gerr option) prog" where
  "cfg_dnc A =
     (case ad_Open A (LDAP @ ''RootDSE'') of
        Inr e \<Rightarrow> Done ([], Some e)
      | Inl rootDSE \<Rightarrow> using_handle (HObject rootDSE) (Done (ob_AttrString A rootDSE ''rootDomainNamingContext'')))"

text \<open>littleEndianToBigEndian on the 16 bytes of an identifier.\<close>

definition littleEndianToBigEndian :: "8 word list \<Rightarrow> 8 word list" where
  "littleEndianToBigEndian i =
     i[0 := i ! 3, 1 := i ! 2, 2 := i ! 1, 3 := i ! 0, 4 := i ! 5, 5 := i ! 4, 6 := i ! 7, 7 := i ! 6]"

section \<open>Groups\<close>

text \<open>
  The goroutine of one group: it runs group, sends the result on its channel of one element, and
  then closes the group's object. What the code opens and closes is kept per goroutine.
\<close>

datatype 'o gpc =
    GgRun "('o, Group \<times> gerr option) prog"
  | GgSent "Group \<times> gerr option"
  | GgExit "Group \<times> gerr option"

record 'o gproc =
  gp_obj :: 'o
  gp_pc :: "'o gpc"
  gp_log :: "'o hevent list"

record 'o gsys =
  gs_mc :: membercache
  gs_left :: "'o list"
  gs_go :: "'o gproc list"
  gs_log :: "'o hevent list"
  gs_container :: 'o
  gs_result :: "(Group list \<times> gerr option) option"

text \<open>Up to the first loop.\<close>

definition Groups_begin :: "'o adsi \<Rightarrow> config_client \<Rightarrow> 'o gsys + gerr" where
  "Groups_begin A c =
     (case openContainer A (cc_domainDN c) global_settings of
        Inr e \<Rightarrow> Inr e
      | Inl container \<Rightarrow>
          (case ct_Children A container of
             Inr e \<Rightarrow> Inr e
           | Inl (children, end) \<Rightarrow>
               Inl \<lparr>gs_mc = cc_mc c, gs_left = children, gs_go = [],
                 gs_log = [Opened (HContainer container), Opened (HIter container)],
                 gs_container = container, gs_result = None\<rparr>))"

text \<open>The first loop starts a goroutine; the clock of the i-th is its two readings of the time.\<close>

definition Groups_next :: "'o adsi \<Rightarrow> (nat \<Rightarrow> time \<times> time) \<Rightarrow> 'o gsys \<Rightarrow> 'o gsys option" where
  "Groups_next A clk s =
     (case gs_left s of
        [] \<Rightarrow> None
      | g # rest \<Rightarrow>
          Some (s\<lparr>gs_left := rest,
            gs_go := gs_go s @ [\<lparr>gp_obj = g, gp_pc = GgRun (cfg_group A (clk (length (gs_go s))) g),
                                 gp_log = [Opened (HObject g)]\<rparr>]\<rparr>))"

definition set_proc :: "nat \<Rightarrow> 'o gproc \<Rightarrow> 'o gsys \<Rightarrow> 'o gsys" where
  "set_proc i p s = s\<lparr>gs_go := (gs_go s)[i := p]\<rparr>"

definition Groups_go :: "nat \<Rightarrow> 'o gsys \<Rightarrow> 'o gsys option" where
  "Groups_go i s =
     (if i < length (gs_go s) then
        (let p = gs_go s ! i in
         case gp_pc p of
           GgRun (Done r) \<Rightarrow> Some (set_proc i (p\<lparr>gp_pc := GgSent r\<rparr>) s)
         | GgRun (Retrieve dn k) \<Rightarrow> Some (set_proc i (p\<lparr>gp_pc := GgRun (k (membercache_Retrieve dn (gs_mc s)))\<rparr>) s)
         | GgRun (SetMember m q) \<Rightarrow> Some (set_proc i (p\<lparr>gp_pc := GgRun q\<rparr>) (s\<lparr>gs_mc := membercache_Set m (gs_mc s)\<rparr>))
         | GgRun (Handle e q) \<Rightarrow> Some (set_proc i (p\<lparr>gp_pc := GgRun q, gp_log := gp_log p @ [e]\<rparr>) s)
         | GgSent r \<Rightarrow> Some (set_proc i (p\<lparr>gp_pc := GgExit r, gp_log := gp_log p @ [Closed (HObject (gp_obj p))]\<rparr>) s)
         | GgExit r \<Rightarrow> None)
      else None)"

text \<open>The second loop, over the results in the order of the channels.\<close>

fun collect :: "nat \<Rightarrow> (Group \<times> gerr option) list \<Rightarrow> Group list \<Rightarrow> gerr option \<Rightarrow> Group list \<times> gerr option" where
  "collect i [] groups err = (groups, err)"
| "collect i (r # rs) groups err =
     (if err \<noteq> None then collect (Suc i) rs groups err
      else (case r of
              (g, Some e) \<Rightarrow> collect (Suc i) rs []
                (Some (ErrOther 33 (''Error retrieving configuration for replication group '' @ show_nat i @ '': '' @ Error e)))
            | (g, None) \<Rightarrow> collect (Suc i) rs (groups @ [g]) None))"

fun sent_result :: "'o gpc \<Rightarrow> (Group \<times> gerr option) option" where
  "sent_result (GgRun p) = None"
| "sent_result (GgSent r) = Some r"
| "sent_result (GgExit r) = Some r"

definition Groups_return :: "'o gsys \<Rightarrow> 'o gsys option" where
  "Groups_return s =
     (if gs_left s = [] \<and> gs_result s = None \<and> list_all (\<lambda>p. sent_result (gp_pc p) \<noteq> None) (gs_go s)
      then Some (s\<lparr>gs_result := Some (collect 0 (map (\<lambda>p. the (sent_result (gp_pc p))) (gs_go s)) [] None),
             gs_log := gs_log s @ [Closed (HIter (gs_container s)), Closed (HContainer (gs_container s))]\<rparr>)
      else None)"

datatype groups_event = GeNext | GeGo nat | GeReturn

fun groups_step :: "'o adsi \<Rightarrow> (nat \<Rightarrow> time \<times> time) \<Rightarrow> groups_event \<Rightarrow> 'o gsys \<Rightarrow> 'o gsys option" where
  "groups_step A clk GeNext s = Groups_next A clk s"
| "groups_step A clk (GeGo i) s = Groups_go i s"
| "groups_step A clk GeReturn s = Groups_return s"

text \<open>Domain (client.globalsettings.go), given what NamingContext and Groups return.\<close>

definition Domain_zero :: Domain where
  "Domain_zero = \<lparr>d_NamingContext = NamingContext_zero, d_Groups = [], d_ConfigDuration = 0\<rparr>"

definition cfg_Domain :: "NamingContext \<times> gerr option \<Rightarrow> Group list \<times> gerr option \<Rightarrow> time \<times> time \<Rightarrow> Domain \<times> gerr option" where
  "cfg_Domain nc groups clock =
     (case nc of
        (_, Some e) \<Rightarrow> (Domain_zero, Some e)
      | (nc, None) \<Rightarrow>
          (case groups of
             (_, Some e) \<Rightarrow> (Domain_zero, Some e)
           | (gs, None) \<Rightarrow>
               (\<lparr>d_NamingContext = nc, d_Groups = gs, d_ConfigDuration = TimeSub (snd clock) (fst clock)\<rparr>, None)))"

section \<open>Reading without a cache\<close>

text \<open>What a program computes on its own, when the cache never has an answer.\<close>

primrec fresh :: "('o, 'a) prog \<Rightarrow> 'a" where
  "fresh (Done a) = a"
| "fresh (Retrieve dn k) = fresh (k None)"
| "fresh (SetMember m p) = fresh p"
| "fresh (Handle e p) = fresh p"

text \<open>The members that it stores in the cache on the way.\<close>

primrec sets :: "('o, 'a) prog \<Rightarrow> MemberInfo list" where
  "sets (Done a) = []"
| "sets (Retrieve dn k) = sets (k None)"
| "sets (SetMember m p) = m # sets p"
| "sets (Handle e p) = sets p"

primrec plain_prog :: "('o, 'a) prog \<Rightarrow> bool" where
  "plain_prog (Done a) = True"
| "plain_prog (Retrieve dn k) = False"
| "plain_prog (SetMember m p) = plain_prog p"
| "plain_prog (Handle e p) = plain_prog p"

text \<open>
  The weakest precondition of a program whose lookups are answered by nothing or by a member that
  \<open>S\<close> admits, and whose stores \<open>S\<close> must admit; the list is the log of handles.
\<close>

primrec wp :: "(string \<Rightarrow> MemberInfo \<Rightarrow> bool) \<Rightarrow> ('o, 'a) prog \<Rightarrow> 'o hevent list \<Rightarrow> ('a \<Rightarrow> 'o hevent list \<Rightarrow> bool) \<Rightarrow> bool" where
  "wp S (Done a) l Q = Q a l"
| "wp S (Retrieve dn k) l Q = (wp S (k None) l Q \<and> (\<forall>m. S dn m \<longrightarrow> wp S (k (Some m)) l Q))"
| "wp S (SetMember m p) l Q = (S (mi_DN m) m \<and> wp S p l Q)"
| "wp S (Handle e p) l Q = wp S p (l @ [e]) Q"

lemma fresh_bind [simp]: "fresh (bind p f) = fresh (f (fresh p))"
  by (induction p) simp_all

lemma sets_bind [simp]: "sets (bind p f) = sets p @ sets (f (fresh p))"
  by (induction p) simp_all

lemma plain_bind: "plain_prog p \<Longrightarrow> (\<And>r. plain_prog (f r)) \<Longrightarrow> plain_prog (bind p f)"
  by (induction p) simp_all

lemma wp_bind [simp]: "wp S (bind p f) l Q = wp S p l (\<lambda>r l. wp S (f r) l Q)"
  by (induction p arbitrary: l) auto

lemma wp_mono: "wp S p l Q \<Longrightarrow> (\<And>r l. Q r l \<Longrightarrow> Q' r l) \<Longrightarrow> wp S p l Q'"
  by (induction p arbitrary: l) auto

lemma wp_conj: "wp S p l Q \<Longrightarrow> wp S p l Q' \<Longrightarrow> wp S p l (\<lambda>r l. Q r l \<and> Q' r l)"
  by (induction p arbitrary: l) auto

lemma using_simps [simp]:
  "fresh (using_handle h p) = fresh p" "sets (using_handle h p) = sets p"
  "plain_prog p \<Longrightarrow> plain_prog (using_handle h p)"
  "wp S (using_handle h p) l Q = wp S p (l @ [Opened h]) (\<lambda>r l. Q r (l @ [Closed h]))"
  by (auto simp: using_handle_def intro: plain_bind)

lemma onerr_simps [simp]: "onerr None v p = p" "onerr (Some e) v p = Done (v, Some e)"
  by (simp_all add: onerr_def)

lemma plain_wp:
  "plain_prog p \<Longrightarrow> (\<And>m. m \<in> set (sets p) \<Longrightarrow> S (mi_DN m) m) \<Longrightarrow> wp S p l (\<lambda>r l. r = fresh p)"
  by (induction p arbitrary: l) auto

section \<open>Programs that a sound cache does not change\<close>

text \<open>If the program succeeds on its own, it returns the same with the cache.\<close>

definition agrees :: "(string \<Rightarrow> MemberInfo \<Rightarrow> bool) \<Rightarrow> ('o, 'a \<times> gerr option) prog \<Rightarrow> bool" where
  "agrees S p \<longleftrightarrow> (\<forall>l. wp S p l (\<lambda>r l. snd (fresh p) = None \<longrightarrow> r = fresh p))"

lemma agrees_Done [simp]: "agrees S (Done r)"
  by (simp add: agrees_def)

lemma agrees_onerr: "agrees S p \<Longrightarrow> agrees S (onerr err v p)"
  by (cases err) (simp_all add: onerr_def)

lemma agrees_using: "agrees S p \<Longrightarrow> agrees S (using_handle h p)"
  by (auto simp: agrees_def)

lemma agrees_Handle: "agrees S p \<Longrightarrow> agrees S (Handle e p)"
  by (auto simp: agrees_def)

lemma agrees_bind:
  assumes "agrees S p" "\<And>v. agrees S (f (v, None))" "\<And>v e. \<exists>w e'. f (v, Some e) = Done (w, Some e')"
  shows "agrees S (bind p f)"
proof -
  have safe: "wp S (f r) l (\<lambda>_ _. True)" for r l
  proof (cases r)
    case (Pair v err)
    show ?thesis
    proof (cases err)
      case None
      then show ?thesis using assms(2) [of v] Pair by (auto simp: agrees_def intro: wp_mono)
    next
      case (Some e)
      obtain w e' where "f (v, Some e) = Done (w, Some e')" using assms(3) by blast
      then show ?thesis using Pair Some by simp
    qed
  qed
  show ?thesis
  proof (cases "snd (fresh p)")
    case None
    then obtain v where v: "fresh p = (v, None)" by (cases "fresh p") auto
    show ?thesis
      unfolding agrees_def
    proof
      fix l
      have a: "wp S p l (\<lambda>r l. r = (v, None))" using assms(1) by (simp add: agrees_def v)
      have b: "wp S (f (v, None)) l (\<lambda>r l. snd (fresh (f (v, None))) = None \<longrightarrow> r = fresh (f (v, None)))" for l
        using assms(2) by (simp add: agrees_def)
      show "wp S (bind p f) l (\<lambda>r l. snd (fresh (bind p f)) = None \<longrightarrow> r = fresh (bind p f))"
        unfolding wp_bind fresh_bind v by (rule wp_mono [OF a]) (simp only: b)
    qed
  next
    case (Some e)
    then obtain v where v: "fresh p = (v, Some e)" by (cases "fresh p") auto
    obtain w e' where w: "f (v, Some e) = Done (w, Some e')" using assms(3) by blast
    have t: "wp S p l (\<lambda>_ _. True)" for l using assms(1) by (auto simp: agrees_def intro: wp_mono)
    have "wp S p l (\<lambda>r l. wp S (f r) l (\<lambda>_ _. True))" for l by (rule wp_mono [OF t safe])
    then show ?thesis by (simp add: agrees_def v w)
  qed
qed

section \<open>The directory names its objects\<close>

text \<open>An object is found under its path, as the directory service documents for ADsPath.\<close>

definition coherent :: "'o adsi \<Rightarrow> bool" where
  "coherent A \<longleftrightarrow> (\<forall>obj. \<exists>dn. ob_Path A obj = (LDAP @ dn, None) \<and> ad_Open A (LDAP @ dn) = Inl obj)"

text \<open>What the cache may answer: what the directory says of the member, where that succeeds.\<close>

definition truth :: "'o adsi \<Rightarrow> string \<Rightarrow> MemberInfo \<Rightarrow> bool" where
  "truth A dn mi \<longleftrightarrow> (\<forall>m. fresh (cfg_MemberInfo A dn) = (m, None) \<longrightarrow> mi = m)"

definition sound_cache :: "'o adsi \<Rightarrow> membercache \<Rightarrow> bool" where
  "sound_cache A mc \<longleftrightarrow> (\<forall>dn mi. membercache_Retrieve dn mc = Some mi \<longrightarrow> truth A dn mi)"

lemma sound_cache_New [simp]: "sound_cache A membercache_New"
  by (simp add: sound_cache_def membercache_Retrieve_def membercache_New_def)

lemma sound_cache_Set: "sound_cache A mc \<Longrightarrow> truth A (mi_DN m) m \<Longrightarrow> sound_cache A (membercache_Set m mc)"
  by (auto simp: sound_cache_def membercache_Retrieve_def membercache_Set_def amap.look_put)

text \<open>memberInfo looks nothing up, and stores only what it returns, under the name it was given.\<close>

lemma plain_steps [simp]: "plain_prog p \<Longrightarrow> plain_prog (onerr err v p)"
  by (simp add: onerr_def)

lemma plain_open [simp]: "plain_prog (cfg_Computer A dn)" "plain_prog (cfg_LocalSettings A dn)"
  by (simp_all add: cfg_Computer_def cfg_LocalSettings_def split: sum.split)

lemma sets_open [simp]: "sets (cfg_Computer A dn) = []" "sets (cfg_LocalSettings A dn) = []"
  by (simp_all add: cfg_Computer_def cfg_LocalSettings_def split: sum.split)

lemma plain_rest [simp]: "plain_prog (memberInfo_rest A obj compref member)"
  by (auto simp: memberInfo_rest_def Let_def split: prod.splits intro!: plain_steps plain_bind)

lemma plain_memberInfo: "plain_prog (cfg_memberInfo A obj dn)"
  by (auto simp: cfg_memberInfo_def memberInfo_server_def Let_def split: prod.splits sum.splits)

lemma sets_onerr: "m \<in> set (sets (onerr err v p)) \<Longrightarrow> err = None \<and> m \<in> set (sets p)"
  by (auto simp: onerr_def split: if_splits)

lemma rest_sets:
  assumes "m \<in> set (sets (memberInfo_rest A obj compref member))"
  shows "fst (fresh (memberInfo_rest A obj compref member)) = m" "mi_DN m = mi_DN member"
  using assms
  by (auto simp: memberInfo_rest_def Let_def dest!: sets_onerr split: prod.splits)

lemma server_sets:
  assumes "m \<in> set (sets (memberInfo_server A obj member))"
  shows "fst (fresh (memberInfo_server A obj member)) = m" "mi_DN m = mi_DN member"
  using assms
  by (auto simp: memberInfo_server_def dest!: sets_onerr dest: rest_sets split: prod.splits)

lemma memberInfo_sets:
  assumes "m \<in> set (sets (cfg_memberInfo A obj dn))"
  shows "fst (fresh (cfg_memberInfo A obj dn)) = m"
    "mi_DN m = (if dn = [] then TrimPrefix (fst (ob_Path A obj)) LDAP else dn)"
  subgoal
    using assms
    by (auto simp: cfg_memberInfo_def Let_def dest!: sets_onerr dest: rest_sets(1) server_sets(1) split: prod.splits sum.splits if_splits)
  subgoal
    using assms
    by (auto simp: cfg_memberInfo_def Let_def dest!: sets_onerr intro: trans [OF rest_sets(2)] trans [OF server_sets(2)]
        split: prod.splits sum.splits if_splits)
  done

lemma memberInfo_path:
  assumes "ob_Path A obj = (LDAP @ dn, None)"
  shows "cfg_memberInfo A obj [] = cfg_memberInfo A obj dn"
  by (cases "dn = []") (simp_all add: cfg_memberInfo_def assms)

lemma memberInfo_true:
  assumes "coherent A" "dn \<noteq> [] \<Longrightarrow> ad_Open A (URL dn) = Inl obj" "m \<in> set (sets (cfg_memberInfo A obj dn))"
  shows "truth A (mi_DN m) m"
proof -
  obtain d where d: "ob_Path A obj = (LDAP @ d, None)" "ad_Open A (LDAP @ d) = Inl obj"
    using assms(1) by (auto simp: coherent_def)
  have m: "fst (fresh (cfg_memberInfo A obj dn)) = m" by (rule memberInfo_sets [OF assms(3)])
  have n: "mi_DN m = (if dn = [] then d else dn)"
    unfolding memberInfo_sets(2) [OF assms(3)] by (simp only: d fst_conv TrimPrefix_append)
  have "ad_Open A (URL (mi_DN m)) = Inl obj" using assms(2) d by (simp add: n URL_LDAP)
  moreover have "cfg_memberInfo A obj (mi_DN m) = cfg_memberInfo A obj dn"
    using memberInfo_path [OF d(1)] by (simp add: n)
  ultimately have "fresh (cfg_MemberInfo A (mi_DN m)) = fresh (cfg_memberInfo A obj dn)"
    by (simp add: cfg_MemberInfo_def)
  then show ?thesis using m by (auto simp: truth_def)
qed

section \<open>Every function agrees with itself without a cache\<close>

lemma memberInfo_agrees:
  assumes "coherent A" "dn \<noteq> [] \<Longrightarrow> ad_Open A (URL dn) = Inl obj"
  shows "agrees (truth A) (cfg_memberInfo A obj dn)"
  unfolding agrees_def
  by (intro allI wp_mono [OF plain_wp [OF plain_memberInfo]] impI memberInfo_true [OF assms])

lemma MemberInfo_agrees:
  assumes "coherent A"
  shows "agrees (truth A) (cfg_MemberInfo A dn)"
proof -
  let ?p = "case ad_Open A (URL dn) of Inr e \<Rightarrow> Done (MemberInfo_zero, Some e)
    | Inl m \<Rightarrow> using_handle (HObject m) (cfg_memberInfo A m dn)"
  have "agrees (truth A) ?p"
    using memberInfo_agrees [OF assms] by (auto split: sum.split intro: agrees_using)
  moreover have "fresh (cfg_MemberInfo A dn) = fresh ?p" by (simp add: cfg_MemberInfo_def split: sum.split)
  moreover have "snd (fresh ?p) = None \<longrightarrow> (mi, None) = fresh ?p" if "truth A dn mi" for mi
    using that calculation(2) by (cases "fresh ?p") (auto simp: truth_def)
  ultimately show ?thesis unfolding agrees_def by (simp add: cfg_MemberInfo_def)
qed

lemma connection_agrees: "coherent A \<Longrightarrow> agrees (truth A) (cfg_connection A obj)"
  by (auto simp: cfg_connection_def Let_def split: prod.splits intro!: agrees_onerr agrees_bind MemberInfo_agrees)

lemma connections_loop_agrees: "coherent A \<Longrightarrow> agrees (truth A) (connections_loop A objs cs)"
  by (induction objs arbitrary: cs) (auto intro!: agrees_using agrees_bind connection_agrees)

lemma connections_agrees: "coherent A \<Longrightarrow> agrees (truth A) (cfg_connections A obj)"
  by (auto simp: cfg_connections_def split: sum.splits intro!: agrees_using connections_loop_agrees)

lemma member_agrees:
  assumes "coherent A" "dn \<noteq> [] \<Longrightarrow> ad_Open A (URL dn) = Inl obj"
  shows "agrees (truth A) (cfg_member A obj dn)"
  unfolding cfg_member_def
  using assms(1)
  by (auto simp: Let_def split: sum.splits
      intro!: agrees_bind memberInfo_agrees [OF assms] agrees_Handle connections_agrees)

lemma members_loop_agrees: "coherent A \<Longrightarrow> agrees (truth A) (members_loop A objs ms)"
  by (induction objs arbitrary: ms) (auto intro!: agrees_using agrees_bind member_agrees)

lemma members_agrees: "coherent A \<Longrightarrow> agrees (truth A) (cfg_members A obj)"
  by (auto simp: cfg_members_def split: sum.splits intro!: agrees_using members_loop_agrees)

lemma folders_loop_agrees: "agrees S (folders_loop A objs fs)"
  by (induction objs arbitrary: fs) (auto split: prod.splits intro!: agrees_using agrees_onerr)

lemma folders_agrees: "agrees S (cfg_folders A obj)"
  by (auto simp: cfg_folders_def split: sum.splits intro!: agrees_using folders_loop_agrees)

lemma group_agrees: "coherent A \<Longrightarrow> agrees (truth A) (cfg_group A clock g)"
  by (auto simp: cfg_group_def Let_def split: prod.splits sum.splits
      intro!: agrees_onerr agrees_using agrees_bind folders_agrees members_agrees)

section \<open>What is opened is closed\<close>

fun opened :: "'o hevent list \<Rightarrow> 'o handle multiset" where
  "opened [] = {#}"
| "opened (Opened h # l) = add_mset h (opened l)"
| "opened (Closed h # l) = opened l"

fun closed :: "'o hevent list \<Rightarrow> 'o handle multiset" where
  "closed [] = {#}"
| "closed (Opened h # l) = closed l"
| "closed (Closed h # l) = add_mset h (closed l)"

lemma opened_append [simp]: "opened (l @ m) = opened l + opened m"
  by (induction l rule: opened.induct) simp_all

lemma closed_append [simp]: "closed (l @ m) = closed l + closed m"
  by (induction l rule: closed.induct) simp_all

text \<open>The containers of connections that a server reference leads to: the code never closes them.\<close>

definition server_refs :: "'o adsi \<Rightarrow> 'o handle set" where
  "server_refs A = {HObject obj | obj m ref err.
     ob_AttrString A m ''serverReference'' = (ref, err) \<and> ref \<noteq> [] \<and> ad_Open A (URL ref) = Inl obj}"

text \<open>From one log to the next, all but some of these are closed.\<close>

definition net :: "'o adsi \<Rightarrow> 'o hevent list \<Rightarrow> 'o hevent list \<Rightarrow> bool" where
  "net A l l' \<longleftrightarrow>
     (\<exists>K. set_mset K \<subseteq> server_refs A \<and> opened l' + closed l = closed l' + opened l + K)"

lemma net_refl [simp]: "net A l l"
  by (auto simp: net_def intro!: exI [of _ "{#}"])

lemma net_trans: "net A l m \<Longrightarrow> net A m n \<Longrightarrow> net A l n"
proof -
  assume "net A l m" "net A m n"
  then obtain J K where J: "set_mset J \<subseteq> server_refs A" "opened m + closed l = closed m + opened l + J"
    and K: "set_mset K \<subseteq> server_refs A" "opened n + closed m = closed n + opened m + K"
    unfolding net_def by blast
  have "count (opened n + closed l) x = count (closed n + opened l + (J + K)) x" for x
    using arg_cong [OF J(2), of "\<lambda>M. count M x"] arg_cong [OF K(2), of "\<lambda>M. count M x"] by simp
  then have "opened n + closed l = closed n + opened l + (J + K)" by (rule multiset_eqI)
  with J(1) K(1) show ?thesis unfolding net_def by (intro exI [of _ "J + K"]) auto
qed

lemma net_close: "net A (l @ [Opened h]) m \<Longrightarrow> net A l (m @ [Closed h])"
  by (auto simp: net_def)

lemma net_open: "net A (l @ [Opened h]) m \<Longrightarrow> h \<in> server_refs A \<Longrightarrow> net A l m"
  unfolding net_def by (elim exE, rule_tac x = "add_mset h K" in exI) auto

definition balanced :: "'o adsi \<Rightarrow> ('o, 'a) prog \<Rightarrow> bool" where
  "balanced A p \<longleftrightarrow> (\<forall>l. wp (\<lambda>_ _. True) p l (\<lambda>r l'. net A l l'))"

lemma wp_both: "wp (\<lambda>_ _. True) p l Q \<Longrightarrow> wp S p l Q' \<Longrightarrow> wp S p l (\<lambda>r l. Q r l \<and> Q' r l)"
  by (induction p arbitrary: l) auto

lemma balanced_Done [simp]: "balanced A (Done r)"
  by (simp add: balanced_def)

lemma balanced_bind: "balanced A p \<Longrightarrow> (\<And>r. balanced A (f r)) \<Longrightarrow> balanced A (bind p f)"
  unfolding balanced_def wp_bind by (blast intro: wp_mono net_trans)

lemma balanced_onerr: "balanced A p \<Longrightarrow> balanced A (onerr err v p)"
  by (cases err) simp_all

lemma balanced_using: "balanced A p \<Longrightarrow> balanced A (using_handle h p)"
  unfolding balanced_def using_simps by (blast intro: wp_mono net_close)

lemma balanced_open: "balanced A p \<Longrightarrow> h \<in> server_refs A \<Longrightarrow> balanced A (Handle (Opened h) p)"
  unfolding balanced_def wp.simps by (blast intro: wp_mono net_open)

lemma balanced_Set: "balanced A p \<Longrightarrow> balanced A (SetMember m p)"
  by (auto simp: balanced_def)

lemmas balanced_rules = balanced_bind balanced_onerr balanced_using balanced_Set

lemma Computer_balanced: "balanced A (cfg_Computer A dn)" "balanced A (cfg_LocalSettings A dn)"
  by (auto simp: cfg_Computer_def cfg_LocalSettings_def split: sum.split intro!: balanced_rules)

lemma rest_balanced: "balanced A (memberInfo_rest A obj compref member)"
  by (auto simp: memberInfo_rest_def Let_def split: prod.splits intro!: balanced_rules Computer_balanced)

lemma memberInfo_balanced: "balanced A (cfg_memberInfo A obj dn)"
proof -
  have server: "balanced A (memberInfo_server A obj member)" for obj member
    by (auto simp: memberInfo_server_def split: prod.split intro!: balanced_rules rest_balanced)
  show ?thesis
    by (cases "ob_Class A obj"; cases "openParent A obj"; cases "ob_AttrString A obj ''msDFSR-ComputerReference''")
      (simp_all add: cfg_memberInfo_def Let_def server rest_balanced balanced_onerr balanced_using)
qed

lemma MemberInfo_balanced: "balanced A (cfg_MemberInfo A dn)"
proof -
  have "balanced A (case ad_Open A (URL dn) of Inr e \<Rightarrow> Done (MemberInfo_zero, Some e)
      | Inl m \<Rightarrow> using_handle (HObject m) (cfg_memberInfo A m dn))"
    by (auto split: sum.split intro!: balanced_using memberInfo_balanced)
  then show ?thesis by (simp add: balanced_def cfg_MemberInfo_def)
qed

lemma connection_balanced: "balanced A (cfg_connection A obj)"
  by (auto simp: cfg_connection_def Let_def split: prod.splits intro!: balanced_rules MemberInfo_balanced)

lemma connections_loop_balanced: "balanced A (connections_loop A objs cs)"
  by (induction objs arbitrary: cs) (auto intro!: balanced_rules connection_balanced)

lemma connections_balanced: "balanced A (cfg_connections A obj)"
  by (auto simp: cfg_connections_def split: sum.splits intro!: balanced_rules connections_loop_balanced)

lemma server_refsI:
  "fst (ob_AttrString A m ''serverReference'') \<noteq> [] \<Longrightarrow> ad_Open A (URL (fst (ob_AttrString A m ''serverReference''))) = Inl obj \<Longrightarrow>
   HObject obj \<in> server_refs A"
  unfolding server_refs_def by (cases "ob_AttrString A m ''serverReference''") force

lemma member_balanced: "balanced A (cfg_member A obj dn)"
  unfolding cfg_member_def Let_def
  by (auto split: sum.splits
      intro!: balanced_rules memberInfo_balanced connections_balanced balanced_open intro: server_refsI)

lemma members_loop_balanced: "balanced A (members_loop A objs ms)"
  by (induction objs arbitrary: ms) (auto intro!: balanced_rules member_balanced)

lemma members_balanced: "balanced A (cfg_members A obj)"
  by (auto simp: cfg_members_def split: sum.splits intro!: balanced_rules members_loop_balanced)

lemma folders_loop_balanced: "balanced A (folders_loop A objs fs)"
  by (induction objs arbitrary: fs) (auto split: prod.splits intro!: balanced_rules)

lemma folders_balanced: "balanced A (cfg_folders A obj)"
  by (auto simp: cfg_folders_def split: sum.splits intro!: balanced_rules folders_loop_balanced)

lemma group_balanced: "balanced A (cfg_group A clock g)"
  by (auto simp: cfg_group_def Let_def split: prod.splits sum.splits
      intro!: balanced_rules folders_balanced members_balanced)

section \<open>The goroutines of Groups\<close>

definition group_objects :: "'o adsi \<Rightarrow> string \<Rightarrow> 'o list" where
  "group_objects A dn =
     (case openContainer A dn global_settings of
        Inr e \<Rightarrow> []
      | Inl c \<Rightarrow> (case ct_Children A c of Inr e \<Rightarrow> [] | Inl (children, end) \<Rightarrow> children))"

text \<open>What the cache may hold at the start: anything true, in particular nothing.\<close>

definition cache_ok :: "'o adsi \<Rightarrow> membercache \<Rightarrow> bool" where
  "cache_ok A mc \<longleftrightarrow> (coherent A \<longrightarrow> sound_cache A mc)"

definition gsys_init :: "'o adsi \<Rightarrow> string \<Rightarrow> 'o gsys \<Rightarrow> bool" where
  "gsys_init A dn s \<longleftrightarrow> (\<exists>mc. Groups_begin A \<lparr>cc_domainDN = dn, cc_mc = mc\<rparr> = Inl s \<and> cache_ok A mc)"

text \<open>The result is the one of the group read alone, if that succeeds.\<close>

definition good :: "'o adsi \<Rightarrow> time \<times> time \<Rightarrow> 'o \<Rightarrow> Group \<times> gerr option \<Rightarrow> bool" where
  "good A clock g r \<longleftrightarrow>
     (coherent A \<and> snd (fresh (cfg_group A clock g)) = None \<longrightarrow> r = fresh (cfg_group A clock g))"

definition proc_ok :: "'o adsi \<Rightarrow> time \<times> time \<Rightarrow> 'o gproc \<Rightarrow> bool" where
  "proc_ok A clock p \<longleftrightarrow>
     (case gp_pc p of
        GgRun q \<Rightarrow> wp (\<lambda>dn m. coherent A \<longrightarrow> truth A dn m) q (gp_log p)
          (\<lambda>r l. net A [Opened (HObject (gp_obj p))] l \<and> good A clock (gp_obj p) r)
      | GgSent r \<Rightarrow> net A [Opened (HObject (gp_obj p))] (gp_log p) \<and> good A clock (gp_obj p) r
      | GgExit r \<Rightarrow> net A [] (gp_log p) \<and> good A clock (gp_obj p) r)"

definition result_of :: "'o gproc list \<Rightarrow> Group list \<times> gerr option" where
  "result_of ps = collect 0 (map (\<lambda>p. the (sent_result (gp_pc p))) ps) [] None"

definition all_sent :: "'o gproc list \<Rightarrow> bool" where
  "all_sent ps \<longleftrightarrow> list_all (\<lambda>p. sent_result (gp_pc p) \<noteq> None) ps"

definition groups_inv :: "'o adsi \<Rightarrow> (nat \<Rightarrow> time \<times> time) \<Rightarrow> 'o list \<Rightarrow> 'o gsys \<Rightarrow> bool" where
  "groups_inv A clk gs s \<longleftrightarrow>
     cache_ok A (gs_mc s) \<and> map gp_obj (gs_go s) @ gs_left s = gs \<and>
     (\<forall>i < length (gs_go s). proc_ok A (clk i) (gs_go s ! i)) \<and>
     (case gs_result s of
        None \<Rightarrow> opened (gs_log s) = add_mset (HIter (gs_container s)) {#HContainer (gs_container s)#} \<and> closed (gs_log s) = {#}
      | Some r \<Rightarrow> gs_left s = [] \<and> all_sent (gs_go s) \<and> r = result_of (gs_go s) \<and> opened (gs_log s) = closed (gs_log s))"

lemma group_wp:
  "wp (\<lambda>dn m. coherent A \<longrightarrow> truth A dn m) (cfg_group A clock g) l (\<lambda>r l'. net A l l' \<and> good A clock g r)"
proof -
  have n: "wp (\<lambda>_ _. True) (cfg_group A clock g) l (\<lambda>r l'. net A l l')" using group_balanced [of A clock g] by (simp add: balanced_def)
  show ?thesis
  proof (cases "coherent A")
    case True
    then have "wp (truth A) (cfg_group A clock g) l (\<lambda>r l'. good A clock g r)"
      using group_agrees [OF True] by (auto simp: agrees_def good_def intro: wp_mono)
    with True show ?thesis by (simp add: wp_both [OF n])
  next
    case False
    with n show ?thesis by (auto simp: good_def intro: wp_mono)
  qed
qed

lemma cfg_inv_next:
  assumes "groups_inv A clk gs s" "Groups_next A clk s = Some t"
  shows "groups_inv A clk gs t"
proof -
  obtain g rest where g: "gs_left s = g # rest" using assms(2) by (auto simp: Groups_next_def split: list.splits)
  have "proc_ok A (clk (length (gs_go s))) \<lparr>gp_obj = g, gp_pc = GgRun (cfg_group A (clk (length (gs_go s))) g), gp_log = [Opened (HObject g)]\<rparr>"
    by (simp add: proc_ok_def group_wp)
  moreover have "gs_result s = None" using assms(1) g by (auto simp: groups_inv_def split: option.splits)
  ultimately show ?thesis using assms g by (auto simp: groups_inv_def Groups_next_def nth_append less_Suc_eq)
qed

lemma result_keeps:
  assumes "i < length ps" "sent_result (gp_pc p) = sent_result (gp_pc (ps ! i))"
  shows "result_of (ps[i := p]) = result_of (ps :: 'a gproc list)" "all_sent (ps[i := p]) = all_sent ps"
proof -
  have "map (\<lambda>p. sent_result (gp_pc p)) (ps[i := p]) = map (\<lambda>p. sent_result (gp_pc p)) ps"
    using assms by (simp add: map_update list_update_same_conv)
  moreover have "result_of qs = collect 0 (map the (map (\<lambda>p. sent_result (gp_pc p)) qs)) [] None"
    "all_sent qs = (None \<notin> set (map (\<lambda>p. sent_result (gp_pc p)) qs))" for qs :: "'a gproc list"
    by (simp add: result_of_def comp_def) (simp only: all_sent_def list_all_iff set_map image_iff; metis)
  ultimately show "result_of (ps[i := p]) = result_of ps" "all_sent (ps[i := p]) = all_sent ps" by presburger+
qed

lemma cfg_inv_go:
  assumes "groups_inv A clk gs s" "Groups_go i s = Some t"
  shows "groups_inv A clk gs t"
proof -
  have i: "i < length (gs_go s)" using assms(2) by (auto simp: Groups_go_def split: if_splits)
  define p where "p = gs_go s ! i"
  obtain q mc where t: "t = set_proc i q (s\<lparr>gs_mc := mc\<rparr>)" and mc: "cache_ok A mc" and q: "proc_ok A (clk i) q"
    and same: "gp_obj q = gp_obj p"
    and res: "sent_result (gp_pc q) = sent_result (gp_pc p) \<or> sent_result (gp_pc p) = None"
  proof -
    have ok: "proc_ok A (clk i) p" "cache_ok A (gs_mc s)" using assms(1) i by (auto simp: groups_inv_def p_def)
    show ?thesis
    proof (cases "gp_pc p")
      case (GgRun prg)
      then show ?thesis
      proof (cases prg)
        case (Retrieve dn k)
        have "coherent A \<longrightarrow> (\<forall>m. membercache_Retrieve dn (gs_mc s) = Some m \<longrightarrow> truth A dn m)"
          using ok(2) by (auto simp: cache_ok_def sound_cache_def)
        with ok GgRun Retrieve i assms(2) show ?thesis
          by (intro that [of "p\<lparr>gp_pc := GgRun (k (membercache_Retrieve dn (gs_mc s)))\<rparr>" "gs_mc s"])
            (auto simp: Groups_go_def proc_ok_def set_proc_def p_def [symmetric] split: option.splits,
             (cases "membercache_Retrieve dn (gs_mc s)"; auto)+)
      next
        case (SetMember m prg')
        with ok GgRun i assms(2) show ?thesis
          by (intro that [of "p\<lparr>gp_pc := GgRun prg'\<rparr>" "membercache_Set m (gs_mc s)"])
            (auto simp: Groups_go_def proc_ok_def set_proc_def p_def [symmetric] cache_ok_def intro: sound_cache_Set)
      next
        case (Done r)
        with ok GgRun i assms(2) show ?thesis
          by (intro that [of "p\<lparr>gp_pc := GgSent r\<rparr>" "gs_mc s"])
            (auto simp: Groups_go_def proc_ok_def set_proc_def p_def [symmetric])
      next
        case (Handle e prg')
        with ok GgRun i assms(2) show ?thesis
          by (intro that [of "p\<lparr>gp_pc := GgRun prg', gp_log := gp_log p @ [e]\<rparr>" "gs_mc s"])
            (auto simp: Groups_go_def proc_ok_def set_proc_def p_def [symmetric])
      qed
    next
      case (GgSent r)
      with ok i assms(2) net_close [of A "[]" "HObject (gp_obj p)" "gp_log p"] show ?thesis
        by (intro that [of "p\<lparr>gp_pc := GgExit r, gp_log := gp_log p @ [Closed (HObject (gp_obj p))]\<rparr>" "gs_mc s"])
          (auto simp: Groups_go_def proc_ok_def set_proc_def p_def [symmetric])
    next
      case (GgExit r)
      with i assms(2) show ?thesis by (simp add: Groups_go_def p_def)
    qed
  qed
  have m: "map gp_obj ((gs_go s)[i := q]) = map gp_obj (gs_go s)"
    using i same by (simp add: map_update list_update_same_conv p_def)
  have "sent_result (gp_pc q) = sent_result (gp_pc p)" if "gs_result s = Some r" for r
    using res i assms(1) that by (auto simp: groups_inv_def p_def all_sent_def list_all_length)
  with assms(1) mc q i m result_keeps [OF i, of q] show ?thesis
    by (auto simp: groups_inv_def t set_proc_def nth_list_update p_def split: option.splits)
qed

lemma cfg_inv_return: "groups_inv A clk gs s \<Longrightarrow> Groups_return s = Some t \<Longrightarrow> groups_inv A clk gs t"
  by (auto simp: groups_inv_def Groups_return_def all_sent_def result_of_def split: if_splits)

interpretation groups_machine: inductive_invariant "groups_step A clk" "gsys_init A dn" "groups_inv A clk (group_objects A dn)"
  for A clk dn
proof
  fix s assume "gsys_init A dn s"
  then obtain mc where "Groups_begin A \<lparr>cc_domainDN = dn, cc_mc = mc\<rparr> = Inl s" "cache_ok A mc" by (auto simp: gsys_init_def)
  then show "groups_inv A clk (group_objects A dn) s"
    by (auto simp: Groups_begin_def groups_inv_def group_objects_def split: sum.splits)
next
  fix s e t assume "groups_inv A clk (group_objects A dn) s" "groups_step A clk e s = Some t"
  then show "groups_inv A clk (group_objects A dn) t"
    by (cases e) (auto intro: cfg_inv_next cfg_inv_go cfg_inv_return)
qed

section \<open>The results\<close>

lemma collect_error [simp]: "collect i rs groups (Some e) = (groups, Some e)"
  by (induction rs arbitrary: i) simp_all

lemma collect_all: "list_all (\<lambda>r. snd r = None) rs \<Longrightarrow> collect i rs groups None = (groups @ map fst rs, None)"
  by (induction rs arbitrary: i groups) (auto split: prod.splits)

lemma collect_shape:
  "case collect i rs groups None of (gs, None) \<Rightarrow> length gs = length groups + length rs | (gs, Some e) \<Rightarrow> gs = []"
  by (induction i rs groups "None :: gerr option" rule: collect.induct) (auto split: option.splits prod.splits)

section \<open>Groups ends\<close>

fun exited :: "'o gpc \<Rightarrow> bool" where
  "exited (GgExit r) = True"
| "exited pc = False"

lemma exited_sent: "exited pc \<Longrightarrow> sent_result pc \<noteq> None"
  by (cases pc) simp_all

lemma step_then:
  assumes "step e s = Some u" "\<exists>es t. run step u es = Some t \<and> P t"
  shows "\<exists>es t. run step s es = Some t \<and> P t"
  using assms by (metis option.simps(5) run.simps(2))

lemma go_ends:
  assumes "i < length (gs_go s)" "gp_pc (gs_go s ! i) = GgRun p"
  shows "\<exists>es t. run (groups_step A clk) s es = Some t \<and>
    (\<exists>q. gs_go t = (gs_go s)[i := q] \<and> exited (gp_pc q)) \<and> gs_left t = gs_left s \<and> gs_result t = gs_result s"
  using assms
proof (induction p arbitrary: s)
  case (Done r)
  let ?u = "set_proc i ((gs_go s ! i)\<lparr>gp_pc := GgSent r\<rparr>) s"
  have u: "groups_step A clk (GeGo i) s = Some ?u" using Done by (simp add: Groups_go_def Let_def)
  have "groups_step A clk (GeGo i) ?u = Some (set_proc i ((gs_go ?u ! i)\<lparr>gp_pc := GgExit r,
      gp_log := gp_log (gs_go ?u ! i) @ [Closed (HObject (gp_obj (gs_go ?u ! i)))]\<rparr>) ?u)"
    using Done by (simp add: Groups_go_def Let_def set_proc_def)
  with u Done(1) show ?case
    by (intro exI [of _ "[GeGo i, GeGo i]"]) (auto simp: set_proc_def)
next
  case (Retrieve dn k)
  let ?x = "membercache_Retrieve dn (gs_mc s)"
  let ?u = "set_proc i ((gs_go s ! i)\<lparr>gp_pc := GgRun (k ?x)\<rparr>) s"
  have "groups_step A clk (GeGo i) s = Some ?u" using Retrieve.prems by (simp add: Groups_go_def Let_def)
  from step_then [where step = "groups_step A clk", OF this] Retrieve.IH [of "k ?x" ?u] Retrieve.prems
  show ?case by (simp add: set_proc_def)
next
  case (SetMember m p)
  let ?u = "set_proc i ((gs_go s ! i)\<lparr>gp_pc := GgRun p\<rparr>) (s\<lparr>gs_mc := membercache_Set m (gs_mc s)\<rparr>)"
  have "groups_step A clk (GeGo i) s = Some ?u" using SetMember.prems by (simp add: Groups_go_def Let_def)
  from step_then [where step = "groups_step A clk", OF this] SetMember.IH [of ?u] SetMember.prems
  show ?case by (simp add: set_proc_def)
next
  case (Handle e p)
  let ?u = "set_proc i ((gs_go s ! i)\<lparr>gp_pc := GgRun p, gp_log := gp_log (gs_go s ! i) @ [e]\<rparr>) s"
  have "groups_step A clk (GeGo i) s = Some ?u" using Handle.prems by (simp add: Groups_go_def Let_def)
  from step_then [where step = "groups_step A clk", OF this] Handle.IH [of ?u] Handle.prems
  show ?case by (simp add: set_proc_def)
qed

lemma one_ends:
  assumes "i < length (gs_go s)" "\<not> exited (gp_pc (gs_go s ! i))"
  shows "\<exists>es t. run (groups_step A clk) s es = Some t \<and>
    (\<exists>q. gs_go t = (gs_go s)[i := q] \<and> exited (gp_pc q)) \<and> gs_left t = gs_left s \<and> gs_result t = gs_result s"
proof (cases "gp_pc (gs_go s ! i)")
  case (GgSent r)
  with assms show ?thesis by (intro exI [of _ "[GeGo i]"]) (auto simp: Groups_go_def set_proc_def Let_def)
qed (use assms go_ends in auto)

definition all_exited :: "'o gproc list \<Rightarrow> bool" where
  "all_exited ps \<longleftrightarrow> list_all (\<lambda>p. exited (gp_pc p)) ps"

lemma all_end:
  "\<exists>es t. run (groups_step A clk) s es = Some t \<and> all_exited (gs_go t) \<and> gs_left t = gs_left s \<and> gs_result t = gs_result s"
proof (induction "howmany (\<lambda>p. \<not> exited (gp_pc p)) (gs_go s)" arbitrary: s rule: less_induct)
  case less
  show ?case
  proof (cases "all_exited (gs_go s)")
    case True
    then show ?thesis by (intro exI [of _ "[]"]) simp
  next
    case False
    then obtain i where i: "i < length (gs_go s)" "\<not> exited (gp_pc (gs_go s ! i))"
      by (auto simp: all_exited_def list_all_length)
    obtain es t q where t: "run (groups_step A clk) s es = Some t" "gs_go t = (gs_go s)[i := q]" "exited (gp_pc q)"
      "gs_left t = gs_left s" "gs_result t = gs_result s" using one_ends [OF i] by metis
    have "howmany (\<lambda>p. \<not> exited (gp_pc p)) (gs_go t) < howmany (\<lambda>p. \<not> exited (gp_pc p)) (gs_go s)"
      using howmany_update [OF i(1), of "\<lambda>p. \<not> exited (gp_pc p)" q] i t by simp
    from less [OF this] obtain fs w where w: "run (groups_step A clk) t fs = Some w" "all_exited (gs_go w)"
      "gs_left w = gs_left t" "gs_result w = gs_result t" by blast
    with t show ?thesis by (intro exI [of _ "es @ fs"] exI [of _ w]) (simp add: run_append)
  qed
qed

lemma all_started:
  "\<exists>es t. run (groups_step A clk) s es = Some t \<and> gs_left t = [] \<and> gs_result t = gs_result s"
proof (induction "gs_left s" arbitrary: s)
  case Nil
  then show ?case by (intro exI [of _ "[]"]) simp
next
  case (Cons g rest)
  then have g: "gs_left s = g # rest" by simp
  obtain u where "groups_step A clk GeNext s = Some u" "gs_left u = rest" "gs_result u = gs_result s"
    by (simp add: Groups_next_def g)
  with Cons(1) [of u] step_then [of "groups_step A clk" GeNext s u] show ?case by simp
qed

lemma groups_end:
  assumes "groups_inv A clk gs s"
  shows "\<exists>es t. run (groups_step A clk) s es = Some t \<and> gs_result t \<noteq> None \<and> all_exited (gs_go t)"
proof -
  obtain es u where u: "run (groups_step A clk) s es = Some u" "gs_left u = []" using all_started by metis
  obtain fs t where t: "run (groups_step A clk) u fs = Some t" "all_exited (gs_go t)" "gs_left t = []"
    using all_end [of A clk u] u by metis
  have r: "run (groups_step A clk) s (es @ fs) = Some t" using u t by (simp add: run_append)
  show ?thesis
  proof (cases "gs_result t")
    case (Some x)
    with r t show ?thesis by (intro exI conjI) (assumption | simp)+
  next
    case None
    have "list_all (\<lambda>p. sent_result (gp_pc p) \<noteq> None) (gs_go t)"
      using t(2) exited_sent by (auto simp: all_exited_def list_all_iff)
    then obtain w where "groups_step A clk GeReturn t = Some w" "gs_result w \<noteq> None" "gs_go w = gs_go t"
      using None t(3) by (simp add: Groups_return_def)
    with r t(2) show ?thesis
      by (intro exI [of _ "es @ fs @ [GeReturn]"] exI [of _ w]) (simp add: run_append u(1) t(1))
  qed
qed

lemma reach_inv_groups: "reach (groups_step A clk) (gsys_init A dn) s \<Longrightarrow> groups_inv A clk (group_objects A dn) s"
  by (rule groups_machine.reach_inv)

lemma result_good:
  assumes "groups_inv A clk gs s" "gs_result s = Some r"
  shows "length (gs_go s) = length gs" "r = result_of (gs_go s)"
    "i < length gs \<Longrightarrow> good A (clk i) (gs ! i) (the (sent_result (gp_pc (gs_go s ! i))))"
proof -
  have l: "gs_left s = []" "all_sent (gs_go s)" "map gp_obj (gs_go s) = gs" using assms by (auto simp: groups_inv_def)
  show n: "length (gs_go s) = length gs" using l(3) by auto
  show "r = result_of (gs_go s)" using assms by (simp add: groups_inv_def)
  assume i: "i < length gs"
  have "proc_ok A (clk i) (gs_go s ! i)" using assms(1) i n by (simp add: groups_inv_def)
  moreover have "gp_obj (gs_go s ! i) = gs ! i" using i n l(3) by (metis nth_map)
  moreover have "sent_result (gp_pc (gs_go s ! i)) \<noteq> None" using i n l(2) by (simp add: all_sent_def list_all_length)
  ultimately show "good A (clk i) (gs ! i) (the (sent_result (gp_pc (gs_go s ! i))))"
    by (cases "gp_pc (gs_go s ! i)") (simp_all add: proc_ok_def)
qed

lemma collect_names:
  "snd (collect i rs groups None) = Some e \<Longrightarrow>
   \<exists>j < length rs. \<exists>e'. snd (rs ! j) = Some e' \<and>
     e = ErrOther 33 (''Error retrieving configuration for replication group '' @ show_nat (i + j) @ '': '' @ Error e')"
proof (induction i rs groups "None :: gerr option" rule: collect.induct)
  case (2 i r rs groups)
  show ?case
  proof (cases "snd r")
    case None
    then obtain g where r: "r = (g, None)" by (cases r) auto
    obtain j e' where "j < length rs" "snd (rs ! j) = Some e'"
      "e = ErrOther 33 (''Error retrieving configuration for replication group '' @ show_nat (Suc i + j) @ '': '' @ Error e')"
      using 2(2) [of g None] 2(3) r by auto
    then show ?thesis by (intro exI [of _ "Suc j"]) auto
  next
    case (Some e')
    with 2(3) show ?thesis by (intro exI [of _ 0]) (auto split: prod.splits)
  qed
qed simp

text \<open>A program executed on its own, with a cache.\<close>

primrec exec :: "('o, 'a) prog \<Rightarrow> membercache \<Rightarrow> 'a \<times> membercache \<times> 'o hevent list" where
  "exec (Done a) mc = (a, mc, [])"
| "exec (Retrieve dn k) mc = exec (k (membercache_Retrieve dn mc)) mc"
| "exec (SetMember m p) mc = exec p (membercache_Set m mc)"
| "exec (Handle e p) mc = (case exec p mc of (a, mc, l) \<Rightarrow> (a, mc, e # l))"

section \<open>A directory\<close>

text \<open>
  One group with two members, where b replicates to a; objects are their distinguished names. The
  system volume member v leads to its server s. The settings objects in \<open>broken\<close> have no version.
\<close>

definition dir0 :: "string list \<Rightarrow> string adsi" where
  "dir0 broken = \<lparr>ad_Open = (\<lambda>u. Inl (drop 7 u)), ad_OpenContainer = (\<lambda>u. Inl (drop 7 u)),
     ob_Path = (\<lambda>obj. (LDAP @ obj, None)), ob_Name = (\<lambda>obj. (''CN='' @ obj, None)),
     ob_Class = (\<lambda>obj. (if obj \<in> {''a'', ''b''} then ''msDFSR-Member'' else if obj = ''k'' then ''msDFSR-Connection''
                      else if obj = ''v'' then ''server'' else ''top'', None)),
     ob_Parent = (\<lambda>obj. ([], Some ErrEOF)), ob_GUID = (\<lambda>obj. (of_nat (length obj), None)),
     ob_AttrString = (\<lambda>obj n.
        if n = ''msDFSR-ComputerReference'' then (''p'' @ obj, None)
        else if n = ''serverReference'' \<and> obj = ''v'' then (''s'', None)
        else if n = ''fromServer'' then (''b'', None)
        else if n = ''dNSHostName'' then (obj @ ''.x'', None)
        else if n = ''msDFSR-Version'' \<and> obj \<notin> set broken then (''1'', None)
        else ([], Some (ErrOther 90 ''not found''))),
     ob_AttrBool = (\<lambda>obj n. (True, None)), ob_ToContainer = Inl,
     ct_Children = (\<lambda>c. Inl (if c = ''cn=DFSR-GlobalSettings,cn=System,dc=x'' then [''g'']
        else if c = ''t'' then [''a''] else if c = ''f'' then [''docs''] else if c = ''a'' then [''k''] else [], ErrEOF)),
     ct_Container = (\<lambda>c cls n. Inl ''f''), ct_Object = (\<lambda>c cls n. Inl ''t'')\<rparr>"

definition clk0 :: "nat \<Rightarrow> time \<times> time" where
  "clk0 i = (5, 9)"

lemma dir0_coherent: "coherent (dir0 broken)"
  unfolding coherent_def dir0_def LDAP_def by simp

lemma dir0_objects: "group_objects (dir0 broken) ''dc=x'' = [''g'']"
proof -
  have "Combine [global_settings, ''dc=x''] = ''cn=DFSR-GlobalSettings,cn=System,dc=x''" by code_simp
  then show ?thesis by (simp add: group_objects_def openContainer_def dir0_def URL_def)
qed

lemma dir0_group: "snd (fresh (cfg_group (dir0 []) (clk0 0) ''g'')) = None"
  by code_simp

lemma dir0_reach:
  "\<exists>s. reach (groups_step (dir0 broken) clk0) (gsys_init (dir0 broken) ''dc=x'') s \<and> gs_result s \<noteq> None \<and> all_exited (gs_go s)"
proof -
  obtain s where "Groups_begin (dir0 broken) \<lparr>cc_domainDN = ''dc=x'', cc_mc = membercache_New\<rparr> = Inl s"
    by (simp add: Groups_begin_def openContainer_def dir0_def)
  then have i: "gsys_init (dir0 broken) ''dc=x'' s" by (auto simp: gsys_init_def cache_ok_def)
  with groups_end [OF groups_machine.init_inv [OF i], of clk0] show ?thesis by (metis run_reach)
qed

section \<open>Properties\<close>

text \<open>
  C29. Whatever order the goroutines run in and whatever they find in the member cache that they share,
  Groups returns the configuration of the directory: if every group can be read alone, without
  any cache, then the result is the list of these groups in the order of the directory and no
  error. This supposes that the directory finds an object under the path that it gives for it.
\<close>

theorem groups_exact:
  assumes "coherent A" "reach (groups_step A clk) (gsys_init A dn) s" "gs_result s = Some r"
    and "\<forall>i < length (group_objects A dn). snd (fresh (cfg_group A (clk i) (group_objects A dn ! i))) = None"
  shows "r = (map (\<lambda>i. fst (fresh (cfg_group A (clk i) (group_objects A dn ! i)))) [0..<length (group_objects A dn)], None)"
proof -
  let ?gs = "group_objects A dn"
  let ?f = "\<lambda>i. fresh (cfg_group A (clk i) (?gs ! i))"
  note I = result_good [OF reach_inv_groups [OF assms(2)] assms(3)]
  have "map (\<lambda>p. the (sent_result (gp_pc p))) (gs_go s) = map ?f [0..<length ?gs]"
    using I(1,3) assms(1,4) by (intro nth_equalityI) (auto simp: good_def)
  moreover have "list_all (\<lambda>r. snd r = None) (map ?f [0..<length ?gs])" using assms(4) by (auto simp: list_all_length)
  ultimately show ?thesis unfolding I(2) result_of_def by (simp add: collect_all comp_def)
qed

theorem groups_exact_witness:
  "\<exists>s. reach (groups_step (dir0 []) clk0) (gsys_init (dir0 []) ''dc=x'') s \<and>
     gs_result s = Some ([fst (fresh (cfg_group (dir0 []) (clk0 0) ''g''))], None)"
proof -
  obtain s r where s: "reach (groups_step (dir0 []) clk0) (gsys_init (dir0 []) ''dc=x'') s" "gs_result s = Some r"
    using dir0_reach by blast
  have "r = ([fst (fresh (cfg_group (dir0 []) (clk0 0) ''g''))], None)"
    using groups_exact [OF dir0_coherent s] dir0_group by (simp add: dir0_objects)
  with s show ?thesis by blast
qed



text \<open>
  C31. Groups ends and cleans up: from every reachable state its goroutines can run on until it has
  returned, and once they have, every handle of the directory that was opened has been closed,
  the same number of times, except those that the server reference of a system volume member
  led to.
\<close>

theorem groups_end_clean:
  assumes "reach (groups_step A clk) (gsys_init A dn) s"
  shows "(\<exists>es t. run (groups_step A clk) s es = Some t \<and> gs_result t \<noteq> None \<and> all_exited (gs_go t)) \<and>
    (gs_result s \<noteq> None \<and> all_exited (gs_go s) \<longrightarrow>
      (\<exists>K. set_mset K \<subseteq> server_refs A \<and>
        opened (gs_log s @ concat (map gp_log (gs_go s))) = closed (gs_log s @ concat (map gp_log (gs_go s))) + K))"
proof -
  have inv: "groups_inv A clk (group_objects A dn) s" by (rule reach_inv_groups [OF assms])
  have cat: "list_all (\<lambda>l. net A [] l) ls \<Longrightarrow> net A [] (concat ls)" for ls
  proof (induction ls)
    case (Cons l ls)
    then have "net A [] l" "net A [] (concat ls)" by simp_all
    then show ?case by (auto simp: net_def)
  qed simp
  have "\<exists>K. set_mset K \<subseteq> server_refs A \<and>
        opened (gs_log s @ concat (map gp_log (gs_go s))) = closed (gs_log s @ concat (map gp_log (gs_go s))) + K"
    if r: "gs_result s \<noteq> None" "all_exited (gs_go s)"
  proof -
    have "net A [] (gp_log (gs_go s ! i))" if "i < length (gs_go s)" for i
    proof -
      have "proc_ok A (clk i) (gs_go s ! i)" using inv that by (simp add: groups_inv_def)
      moreover have "exited (gp_pc (gs_go s ! i))" using r(2) that by (simp add: all_exited_def list_all_length)
      ultimately show ?thesis by (cases "gp_pc (gs_go s ! i)") (auto simp: proc_ok_def)
    qed
    then have "net A [] (concat (map gp_log (gs_go s)))" by (intro cat) (simp add: list_all_length)
    moreover have "opened (gs_log s) = closed (gs_log s)" using inv r by (auto simp: groups_inv_def)
    ultimately show ?thesis by (auto simp: net_def)
  qed
  with groups_end [OF inv] show ?thesis by blast
qed

theorem groups_end_clean_witness:
  "\<exists>s. reach (groups_step (dir0 []) clk0) (gsys_init (dir0 []) ''dc=x'') s \<and>
     (\<exists>es t. run (groups_step (dir0 []) clk0) s es = Some t \<and> gs_result t \<noteq> None) \<and>
     (\<exists>K. opened (gs_log s @ concat (map gp_log (gs_go s))) = closed (gs_log s @ concat (map gp_log (gs_go s))) + K)"
proof -
  obtain s where "reach (groups_step (dir0 []) clk0) (gsys_init (dir0 []) ''dc=x'') s" "gs_result s \<noteq> None" "all_exited (gs_go s)"
    using dir0_reach by blast
  with groups_end_clean [OF this(1)] show ?thesis by blast
qed

section \<open>What goes wrong\<close>

text \<open>
  A member whose settings cannot be read is stored all the same: the first MemberInfo fails, the
  second one finds it in the cache and succeeds, without the settings.
\<close>

lemma settings_failure_cached:
  "(case exec (cfg_MemberInfo (dir0 [''cn=DFSR-LocalSettings,pb'']) ''b'') membercache_New of
      ((_, err), mc, _) \<Rightarrow> err \<noteq> None \<and> snd (fst (exec (cfg_MemberInfo (dir0 [''cn=DFSR-LocalSettings,pb'']) ''b'') mc)) = None)"
  by code_simp

text \<open>The object of a server reference stays open.\<close>

lemma server_reference_stays_open:
  "(case exec (cfg_Member (dir0 []) ''v'') membercache_New of
      (_, _, l) \<Rightarrow> length (filter (\<lambda>e. e = Opened (HObject ''s'')) l) = Suc (length (filter (\<lambda>e. e = Closed (HObject ''s'')) l)))"
  by code_simp

text \<open>An iteration that breaks off with an error looks like one that came to its end.\<close>

lemma listing_error_unnoticed:
  assumes "ct_Children A c = Inl (objs, e)" "ct_Children A' c = Inl (objs, e')" "\<And>obj. cfg_folder A' obj = cfg_folder A obj"
  shows "cfg_folders A' c = cfg_folders A c"
proof -
  have "folders_loop A' objs fs = folders_loop A objs fs" for fs
    by (induction objs arbitrary: fs) (simp_all add: assms(3))
  with assms show ?thesis by (simp add: cfg_folders_def)
qed

text \<open>Swapping the bytes twice restores the identifier.\<close>

lemma littleEndianToBigEndian_twice:
  assumes "length i = 16"
  shows "littleEndianToBigEndian (littleEndianToBigEndian i) = i"
proof (rule nth_equalityI)
  fix k assume "k < length (littleEndianToBigEndian (littleEndianToBigEndian i))"
  then have "k = 0 \<or> k = 1 \<or> k = 2 \<or> k = 3 \<or> k = 4 \<or> k = 5 \<or> k = 6 \<or> k = 7 \<or> 8 \<le> k" by arith
  then show "littleEndianToBigEndian (littleEndianToBigEndian i) ! k = i ! k"
    using assms by (elim disjE) (simp_all add: littleEndianToBigEndian_def)
qed (simp add: littleEndianToBigEndian_def)
end
