(* ===== verification/Poller.thy ===== *)
theory Poller imports Prelude begin

text \<open>
  Package poller (poller/poller.go): a polling function run on an interval.

  The machine has the fields of the struct, the goroutine of run, one goroutine of invoke per
  tick or pulse, and the callers of Poll and Close. Poll sends on the unbuffered channel pulse
  while it holds the mutex, so a caller between taking the mutex and the rendezvous with run is
  part of the state. Close gives the mutex up in idle.Wait(). Every other section under the
  mutex is one event.
\<close>

section \<open>State\<close>

text \<open>The cancel field holds the cancellation function of an invocation, named by its number.\<close>

record poller =
  po_cancel :: "nat option"
  po_pulse_closed :: bool
  po_stop_closed :: bool
  po_closed :: bool

datatype invocation =
    InvStarting    \<comment> \<open>before startInvocation\<close>
  | InvPolling     \<comment> \<open>inside source.Poll\<close>
  | InvReturned    \<comment> \<open>source.Poll has returned, before finishInvocation\<close>
  | InvFinished    \<comment> \<open>mutex released, before idle.Broadcast\<close>
  | InvDone

datatype closer = ClIdle | ClWaiting bool | ClDone

record psys =
  ps_poller :: poller
  ps_poll_caller :: "nat option"
  ps_run :: bool
  ps_invs :: "invocation list"
  ps_cancelled :: "nat list"
  ps_closers :: "nat \<Rightarrow> closer"
  ps_source_closed :: nat
  ps_panic :: bool

definition Poller_New :: poller where
  "Poller_New = \<lparr>po_cancel = None, po_pulse_closed = False, po_stop_closed = False, po_closed = False\<rparr>"

definition psys_init :: "psys \<Rightarrow> bool" where
  "psys_init s \<longleftrightarrow> s = \<lparr>ps_poller = Poller_New, ps_poll_caller = None, ps_run = True, ps_invs = [],
     ps_cancelled = [], ps_closers = (\<lambda>_. ClIdle), ps_source_closed = 0, ps_panic = False\<rparr>"

definition mutex_free :: "psys \<Rightarrow> bool" where
  "mutex_free s \<longleftrightarrow> ps_poll_caller s = None"

definition Poller_running :: "poller \<Rightarrow> bool" where
  "Poller_running p \<longleftrightarrow> po_cancel p \<noteq> None"

datatype poller_event =
    PoClose nat
  | PoCloseWake nat
  | PoPoll nat
  | PoRunPulse
  | PoRunClosedPulse
  | PoRunTick
  | PoRunStop
  | PoStart nat
  | PoReturn nat
  | PoFinish nat
  | PoBroadcast nat

section \<open>Steps\<close>

text \<open>
  The loop of Close over idle.Wait(): the caller waits while an invocation is running, otherwise
  it closes the source and is done.
\<close>

definition close_loop :: "nat \<Rightarrow> psys \<Rightarrow> psys" where
  "close_loop i s =
     (if Poller_running (ps_poller s) then s\<lparr>ps_closers := (ps_closers s)(i := ClWaiting False)\<rparr>
      else s\<lparr>ps_closers := (ps_closers s)(i := ClDone), ps_source_closed := Suc (ps_source_closed s)\<rparr>)"

text \<open>Closing a channel that is closed already panics.\<close>

definition Poller_Close :: "nat \<Rightarrow> psys \<Rightarrow> psys option" where
  "Poller_Close i s =
     (if mutex_free s \<and> ps_closers s i = ClIdle then
        Some (let p = ps_poller s
              in if po_closed p then s\<lparr>ps_closers := (ps_closers s)(i := ClDone)\<rparr>
                 else
                   (let s1 = s\<lparr>ps_poller := p\<lparr>po_closed := True, po_stop_closed := True, po_pulse_closed := True\<rparr>,
                               ps_panic := (ps_panic s \<or> po_stop_closed p \<or> po_pulse_closed p)\<rparr>;
                        s2 = (case po_cancel p of
                                Some j \<Rightarrow> s1\<lparr>ps_cancelled := j # ps_cancelled s1\<rparr>
                              | None \<Rightarrow> s1)
                    in close_loop i s2))
      else None)"

definition Poller_CloseWake :: "nat \<Rightarrow> psys \<Rightarrow> psys option" where
  "Poller_CloseWake i s =
     (if mutex_free s \<and> ps_closers s i = ClWaiting True then Some (close_loop i s) else None)"

definition Poller_Poll :: "nat \<Rightarrow> psys \<Rightarrow> psys option" where
  "Poller_Poll i s =
     (if mutex_free s then
        Some (if po_closed (ps_poller s) then s
              else s\<lparr>ps_poll_caller := Some i,
                     ps_panic := (ps_panic s \<or> po_pulse_closed (ps_poller s))\<rparr>)
      else None)"

text \<open>The cases of the select of run; each but stop spawns an invocation.\<close>

definition spawn_invoke :: "psys \<Rightarrow> psys" where
  "spawn_invoke s = s\<lparr>ps_invs := ps_invs s @ [InvStarting]\<rparr>"

definition run_pulse :: "psys \<Rightarrow> psys option" where
  "run_pulse s =
     (if ps_run s \<and> ps_poll_caller s \<noteq> None then Some (spawn_invoke (s\<lparr>ps_poll_caller := None\<rparr>)) else None)"

definition run_closed_pulse :: "psys \<Rightarrow> psys option" where
  "run_closed_pulse s = (if ps_run s \<and> po_pulse_closed (ps_poller s) then Some (spawn_invoke s) else None)"

definition run_tick :: "psys \<Rightarrow> psys option" where
  "run_tick s = (if ps_run s then Some (spawn_invoke s) else None)"

definition run_stop :: "psys \<Rightarrow> psys option" where
  "run_stop s = (if ps_run s \<and> po_stop_closed (ps_poller s) then Some (s\<lparr>ps_run := False\<rparr>) else None)"

text \<open>invoke: startInvocation, the return of source.Poll, finishInvocation and its broadcast.\<close>

definition inv_at :: "psys \<Rightarrow> nat \<Rightarrow> invocation \<Rightarrow> bool" where
  "inv_at s j pc \<longleftrightarrow> j < length (ps_invs s) \<and> ps_invs s ! j = pc"

definition startInvocation :: "nat \<Rightarrow> psys \<Rightarrow> psys option" where
  "startInvocation j s =
     (if inv_at s j InvStarting \<and> mutex_free s then
        Some (if \<not> po_closed (ps_poller s) \<and> \<not> Poller_running (ps_poller s)
              then s\<lparr>ps_poller := (ps_poller s)\<lparr>po_cancel := Some j\<rparr>, ps_invs := (ps_invs s)[j := InvPolling]\<rparr>
              else s\<lparr>ps_invs := (ps_invs s)[j := InvDone], ps_cancelled := j # ps_cancelled s\<rparr>)
      else None)"

definition pollReturns :: "nat \<Rightarrow> psys \<Rightarrow> psys option" where
  "pollReturns j s =
     (if inv_at s j InvPolling then Some (s\<lparr>ps_invs := (ps_invs s)[j := InvReturned]\<rparr>) else None)"

definition finishInvocation :: "nat \<Rightarrow> psys \<Rightarrow> psys option" where
  "finishInvocation j s =
     (if inv_at s j InvReturned \<and> mutex_free s
      then Some (s\<lparr>ps_poller := (ps_poller s)\<lparr>po_cancel := None\<rparr>, ps_invs := (ps_invs s)[j := InvFinished]\<rparr>)
      else None)"

definition idleBroadcast :: "nat \<Rightarrow> psys \<Rightarrow> psys option" where
  "idleBroadcast j s =
     (if inv_at s j InvFinished then
        Some (s\<lparr>ps_invs := (ps_invs s)[j := InvDone], ps_cancelled := j # ps_cancelled s,
                ps_closers := (\<lambda>i. case ps_closers s i of ClWaiting _ \<Rightarrow> ClWaiting True | c \<Rightarrow> c)\<rparr>)
      else None)"

fun poller_step :: "poller_event \<Rightarrow> psys \<Rightarrow> psys option" where
  "poller_step (PoClose i) s = Poller_Close i s"
| "poller_step (PoCloseWake i) s = Poller_CloseWake i s"
| "poller_step (PoPoll i) s = Poller_Poll i s"
| "poller_step PoRunPulse s = run_pulse s"
| "poller_step PoRunClosedPulse s = run_closed_pulse s"
| "poller_step PoRunTick s = run_tick s"
| "poller_step PoRunStop s = run_stop s"
| "poller_step (PoStart j) s = startInvocation j s"
| "poller_step (PoReturn j) s = pollReturns j s"
| "poller_step (PoFinish j) s = finishInvocation j s"
| "poller_step (PoBroadcast j) s = idleBroadcast j s"

lemmas poller_defs = Poller_Close_def Poller_CloseWake_def Poller_Poll_def run_pulse_def run_closed_pulse_def
  run_tick_def run_stop_def startInvocation_def pollReturns_def finishInvocation_def idleBroadcast_def
  close_loop_def spawn_invoke_def inv_at_def mutex_free_def Poller_running_def Let_def

section \<open>The invariant\<close>

definition owner :: "invocation \<Rightarrow> bool" where
  "owner pc \<longleftrightarrow> pc = InvPolling \<or> pc = InvReturned"

text \<open>The cancel field is set exactly while its invocation is between start and finish.\<close>

definition inv_owner :: "poller \<Rightarrow> invocation list \<Rightarrow> bool" where
  "inv_owner p invs \<longleftrightarrow> (\<forall>j < length invs. owner (invs ! j) = (po_cancel p = Some j)) \<and>
     (\<forall>j. po_cancel p = Some j \<longrightarrow> j < length invs)"

definition inv_channels :: "psys \<Rightarrow> bool" where
  "inv_channels s \<longleftrightarrow> po_stop_closed (ps_poller s) = po_closed (ps_poller s) \<and>
     po_pulse_closed (ps_poller s) = po_closed (ps_poller s) \<and> \<not> ps_panic s \<and>
     (\<not> po_closed (ps_poller s) \<longrightarrow> ps_run s) \<and>
     (ps_poll_caller s \<noteq> None \<longrightarrow> \<not> po_closed (ps_poller s)) \<and>
     (po_closed (ps_poller s) \<longrightarrow> (\<forall>j. po_cancel (ps_poller s) = Some j \<longrightarrow> j \<in> set (ps_cancelled s)))"

definition waiting :: "closer \<Rightarrow> bool" where
  "waiting c \<longleftrightarrow> (\<exists>b. c = ClWaiting b)"

text \<open>
  One caller closes the source; it waits only with an invocation to wait for, or with a
  broadcast still to come, or already notified.
\<close>

definition inv_closers :: "bool \<Rightarrow> nat option \<Rightarrow> nat \<Rightarrow> (nat \<Rightarrow> closer) \<Rightarrow> bool" where
  "inv_closers closed cancel n cls \<longleftrightarrow>
     (\<forall>i. waiting (cls i) \<longrightarrow> closed \<and> n = 0) \<and>
     (\<forall>i j. waiting (cls i) \<and> waiting (cls j) \<longrightarrow> i = j) \<and>
     n \<le> 1 \<and> (n = 1 \<longrightarrow> closed \<and> cancel = None) \<and>
     (closed \<and> n = 0 \<longrightarrow> (\<exists>i. waiting (cls i)))"

definition inv_wakeup :: "nat option \<Rightarrow> invocation list \<Rightarrow> (nat \<Rightarrow> closer) \<Rightarrow> bool" where
  "inv_wakeup cancel invs cls \<longleftrightarrow>
     ((\<exists>i. cls i = ClWaiting False) \<longrightarrow> cancel \<noteq> None \<or> InvFinished \<in> set invs)"

definition psys_inv :: "psys \<Rightarrow> bool" where
  "psys_inv s \<longleftrightarrow> inv_owner (ps_poller s) (ps_invs s) \<and> inv_channels s \<and>
     inv_closers (po_closed (ps_poller s)) (po_cancel (ps_poller s)) (ps_source_closed s) (ps_closers s) \<and>
     inv_wakeup (po_cancel (ps_poller s)) (ps_invs s) (ps_closers s)"

lemma owner_simps [simp]:
  "owner InvPolling" "owner InvReturned" "\<not> owner InvStarting" "\<not> owner InvFinished" "\<not> owner InvDone"
  by (simp_all add: owner_def)

lemma waiting_simps [simp]: "waiting (ClWaiting b)" "\<not> waiting ClIdle" "\<not> waiting ClDone"
  by (simp_all add: waiting_def)

lemma waiting_notify [simp]: "waiting (case c of ClWaiting _ \<Rightarrow> ClWaiting True | c \<Rightarrow> c) = waiting c"
  by (cases c) simp_all

lemma notify_not_False [simp]: "(case c of ClWaiting _ \<Rightarrow> ClWaiting True | c \<Rightarrow> c) \<noteq> ClWaiting False"
  by (cases c) simp_all

lemma inv_owner_append: "inv_owner p invs \<Longrightarrow> inv_owner p (invs @ [InvStarting])"
  by (force simp: inv_owner_def nth_append less_Suc_eq)

lemma inv_owner_keep:
  "inv_owner p invs \<Longrightarrow> j < length invs \<Longrightarrow> owner pc = owner (invs ! j) \<Longrightarrow> inv_owner p (invs[j := pc])"
  by (simp add: inv_owner_def nth_list_update)

lemma inv_owner_start:
  "inv_owner p invs \<Longrightarrow> j < length invs \<Longrightarrow> po_cancel p = None \<Longrightarrow>
   inv_owner (p\<lparr>po_cancel := Some j\<rparr>) (invs[j := InvPolling])"
  by (auto simp: inv_owner_def nth_list_update)

lemma inv_owner_finish:
  "inv_owner p invs \<Longrightarrow> j < length invs \<Longrightarrow> po_cancel p = Some j \<Longrightarrow>
   inv_owner (p\<lparr>po_cancel := None\<rparr>) (invs[j := InvFinished])"
  by (simp add: inv_owner_def nth_list_update)

lemma inv_owner_at: "inv_owner p invs \<Longrightarrow> j < length invs \<Longrightarrow> owner (invs ! j) \<Longrightarrow> po_cancel p = Some j"
  by (simp add: inv_owner_def)

lemma inv_owner_frame [simp]:
  "inv_owner (p\<lparr>po_closed := a, po_stop_closed := b, po_pulse_closed := c\<rparr>) invs = inv_owner p invs"
  by (simp add: inv_owner_def)

lemma closers_open: "inv_closers False cancel n cls \<Longrightarrow> inv_closers False cancel' n cls"
  by (simp add: inv_closers_def)

lemma closers_cancel: "inv_closers closed cancel n cls \<Longrightarrow> inv_closers closed None n cls"
  unfolding inv_closers_def by blast

lemma closers_notify:
  "inv_closers closed cancel n cls \<Longrightarrow>
   inv_closers closed cancel n (\<lambda>i. case cls i of ClWaiting _ \<Rightarrow> ClWaiting True | c \<Rightarrow> c)"
  unfolding inv_closers_def waiting_notify by blast

lemma closers_alone:
  "\<forall>k. k \<noteq> i \<longrightarrow> \<not> waiting (cls k) \<Longrightarrow> inv_closers True cancel 0 (cls(i := ClWaiting b))"
  unfolding inv_closers_def by (metis fun_upd_apply waiting_simps(1) zero_le_one zero_neq_one)

lemma closers_done:
  "\<forall>k. k \<noteq> i \<longrightarrow> \<not> waiting (cls k) \<Longrightarrow> inv_closers True None (Suc 0) (cls(i := ClDone))"
  unfolding inv_closers_def by (metis One_nat_def fun_upd_apply waiting_simps(3) le_refl nat.distinct(1))

lemma closers_second:
  assumes "inv_closers closed cancel n cls" "cls i = ClIdle"
  shows "inv_closers closed cancel n (cls(i := ClDone))"
proof -
  have "waiting ((cls(i := ClDone)) k) = waiting (cls k)" for k using assms(2) by simp
  then have "waiting \<circ> (cls(i := ClDone)) = waiting \<circ> cls" by (simp add: fun_eq_iff)
  with assms(1) show ?thesis unfolding inv_closers_def comp_def by metis
qed

lemma wakeup_keep:
  assumes "inv_wakeup cancel invs cls" "j < length invs" "invs ! j \<noteq> InvFinished"
  shows "inv_wakeup cancel (invs[j := pc]) cls"
proof -
  have "InvFinished \<in> set invs \<Longrightarrow> InvFinished \<in> set (invs[j := pc])"
    using assms(3) by (metis in_set_conv_nth length_list_update nth_list_update_neq)
  with assms(1) show ?thesis by (auto simp: inv_wakeup_def)
qed

lemma wakeup_cancel [simp]: "inv_wakeup (Some j) invs cls"
  by (simp add: inv_wakeup_def)

lemma wakeup_finished: "j < length invs \<Longrightarrow> inv_wakeup cancel (invs[j := InvFinished]) cls"
  by (simp add: inv_wakeup_def set_update_memI)

lemma wakeup_notified: "inv_wakeup cancel invs (\<lambda>i. case cls i of ClWaiting _ \<Rightarrow> ClWaiting True | c \<Rightarrow> c)"
  by (simp add: inv_wakeup_def)

lemma wakeup_append: "inv_wakeup cancel invs cls \<Longrightarrow> inv_wakeup cancel (invs @ [InvStarting]) cls"
  by (simp add: inv_wakeup_def)

lemma wakeup_closer: "inv_wakeup cancel invs cls \<Longrightarrow> inv_wakeup cancel invs (cls(i := ClDone))"
  by (auto simp: inv_wakeup_def split: if_splits)

lemma inv_spawn: "psys_inv s \<Longrightarrow> psys_inv (spawn_invoke s)"
  by (simp add: psys_inv_def inv_owner_append inv_channels_def spawn_invoke_def wakeup_append)

lemma inv_close_loop:
  assumes "inv_owner (ps_poller s) (ps_invs s)" "inv_channels s" "po_closed (ps_poller s)"
    "ps_source_closed s = 0" "\<forall>k. k \<noteq> i \<longrightarrow> \<not> waiting (ps_closers s k)"
  shows "psys_inv (close_loop i s)"
proof (cases "po_cancel (ps_poller s)")
  case None
  with assms have "\<not> (\<exists>k. ((ps_closers s)(i := ClDone)) k = ClWaiting False)"
    by (auto split: if_splits)
  with None assms closers_done [OF assms(5)] show ?thesis
    by (simp add: psys_inv_def close_loop_def Poller_running_def inv_channels_def inv_wakeup_def del: fun_upd_apply)
next
  case (Some j)
  with assms closers_alone [OF assms(5)] show ?thesis
    by (simp add: psys_inv_def close_loop_def Poller_running_def inv_channels_def)
qed

lemma inv_Poller_Close:
  assumes inv: "psys_inv s" and st: "Poller_Close i s = Some t"
  shows "psys_inv t"
proof (cases "po_closed (ps_poller s)")
  case True
  from st have i: "ps_closers s i = ClIdle" by (simp add: Poller_Close_def split: if_splits)
  with inv st True show ?thesis
    by (auto simp: Poller_Close_def psys_inv_def inv_channels_def wakeup_closer split: if_splits intro: closers_second)
next
  case False
  have nw: "\<not> waiting (ps_closers s k)" for k using False inv by (simp add: psys_inv_def inv_closers_def)
  have n0: "ps_source_closed s = 0" using False inv by (auto simp: psys_inv_def inv_closers_def le_Suc_eq)
  from st False have mf: "ps_poll_caller s = None" by (simp add: Poller_Close_def mutex_free_def split: if_splits)
  from st False obtain s2 where t: "t = close_loop i s2"
    and s2: "s2 = (case po_cancel (ps_poller s) of
        Some j \<Rightarrow> s\<lparr>ps_poller := (ps_poller s)\<lparr>po_closed := True, po_stop_closed := True, po_pulse_closed := True\<rparr>,
          ps_panic := (ps_panic s \<or> po_stop_closed (ps_poller s) \<or> po_pulse_closed (ps_poller s)),
          ps_cancelled := j # ps_cancelled s\<rparr>
      | None \<Rightarrow> s\<lparr>ps_poller := (ps_poller s)\<lparr>po_closed := True, po_stop_closed := True, po_pulse_closed := True\<rparr>,
          ps_panic := (ps_panic s \<or> po_stop_closed (ps_poller s) \<or> po_pulse_closed (ps_poller s))\<rparr>)"
    by (simp add: Poller_Close_def Let_def split: if_splits option.splits)
  have "psys_inv (close_loop i s2)"
    by (rule inv_close_loop)
      (use inv False nw n0 mf in \<open>auto simp: s2 psys_inv_def inv_channels_def split: option.splits\<close>)
  then show ?thesis by (simp add: t)
qed

lemma inv_CloseWake:
  assumes "psys_inv s" "Poller_CloseWake i s = Some t"
  shows "psys_inv t"
proof -
  from assms(2) have t: "t = close_loop i s" and i: "waiting (ps_closers s i)"
    by (auto simp: Poller_CloseWake_def split: if_splits)
  from assms(1) i have c: "po_closed (ps_poller s)" "ps_source_closed s = 0"
    unfolding psys_inv_def inv_closers_def by blast+
  have "\<forall>k. k \<noteq> i \<longrightarrow> \<not> waiting (ps_closers s k)"
    using assms(1) i unfolding psys_inv_def inv_closers_def by blast
  with c assms(1) show ?thesis unfolding t by (intro inv_close_loop) (simp_all add: psys_inv_def)
qed

lemma inv_startInvocation:
  assumes inv: "psys_inv s" and st: "startInvocation j s = Some t"
  shows "psys_inv t"
proof -
  from st have j: "j < length (ps_invs s)" "ps_invs s ! j = InvStarting"
    by (auto simp: startInvocation_def inv_at_def split: if_splits)
  with inv st show ?thesis
    by (auto simp: psys_inv_def startInvocation_def inv_owner_start inv_owner_keep inv_channels_def
        Poller_running_def wakeup_keep split: if_splits intro: closers_open)
qed

lemma inv_pollReturns:
  assumes inv: "psys_inv s" and st: "pollReturns j s = Some t"
  shows "psys_inv t"
proof -
  from st have j: "j < length (ps_invs s)" "ps_invs s ! j = InvPolling"
    by (auto simp: pollReturns_def inv_at_def split: if_splits)
  with inv st show ?thesis
    by (auto simp: psys_inv_def pollReturns_def inv_owner_keep inv_channels_def wakeup_keep split: if_splits)
qed

lemma inv_finish:
  assumes inv: "psys_inv s" and st: "finishInvocation j s = Some t"
  shows "psys_inv t"
proof -
  from st have j: "j < length (ps_invs s)" "ps_invs s ! j = InvReturned"
    by (auto simp: finishInvocation_def inv_at_def split: if_splits)
  with inv have "po_cancel (ps_poller s) = Some j" by (auto simp: psys_inv_def intro: inv_owner_at)
  with inv st j show ?thesis
    by (auto simp: psys_inv_def finishInvocation_def inv_owner_finish inv_channels_def wakeup_finished
        split: if_splits intro: closers_cancel)
qed

lemma inv_broadcast:
  assumes inv: "psys_inv s" and st: "idleBroadcast j s = Some t"
  shows "psys_inv t"
proof -
  from st have j: "j < length (ps_invs s)" "ps_invs s ! j = InvFinished"
    by (auto simp: idleBroadcast_def inv_at_def split: if_splits)
  with inv st show ?thesis
    by (auto simp: psys_inv_def idleBroadcast_def inv_owner_keep inv_channels_def wakeup_notified
        split: if_splits intro: closers_notify)
qed

lemma psys_step:
  assumes "psys_inv s" "poller_step e s = Some t"
  shows "psys_inv t"
proof (cases e)
  case (PoPoll i)
  with assms show ?thesis
    by (auto simp: Poller_Poll_def psys_inv_def inv_channels_def split: if_splits)
next
  case PoRunPulse
  have "psys_inv (s\<lparr>ps_poll_caller := None\<rparr>)"
    using assms(1) by (auto simp: psys_inv_def inv_channels_def)
  with PoRunPulse assms show ?thesis by (auto simp: run_pulse_def inv_spawn split: if_splits)
next
  case PoRunStop
  with assms show ?thesis
    by (auto simp: run_stop_def psys_inv_def inv_channels_def split: if_splits)
qed (use assms in \<open>auto simp: run_closed_pulse_def run_tick_def inv_spawn split: if_splits
      intro: inv_Poller_Close inv_CloseWake inv_startInvocation inv_pollReturns inv_finish inv_broadcast\<close>)

lemma psys_init_inv: "psys_init s \<Longrightarrow> psys_inv s"
  by (simp add: psys_init_def psys_inv_def inv_owner_def inv_channels_def inv_closers_def inv_wakeup_def Poller_New_def)

interpretation poller_machine: inductive_invariant poller_step psys_init psys_inv
  by unfold_locales (fact psys_init_inv, fact psys_step)

section \<open>Closing goes through\<close>

lemma broadcast_closes:
  assumes "inv_at s j InvFinished" "mutex_free s" "waiting (ps_closers s i)" "po_cancel (ps_poller s) = None"
  shows "\<exists>t. run poller_step s [PoBroadcast j, PoCloseWake i] = Some t \<and> ps_closers t i = ClDone \<and>
     ps_source_closed t = Suc (ps_source_closed s)"
  using assms
  by (auto simp: idleBroadcast_def Poller_CloseWake_def close_loop_def Poller_running_def mutex_free_def waiting_def)

lemma finish_closes:
  assumes "inv_at s j InvReturned" "mutex_free s" "waiting (ps_closers s i)"
  shows "\<exists>t. run poller_step s [PoFinish j, PoBroadcast j, PoCloseWake i] = Some t \<and> ps_closers t i = ClDone \<and>
     ps_source_closed t = Suc (ps_source_closed s)"
proof -
  obtain u where u: "finishInvocation j s = Some u" "inv_at u j InvFinished" "mutex_free u"
    "waiting (ps_closers u i)" "po_cancel (ps_poller u) = None" "ps_source_closed u = ps_source_closed s"
    using assms by (auto simp: finishInvocation_def inv_at_def mutex_free_def)
  from broadcast_closes [OF u(2-5)] u(1,6) show ?thesis by simp
qed

lemma return_closes:
  assumes "inv_at s j InvPolling" "mutex_free s" "waiting (ps_closers s i)"
  shows "\<exists>t. run poller_step s [PoReturn j, PoFinish j, PoBroadcast j, PoCloseWake i] = Some t \<and>
     ps_closers t i = ClDone \<and> ps_source_closed t = Suc (ps_source_closed s)"
proof -
  obtain u where u: "pollReturns j s = Some u" "inv_at u j InvReturned" "mutex_free u"
    "waiting (ps_closers u i)" "ps_source_closed u = ps_source_closed s"
    using assms by (auto simp: pollReturns_def inv_at_def mutex_free_def)
  from finish_closes [OF u(2-4)] u(1,5) show ?thesis by simp
qed

lemma wake_closes:
  assumes "ps_closers s i = ClWaiting True" "mutex_free s" "po_cancel (ps_poller s) = None"
  shows "\<exists>t. run poller_step s [PoCloseWake i] = Some t \<and> ps_closers t i = ClDone \<and>
     ps_source_closed t = Suc (ps_source_closed s)"
  using assms by (simp add: Poller_CloseWake_def close_loop_def Poller_running_def)

definition wind_down :: "nat \<Rightarrow> nat \<Rightarrow> poller_event list" where
  "wind_down j i = [PoReturn j, PoFinish j, PoBroadcast j, PoCloseWake i]"

lemma wind_down_suffixes:
  "\<exists>n. [PoReturn j, PoFinish j, PoBroadcast j, PoCloseWake i] = drop n (wind_down j i)"
  "\<exists>n. [PoFinish j, PoBroadcast j, PoCloseWake i] = drop n (wind_down j i)"
  "\<exists>n. [PoBroadcast j, PoCloseWake i] = drop n (wind_down j i)"
  "\<exists>n. [PoCloseWake i] = drop n (wind_down j i)"
  by (rule exI [of _ 0], simp add: wind_down_def) (rule exI [of _ 1], simp add: wind_down_def,
      rule exI [of _ 2], simp add: wind_down_def, rule exI [of _ 3], simp add: wind_down_def)

definition psys0 :: psys where
  "psys0 = \<lparr>ps_poller = Poller_New, ps_poll_caller = None, ps_run = True, ps_invs = [],
     ps_cancelled = [], ps_closers = (\<lambda>_. ClIdle), ps_source_closed = 0, ps_panic = False\<rparr>"

lemma psys0_reach: "run poller_step psys0 es = Some s \<Longrightarrow> reach poller_step psys_init s"
  by (rule run_reach) (simp_all add: psys0_def psys_init_def)

definition polling :: "psys \<Rightarrow> nat \<Rightarrow> bool" where
  "polling s j \<longleftrightarrow> inv_at s j InvPolling \<or> inv_at s j InvReturned"

lemma close_goes_through:
  assumes "psys_inv s" "waiting (ps_closers s i)"
  shows "\<exists>j n t. run poller_step s (drop n (wind_down j i)) = Some t \<and> ps_closers t i = ClDone \<and>
     ps_source_closed t = 1"
proof -
  note inv = assms(1)
  have c: "po_closed (ps_poller s)" and n: "ps_source_closed s = 0"
    using inv assms(2) unfolding psys_inv_def inv_closers_def by blast+
  from inv c have m: "mutex_free s" by (auto simp: psys_inv_def inv_channels_def mutex_free_def)
  show ?thesis
  proof (cases "po_cancel (ps_poller s)")
    case (Some j)
    with inv have "polling s j" by (auto simp: psys_inv_def inv_owner_def polling_def inv_at_def owner_def)
    with return_closes [OF _ m assms(2)] finish_closes [OF _ m assms(2)] n wind_down_suffixes [of j i]
    show ?thesis unfolding polling_def by (metis One_nat_def)
  next
    case None
    obtain b where b: "ps_closers s i = ClWaiting b" using assms(2) by (auto simp: waiting_def)
    show ?thesis
    proof (cases b)
      case True
      with wake_closes [OF _ m None] b n wind_down_suffixes(4) show ?thesis by (metis One_nat_def)
    next
      case False
      with b None inv have "InvFinished \<in> set (ps_invs s)" by (auto simp: psys_inv_def inv_wakeup_def)
      then obtain j where "inv_at s j InvFinished" by (auto simp: in_set_conv_nth inv_at_def)
      with broadcast_closes [OF _ m assms(2) None] n wind_down_suffixes(3) show ?thesis by (metis One_nat_def)
    qed
  qed
qed

section \<open>Properties\<close>

text \<open>
  C7. At most one invocation is between startInvocation and finishInvocation at any time,
  whatever the ticks and calls of Poll. The source is closed at most once, only after Close, and
  from then on no invocation polls it; no send or close of a closed channel happens.
\<close>

theorem one_poll_at_a_time:
  assumes "reach poller_step psys_init s"
  shows "(polling s j \<and> polling s k \<longrightarrow> j = k) \<and> ps_source_closed s \<le> 1 \<and>
     (ps_source_closed s = 1 \<longrightarrow> po_closed (ps_poller s) \<and> \<not> polling s j) \<and> \<not> ps_panic s"
proof -
  from assms have inv: "psys_inv s" by (rule poller_machine.reach_inv)
  have p: "po_cancel (ps_poller s) = Some j" if "polling s j" for j
    using that inv by (auto simp: polling_def inv_at_def psys_inv_def intro: inv_owner_at)
  have "ps_source_closed s \<le> 1 \<and> (ps_source_closed s = 1 \<longrightarrow> po_closed (ps_poller s) \<and> po_cancel (ps_poller s) = None)"
    using inv unfolding psys_inv_def inv_closers_def by blast
  moreover have "\<not> ps_panic s" using inv by (simp add: psys_inv_def inv_channels_def)
  ultimately show ?thesis using p [of j] p [of k] by auto
qed

theorem one_poll_at_a_time_witness:
  "\<exists>s. run poller_step psys0 [PoPoll 7, PoRunPulse, PoRunTick, PoStart 0, PoStart 1, PoClose 5] = Some s \<and>
     polling s 0 \<and> (polling s 1 \<longrightarrow> 0 = (1::nat)) \<and> \<not> ps_panic s"
proof -
  obtain s where r: "run poller_step psys0 [PoPoll 7, PoRunPulse, PoRunTick, PoStart 0, PoStart 1, PoClose 5] = Some s"
    and p: "polling s 0"
    by (simp add: poller_defs psys0_def Poller_New_def polling_def)
  from one_poll_at_a_time [OF psys0_reach [OF r], of 0 1] r p show ?thesis by auto
qed

text \<open>
  A caller of Poll that holds the mutex is never stuck: the goroutine of run is there to
  take the pulse, which starts an invocation and lets the caller release the mutex.
\<close>

theorem poll_never_stuck:
  assumes "reach poller_step psys_init s" "ps_poll_caller s = Some i"
  shows "\<exists>t. run_pulse s = Some t \<and> mutex_free t \<and> ps_invs t = ps_invs s @ [InvStarting]"
  using poller_machine.reach_inv [OF assms(1)] assms(2)
  by (auto simp: psys_inv_def inv_channels_def run_pulse_def spawn_invoke_def mutex_free_def)

theorem poll_never_stuck_witness:
  "\<exists>s t. run poller_step psys0 [PoRunTick, PoStart 0, PoPoll 7] = Some s \<and> run_pulse s = Some t \<and>
     ps_invs t = [InvPolling, InvStarting]"
proof -
  obtain s where r: "run poller_step psys0 [PoRunTick, PoStart 0, PoPoll 7] = Some s"
    and p: "ps_poll_caller s = Some 7" "ps_invs s = [InvPolling]"
    by (simp add: poller_defs psys0_def Poller_New_def)
  from poll_never_stuck [OF psys0_reach [OF r] p(1)] r p(2) show ?thesis by auto
qed

text \<open>
  C8. Close cannot hang on a source whose Poll returns: from every reachable state where a
  caller waits in Close, at most the remaining steps of one invocation (its Poll returns, it
  finishes, it broadcasts) and then the caller's own wake-up close the source, once.
\<close>

theorem close_completes:
  assumes "reach poller_step psys_init s" "waiting (ps_closers s i)"
  shows "\<exists>j n t. run poller_step s (drop n (wind_down j i)) = Some t \<and> ps_closers t i = ClDone \<and>
     ps_source_closed t = 1"
  by (rule close_goes_through [OF poller_machine.reach_inv [OF assms(1)] assms(2)])

theorem close_completes_witness:
  "\<exists>s j n t. run poller_step psys0 [PoRunTick, PoStart 0, PoClose 5, PoRunStop] = Some s \<and>
     ps_source_closed s = 0 \<and> run poller_step s (drop n (wind_down j 5)) = Some t \<and> ps_source_closed t = 1"
proof -
  obtain s where r: "run poller_step psys0 [PoRunTick, PoStart 0, PoClose 5, PoRunStop] = Some s"
    and p: "waiting (ps_closers s 5)" "ps_source_closed s = 0"
    by (simp add: poller_defs psys0_def Poller_New_def)
  from close_completes [OF psys0_reach [OF r] p(1)] r p(2) show ?thesis by blast
qed

end
