(* ===== verification/ValueSink.thy ===== *)
theory ValueSink imports Prelude begin

text \<open>
  Package valuesink (valuesink/sink.go): a value container with blocking readiness.

  Every method is one section under the sink's lock, except WaitReady, which has one before and
  one after rdy.Wait(). A *sync.WaitGroup is an address; the counters of the groups allocated so
  far are a field of the state, so that Done on a group whose counter is 0 (a panic in Go) can
  be seen.
\<close>

record 'v sink =
  sk_value :: "'v option"
  sk_timestamp :: time
  sk_err :: "gerr option"
  sk_ready :: "nat option"
  sk_closed :: bool
  sk_wgs :: "int list"

definition Sink_zero :: "'v sink" where
  "Sink_zero = \<lparr>sk_value = None, sk_timestamp = time_zero, sk_err = None, sk_ready = None,
     sk_closed = False, sk_wgs = []\<rparr>"

definition signal_ready :: "'v sink \<Rightarrow> 'v sink" where
  "signal_ready s =
     (case sk_ready s of
        None \<Rightarrow> s
      | Some w \<Rightarrow> s\<lparr>sk_wgs := (sk_wgs s)[w := sk_wgs s ! w - 1], sk_ready := None\<rparr>)"

definition Sink_Close :: "'v sink \<Rightarrow> 'v sink" where
  "Sink_Close s = (if sk_closed s then s else signal_ready (s\<lparr>sk_closed := True\<rparr>))"

definition Sink_Value :: "'v sink \<Rightarrow> 'v option \<times> time \<times> gerr option" where
  "Sink_Value s = (sk_value s, sk_timestamp s, sk_err s)"

definition Sink_Ready :: "'v sink \<Rightarrow> bool" where
  "Sink_Ready s \<longleftrightarrow> sk_value s \<noteq> None"

text \<open>WaitReady up to the wait: its result, or the wait group it waits for.\<close>

datatype wait = Done "gerr option" | WaitFor nat

definition Sink_WaitReady_begin :: "'v sink \<Rightarrow> wait \<times> 'v sink" where
  "Sink_WaitReady_begin s =
     (if sk_value s \<noteq> None then (Done None, s)
      else if sk_closed s then (Done (Some ErrSinkClosed), s)
      else (case sk_ready s of
              Some w \<Rightarrow> (WaitFor w, s)
            | None \<Rightarrow> (WaitFor (length (sk_wgs s)),
                       s\<lparr>sk_ready := Some (length (sk_wgs s)), sk_wgs := sk_wgs s @ [1]\<rparr>)))"

text \<open>rdy.Wait() returns when the counter is zero.\<close>

definition wg_open :: "nat \<Rightarrow> 'v sink \<Rightarrow> bool" where
  "wg_open w s \<longleftrightarrow> w < length (sk_wgs s) \<and> sk_wgs s ! w = 0"

definition Sink_WaitReady_end :: "'v sink \<Rightarrow> gerr option" where
  "Sink_WaitReady_end s =
     (if sk_value s = None \<and> sk_err s = None \<and> sk_closed s then Some ErrSinkClosed else sk_err s)"

definition Sink_Update :: "'v option \<Rightarrow> time \<Rightarrow> gerr option \<Rightarrow> 'v sink \<Rightarrow> 'v sink" where
  "Sink_Update value timestamp err s =
     (if sk_closed s then s
      else
        (let initial = (sk_value s = None);
             s1 = (if err = None then s\<lparr>sk_value := value\<rparr> else s);
             s2 = (if err = None \<or> initial then s1\<lparr>sk_timestamp := timestamp, sk_err := err\<rparr> else s1)
         in signal_ready s2))"

lemmas sink_defs [go_defs] = Sink_Close_def Sink_Value_def Sink_Ready_def Sink_WaitReady_begin_def
  Sink_WaitReady_end_def Sink_Update_def signal_ready_def

section \<open>The sink and its waiters\<close>

datatype 'v sink_event =
    SkClose
  | SkUpdate "'v option" time "gerr option"
  | SkWaitBegin nat
  | SkWaitEnd nat

record 'v sink_sys =
  ss_sink :: "'v sink"
  ss_waits :: "nat \<Rightarrow> wait option"

definition sink_init :: "'v sink_sys \<Rightarrow> bool" where
  "sink_init s \<longleftrightarrow> s = \<lparr>ss_sink = Sink_zero, ss_waits = (\<lambda>_. None)\<rparr>"

fun sink_step :: "'v sink_event \<Rightarrow> 'v sink_sys \<Rightarrow> 'v sink_sys option" where
  "sink_step SkClose s = Some (s\<lparr>ss_sink := Sink_Close (ss_sink s)\<rparr>)"
| "sink_step (SkUpdate v t err) s = Some (s\<lparr>ss_sink := Sink_Update v t err (ss_sink s)\<rparr>)"
| "sink_step (SkWaitBegin i) s =
     (case ss_waits s i of
        None \<Rightarrow> (case Sink_WaitReady_begin (ss_sink s) of
                   (r, k) \<Rightarrow> Some (s\<lparr>ss_sink := k, ss_waits := (ss_waits s)(i := Some r)\<rparr>))
      | Some _ \<Rightarrow> None)"
| "sink_step (SkWaitEnd i) s =
     (case ss_waits s i of
        Some (WaitFor w) \<Rightarrow>
          (if wg_open w (ss_sink s)
           then Some (s\<lparr>ss_waits := (ss_waits s)(i := Some (Done (Sink_WaitReady_end (ss_sink s))))\<rparr>)
           else None)
      | _ \<Rightarrow> None)"

text \<open>
  The invariant: only the current group is unfinished, a finished group has a reason (a value,
  an error or the close), and a closed or ready sink has no unfinished group.
\<close>

definition sink_inv :: "'v sink \<Rightarrow> bool" where
  "sink_inv s \<longleftrightarrow>
     (\<forall>w < length (sk_wgs s). sk_wgs s ! w = (if sk_ready s = Some w then 1 else 0)) \<and>
     (\<forall>w. sk_ready s = Some w \<longrightarrow> w < length (sk_wgs s)) \<and>
     (sk_closed s \<longrightarrow> sk_ready s = None)"

definition waits_inv :: "'v sink_sys \<Rightarrow> bool" where
  "waits_inv s \<longleftrightarrow> (\<forall>i w. ss_waits s i = Some (WaitFor w) \<longrightarrow> w < length (sk_wgs (ss_sink s)))"

definition sink_sys_inv :: "'v sink_sys \<Rightarrow> bool" where
  "sink_sys_inv s \<longleftrightarrow> sink_inv (ss_sink s) \<and> waits_inv s"

lemma inv_signal: 
  assumes "sink_inv s" shows "sink_inv (signal_ready s)" "sk_ready (signal_ready s) = None"
    and "length (sk_wgs (signal_ready s)) = length (sk_wgs s)"
  using assms by (auto simp: sink_inv_def signal_ready_def nth_list_update split: option.splits)

lemma signal_frame [simp]:
  "sk_value (signal_ready s) = sk_value s" "sk_err (signal_ready s) = sk_err s"
  "sk_closed (signal_ready s) = sk_closed s" "sk_timestamp (signal_ready s) = sk_timestamp s"
  by (simp_all add: signal_ready_def split: option.splits)

lemma signal_finishes: "sink_inv s \<Longrightarrow> w < length (sk_wgs s) \<Longrightarrow> wg_open w (signal_ready s)"
  by (auto simp: sink_inv_def signal_ready_def wg_open_def nth_list_update split: option.splits)

lemma signal_closed:
  "sink_inv s \<Longrightarrow> sink_inv (signal_ready (s\<lparr>sk_closed := True\<rparr>)) \<and>
   length (sk_wgs (signal_ready (s\<lparr>sk_closed := True\<rparr>))) = length (sk_wgs s) \<and>
   (\<forall>w < length (sk_wgs s). wg_open w (signal_ready (s\<lparr>sk_closed := True\<rparr>)))"
  by (auto simp: sink_inv_def signal_ready_def wg_open_def nth_list_update split: option.splits)

lemma inv_data: "sink_inv (s\<lparr>sk_value := v\<rparr>) = sink_inv s" "sink_inv (s\<lparr>sk_timestamp := t, sk_err := e\<rparr>) = sink_inv s"
  by (simp_all add: sink_inv_def)

lemma inv_Update: "sink_inv s \<Longrightarrow> sink_inv (Sink_Update v t e s)"
  by (auto simp: Sink_Update_def Let_def inv_data intro!: inv_signal)

lemma Update_wgs [simp]: "length (sk_wgs (Sink_Update v t e s)) = length (sk_wgs s)"
  by (auto simp: Sink_Update_def Let_def signal_ready_def split: option.splits)

lemma Close_wgs [simp]: "length (sk_wgs (Sink_Close s)) = length (sk_wgs s)"
  by (auto simp: Sink_Close_def signal_ready_def split: option.splits)

lemma inv_Sink_Close: "sink_inv s \<Longrightarrow> sink_inv (Sink_Close s)"
  by (auto simp: Sink_Close_def signal_closed)

lemma inv_WaitReady:
  "sink_inv s \<Longrightarrow> Sink_WaitReady_begin s = (r, t) \<Longrightarrow>
   sink_inv t \<and> length (sk_wgs s) \<le> length (sk_wgs t) \<and> (\<forall>w. r = WaitFor w \<longrightarrow> w < length (sk_wgs t))"
  by (auto simp: Sink_WaitReady_begin_def sink_inv_def nth_append less_Suc_eq split: if_splits option.splits)

lemma sink_sys_step:
  assumes "sink_sys_inv s" "sink_step e s = Some t"
  shows "sink_sys_inv t"
proof (cases e)
  case (SkWaitBegin i)
  with assms obtain r k where "Sink_WaitReady_begin (ss_sink s) = (r, k)"
    "t = s\<lparr>ss_sink := k, ss_waits := (ss_waits s)(i := Some r)\<rparr>"
    by (auto split: option.splits prod.splits)
  with assms(1) inv_WaitReady [of "ss_sink s" r k] show ?thesis
    by (auto simp: sink_sys_inv_def waits_inv_def dest: less_le_trans)
qed (use assms in \<open>auto simp: sink_sys_inv_def waits_inv_def inv_Update inv_Sink_Close
      split: option.splits wait.splits if_splits\<close>)

lemma sink_sys_init: "sink_init s \<Longrightarrow> sink_sys_inv s"
  by (simp add: sink_init_def sink_sys_inv_def waits_inv_def sink_inv_def Sink_zero_def)

interpretation sink_machine: inductive_invariant sink_step sink_init sink_sys_inv
  by unfold_locales (fact sink_sys_init, fact sink_sys_step)

text \<open>Runs in which every successful update carries a value, as those of the monitors do.\<close>

fun with_value :: "'v sink_event \<Rightarrow> bool" where
  "with_value (SkUpdate v t err) \<longleftrightarrow> (err = None \<longrightarrow> v \<noteq> None)"
| "with_value _ \<longleftrightarrow> True"

definition sink_step_v :: "'v sink_event \<Rightarrow> 'v sink_sys \<Rightarrow> 'v sink_sys option" where
  "sink_step_v e s = (if with_value e then sink_step e s else None)"

definition has_reason :: "'v sink \<Rightarrow> bool" where
  "has_reason s \<longleftrightarrow> (\<exists>w. wg_open w s) \<longrightarrow> sk_value s \<noteq> None \<or> sk_err s \<noteq> None \<or> sk_closed s"

definition ready_inv :: "'v sink_sys \<Rightarrow> bool" where
  "ready_inv s \<longleftrightarrow> has_reason (ss_sink s) \<and> (sk_value (ss_sink s) \<noteq> None \<longrightarrow> sk_err (ss_sink s) = None)"

lemma wg_open_append: "wg_open w (s\<lparr>sk_ready := r, sk_wgs := sk_wgs s @ [1]\<rparr>) \<longleftrightarrow> wg_open w s"
  by (auto simp: wg_open_def nth_append)

lemma ready_inv_step:
  assumes "ready_inv s" "sink_step_v e s = Some t"
  shows "ready_inv t"
proof (cases e)
  case SkClose
  with assms show ?thesis
    by (auto simp: sink_step_v_def ready_inv_def has_reason_def Sink_Close_def split: if_splits)
next
  case (SkUpdate v tm err)
  with assms show ?thesis
    by (auto simp: sink_step_v_def ready_inv_def has_reason_def Sink_Update_def Let_def split: if_splits)
next
  case (SkWaitBegin i)
  with assms show ?thesis
    by (auto simp: sink_step_v_def ready_inv_def has_reason_def Sink_WaitReady_begin_def wg_open_append
        split: option.splits if_splits)
next
  case (SkWaitEnd i)
  with assms show ?thesis
    by (auto simp: sink_step_v_def ready_inv_def split: option.splits wait.splits if_splits)
qed

lemma ready_inv_init: "sink_init s \<Longrightarrow> ready_inv s"
  by (simp add: sink_init_def ready_inv_def has_reason_def Sink_zero_def wg_open_def)

interpretation sink_ready: inductive_invariant sink_step_v sink_init ready_inv
  by unfold_locales (fact ready_inv_init, fact ready_inv_step)

section \<open>What a sink holds\<close>

type_synonym 'v update = "'v \<times> time \<times> gerr option"

text \<open>
  The contract, over the history of updates: the last success with its time; without any
  success, the time and the error of the last failure.
\<close>

definition successes :: "'v update list \<Rightarrow> ('v \<times> time) list" where
  "successes us = map (\<lambda>(v, t, e). (v, t)) (filter (\<lambda>(v, t, e). e = None) us)"

definition sink_contract :: "'v update list \<Rightarrow> 'v option \<times> time \<times> gerr option" where
  "sink_contract us =
     (if successes us \<noteq> [] then (Some (fst (last (successes us))), snd (last (successes us)), None)
      else if us \<noteq> [] then (None, snd (last us))
      else (None, time_zero, None))"

fun Sink_Updates :: "'v update list \<Rightarrow> 'v sink \<Rightarrow> 'v sink" where
  "Sink_Updates [] s = s"
| "Sink_Updates ((v, t, err) # us) s = Sink_Updates us (Sink_Update (Some v) t err s)"

lemma Updates_append: "Sink_Updates (us @ vs) s = Sink_Updates vs (Sink_Updates us s)"
  by (induction us s rule: Sink_Updates.induct) auto

lemma Updates_closed: "sk_closed s \<Longrightarrow> Sink_Updates us s = s"
  by (induction us s rule: Sink_Updates.induct) (auto simp: Sink_Update_def)

lemma Update_open [simp]: "sk_closed (Sink_Update v t e s) = sk_closed s"
  by (simp add: Sink_Update_def Let_def)

lemma Updates_open [simp]: "sk_closed (Sink_Updates us s) = sk_closed s"
  by (induction us s rule: Sink_Updates.induct) auto

lemma successes_snoc:
  "successes (us @ [(v, t, e)]) = (if e = None then successes us @ [(v, t)] else successes us)"
  by (simp add: successes_def)

lemma successes_Nil [simp]: "successes [] = []"
  by (simp add: successes_def)

lemma Value_Updates: "Sink_Value (Sink_Updates us Sink_zero) = sink_contract us"
proof (induction us rule: rev_induct)
  case Nil
  then show ?case by (simp add: Sink_Value_def Sink_zero_def sink_contract_def)
next
  case (snoc u us)
  obtain v t e where u: "u = (v, t, e)" by (cases u)
  have o: "\<not> sk_closed (Sink_Updates us Sink_zero)" by (simp add: Sink_zero_def)
  show ?case
    using snoc o unfolding u
    by (auto simp: Updates_append successes_snoc sink_contract_def Sink_Value_def Sink_Update_def Let_def
        split: if_splits)
qed

text \<open>A successful update with a nil value empties the sink again.\<close>

lemma nil_update_clears: "\<not> sk_closed s \<Longrightarrow> \<not> Sink_Ready (Sink_Update None t None s)"
  by (simp add: Sink_Ready_def Sink_Update_def Let_def)

section \<open>Properties\<close>


text \<open>
  No caller of WaitReady is forgotten: in every reachable state a caller that has to wait
  can either return now, or it waits for the current group of an open sink, and then the next
  Update or Close, whichever comes, lets it return. No group's counter is ever negative.
\<close>

theorem waiters_released:
  assumes "reach sink_step sink_init s" "ss_waits s i = Some (WaitFor w)"
  shows "(wg_open w (ss_sink s) \<or> sk_ready (ss_sink s) = Some w \<and> \<not> sk_closed (ss_sink s)) \<and>
     wg_open w (Sink_Close (ss_sink s)) \<and> wg_open w (Sink_Update v t err (ss_sink s)) \<and>
     (\<forall>n \<in> set (sk_wgs (ss_sink s)). 0 \<le> n)"
proof -
  have inv: "sink_inv (ss_sink s)" and lt: "w < length (sk_wgs (ss_sink s))"
    using sink_machine.reach_inv [OF assms(1)] assms(2) by (auto simp: sink_sys_inv_def waits_inv_def)
  have "wg_open w (ss_sink s)" if "sk_closed (ss_sink s)"
    using that inv lt by (simp add: sink_inv_def wg_open_def)
  moreover have "wg_open w (ss_sink s) \<or> sk_ready (ss_sink s) = Some w \<and> \<not> sk_closed (ss_sink s)"
    using inv lt by (auto simp: sink_inv_def wg_open_def)
  moreover have "\<forall>n \<in> set (sk_wgs (ss_sink s)). 0 \<le> n"
    using inv by (auto simp: sink_inv_def in_set_conv_nth)
  ultimately show ?thesis
    using inv lt signal_closed [OF inv]
    by (auto simp: Sink_Close_def Sink_Update_def Let_def inv_data intro!: signal_finishes)
qed

definition sink_sys0 :: "nat sink_sys" where
  "sink_sys0 = \<lparr>ss_sink = Sink_zero, ss_waits = (\<lambda>_. None)\<rparr>"

theorem waiters_released_witness:
  "\<exists>s. run sink_step sink_sys0 [SkWaitBegin 4] = Some s \<and> ss_waits s 4 = Some (WaitFor 0) \<and>
     wg_open 0 (Sink_Close (ss_sink s)) \<and> wg_open 0 (Sink_Update (Some 1) 5 None (ss_sink s))"
proof -
  obtain s where r: "run sink_step sink_sys0 [SkWaitBegin 4] = Some s" and w: "ss_waits s 4 = Some (WaitFor 0)"
    by (simp add: sink_sys0_def Sink_WaitReady_begin_def Sink_zero_def)
  have "sink_init sink_sys0" by (simp add: sink_init_def sink_sys0_def)
  then have "reach sink_step sink_init s" using r by (rule run_reach)
  from waiters_released [OF this w] r w show ?thesis by blast
qed

text \<open>
  WaitReady returns nil only when the sink is ready with a value, provided that no
  successful update carries nil: a caller that was woken by a failure or by Close gets an error.
\<close>

theorem waitready_nil_means_ready:
  assumes "reach sink_step_v sink_init s" "sink_step_v e s = Some t"
    and "e = SkWaitBegin i \<or> e = SkWaitEnd i" "ss_waits t i = Some (Done None)"
  shows "Sink_Ready (ss_sink t)"
  using assms sink_ready.reach_inv [OF assms(1)]
  by (auto simp: sink_step_v_def ready_inv_def has_reason_def Sink_WaitReady_begin_def Sink_WaitReady_end_def Sink_Ready_def
      split: option.splits wait.splits if_splits)

theorem waitready_nil_means_ready_witness:
  "\<exists>s t. run sink_step_v sink_sys0 [SkWaitBegin 4, SkUpdate None 3 (Some ErrEOF), SkUpdate (Some 9) 5 None] = Some s \<and>
     sink_step_v (SkWaitEnd 4) s = Some t \<and> Sink_Ready (ss_sink t)"
proof -
  obtain s t where r: "run sink_step_v sink_sys0 [SkWaitBegin 4, SkUpdate None 3 (Some ErrEOF), SkUpdate (Some 9) 5 None] = Some s"
    and t: "sink_step_v (SkWaitEnd 4) s = Some t" and d: "ss_waits t 4 = Some (Done None)"
    by (simp add: sink_step_v_def sink_sys0_def Sink_WaitReady_begin_def Sink_zero_def Sink_Update_def signal_ready_def
        Let_def wg_open_def Sink_WaitReady_end_def)
  have "sink_init sink_sys0" by (simp add: sink_init_def sink_sys0_def)
  then have "reach sink_step_v sink_init s" using r by (rule run_reach)
  from waitready_nil_means_ready [OF this t disjI2 [OF refl] d] r t show ?thesis by blast
qed

end
