(* ===== verification/Monitor.thy ===== *)
theory Monitor imports Broadcaster Poller ValueSink Endpoint begin

text \<open>
  The type Monitor (monitor/monitor.go): it starts and stops pollers over one source, one at a
  time, and owns the sink and the broadcaster.

  The machine is composed of the machines of its parts: every poller that Start has made is a
  state of theory Poller, and the broadcaster is a state of theory Broadcaster. Close, Stop and
  Update hold the monitor's mutex while they wait for a poller, so a call that waits is part of
  the state. An invocation of a poller that is inside Broadcast is recorded, since source.Poll
  cannot return from there.
\<close>

section \<open>State\<close>

datatype mo_holder =
    MoFree
  | MoStopping nat      \<comment> \<open>Stop waits for the Close of that poller\<close>
  | MoClosing nat       \<comment> \<open>Close waits for the Close of that poller\<close>
  | MoCloseRest         \<comment> \<open>Close, before it closes the sink and the broadcaster\<close>
  | MoUpdating nat      \<comment> \<open>Update waits for the pulse to be taken\<close>

record monitor =
  mo_interval :: duration
  mo_timeout :: duration
  mo_cache :: duration
  mo_limit :: nat
  mo_instance :: "nat option"
  mo_closed :: bool

record msys =
  ms_m :: monitor
  ms_holder :: mo_holder
  ms_pollers :: "psys list"
  ms_configs :: "EndpointConfig list"
  ms_sink :: "unit sink"
  ms_bc :: bsys
  ms_broadcaster :: "(nat \<times> nat) option"

definition Monitor_New :: "duration \<Rightarrow> duration \<Rightarrow> duration \<Rightarrow> nat \<Rightarrow> monitor" where
  "Monitor_New interval timeout cache limit = \<lparr>mo_interval = interval, mo_timeout = timeout, mo_cache = cache,
     mo_limit = limit, mo_instance = None, mo_closed = False\<rparr>"

definition msys_new :: "duration \<Rightarrow> duration \<Rightarrow> duration \<Rightarrow> nat \<Rightarrow> msys" where
  "msys_new interval timeout cache limit = \<lparr>ms_m = Monitor_New interval timeout cache limit, ms_holder = MoFree,
     ms_pollers = [], ms_configs = [], ms_sink = Sink_zero, ms_bc = bsys0, ms_broadcaster = None\<rparr>"

definition msys_init :: "msys \<Rightarrow> bool" where
  "msys_init s \<longleftrightarrow> (\<exists>interval timeout cache limit. s = msys_new interval timeout cache limit)"

section \<open>Operations\<close>

definition set_instance :: "nat option \<Rightarrow> msys \<Rightarrow> msys" where
  "set_instance p s = s\<lparr>ms_m := (ms_m s)\<lparr>mo_instance := p\<rparr>\<rparr>"

text \<open>The configuration of the client that Start makes.\<close>

definition start_config :: "monitor \<Rightarrow> EndpointConfig" where
  "start_config m =
     (let config = DefaultEndpointConfig;
          config = (if 0 < mo_cache m then config\<lparr>ec_Caching := True, ec_CacheDuration := mo_cache m\<rparr>
                    else config\<lparr>ec_Caching := False\<rparr>);
          config = (if 0 < mo_limit m then config\<lparr>ec_Limiting := True, ec_Limit := mo_limit m\<rparr>
                    else config\<lparr>ec_Limiting := False\<rparr>)
      in config\<lparr>ec_AcceptableCallDuration := mo_timeout m\<rparr>)"

definition Monitor_Start :: "msys \<Rightarrow> (gerr option \<times> msys) option" where
  "Monitor_Start s =
     (if ms_holder s = MoFree
      then Some (if mo_closed (ms_m s) then (Some ErrMonitorClosed, s)
                 else if mo_instance (ms_m s) \<noteq> None then (None, s)
                 else (None, set_instance (Some (length (ms_pollers s)))
                        (s\<lparr>ms_pollers := ms_pollers s @ [psys0], ms_configs := ms_configs s @ [start_config (ms_m s)]\<rparr>)))
      else None)"

definition set_poller :: "nat \<Rightarrow> psys \<Rightarrow> msys \<Rightarrow> msys" where
  "set_poller p x s = s\<lparr>ms_pollers := (ms_pollers s)[p := x]\<rparr>"

text \<open>The calls of a poller's Close and Poll; the monitor is caller number 0.\<close>

definition instance_Close :: "nat \<Rightarrow> mo_holder \<Rightarrow> msys \<Rightarrow> msys option" where
  "instance_Close p h s =
     map_option (\<lambda>x. set_poller p x (s\<lparr>ms_holder := h\<rparr>)) (poller_step (PoClose 0) (ms_pollers s ! p))"

definition Monitor_Stop :: "msys \<Rightarrow> msys option" where
  "Monitor_Stop s =
     (if ms_holder s = MoFree
      then (case mo_instance (ms_m s) of None \<Rightarrow> Some s | Some p \<Rightarrow> instance_Close p (MoStopping p) s)
      else None)"

definition Monitor_Close :: "msys \<Rightarrow> msys option" where
  "Monitor_Close s =
     (if ms_holder s = MoFree
      then if mo_closed (ms_m s) then Some s
           else (let s1 = s\<lparr>ms_m := (ms_m s)\<lparr>mo_closed := True\<rparr>\<rparr>
                 in case mo_instance (ms_m s) of
                      None \<Rightarrow> Some (s1\<lparr>ms_holder := MoCloseRest\<rparr>)
                    | Some p \<Rightarrow> instance_Close p (MoClosing p) s1)
      else None)"

text \<open>The poller's Close has returned.\<close>

definition Monitor_Closed :: "msys \<Rightarrow> msys option" where
  "Monitor_Closed s =
     (case ms_holder s of
        MoStopping p \<Rightarrow>
          (if ps_closers (ms_pollers s ! p) 0 = ClDone then Some (set_instance None (s\<lparr>ms_holder := MoFree\<rparr>)) else None)
      | MoClosing p \<Rightarrow>
          (if ps_closers (ms_pollers s ! p) 0 = ClDone then Some (set_instance None (s\<lparr>ms_holder := MoCloseRest\<rparr>)) else None)
      | _ \<Rightarrow> None)"

definition Monitor_CloseRest :: "msys \<Rightarrow> msys option" where
  "Monitor_CloseRest s =
     (if ms_holder s = MoCloseRest
      then map_option (\<lambda>b. s\<lparr>ms_holder := MoFree, ms_sink := Sink_Close (ms_sink s), ms_bc := b\<rparr>) (broadcast_step BrClose (ms_bc s))
      else None)"

definition Monitor_Update :: "msys \<Rightarrow> msys option" where
  "Monitor_Update s =
     (if ms_holder s = MoFree
      then (case mo_instance (ms_m s) of
              Some p \<Rightarrow>
                (if \<not> mo_closed (ms_m s)
                 then map_option (\<lambda>x. set_poller p x (s\<lparr>ms_holder := MoUpdating p\<rparr>)) (poller_step (PoPoll 0) (ms_pollers s ! p))
                 else Some s)
            | None \<Rightarrow> Some s)
      else None)"

definition Monitor_Updated :: "msys \<Rightarrow> msys option" where
  "Monitor_Updated s =
     (case ms_holder s of
        MoUpdating p \<Rightarrow> (if ps_poll_caller (ms_pollers s ! p) = None then Some (s\<lparr>ms_holder := MoFree\<rparr>) else None)
      | _ \<Rightarrow> None)"

section \<open>The machine\<close>

text \<open>The goroutines of a poller; source.Poll does not return from inside Broadcast.\<close>

fun internal :: "poller_event \<Rightarrow> bool" where
  "internal (PoClose i) = False"
| "internal (PoPoll i) = False"
| "internal _ = True"

definition monitor_poller :: "nat \<Rightarrow> poller_event \<Rightarrow> msys \<Rightarrow> msys option" where
  "monitor_poller p e s =
     (if p < length (ms_pollers s) \<and> internal e \<and> (\<forall>j. e = PoReturn j \<longrightarrow> ms_broadcaster s \<noteq> Some (p, j))
      then map_option (\<lambda>x. set_poller p x s) (poller_step e (ms_pollers s ! p)) else None)"

text \<open>The poll of invocation \<open>j\<close> of poller \<open>p\<close> calls Broadcast, and is in it until its loop ends.\<close>

definition set_bc :: "nat \<times> nat \<Rightarrow> bsys \<Rightarrow> msys \<Rightarrow> msys" where
  "set_bc who b s = s\<lparr>ms_bc := b, ms_broadcaster := (if br_loop b = None then None else Some who)\<rparr>"

definition monitor_broadcast :: "nat \<Rightarrow> nat \<Rightarrow> nat \<Rightarrow> msys \<Rightarrow> msys option" where
  "monitor_broadcast p j n s =
     (if p < length (ms_pollers s) \<and> inv_at (ms_pollers s ! p) j InvPolling
      then map_option (\<lambda>b. set_bc (p, j) b s) (broadcast_step (BrBroadcast n) (ms_bc s)) else None)"

definition monitor_bc :: "broadcast_event \<Rightarrow> msys \<Rightarrow> msys option" where
  "monitor_bc e s =
     (if outside e
      then map_option (\<lambda>b. set_bc (case ms_broadcaster s of Some w \<Rightarrow> w | None \<Rightarrow> (0, 0)) b s) (broadcast_step e (ms_bc s)) else None)"

text \<open>Listen and Unlisten do not take the mutex of the monitor.\<close>

definition Monitor_Listen :: "nat \<Rightarrow> msys \<Rightarrow> msys option" where
  "Monitor_Listen chanSize s = monitor_bc (BrListen chanSize) s"

definition Monitor_Unlisten :: "nat \<Rightarrow> msys \<Rightarrow> msys option" where
  "Monitor_Unlisten c s = monitor_bc (BrUnlisten c) s"

datatype monitor_event =
    MoStart
  | MoStop
  | MoClose
  | MoClosed
  | MoRest
  | MoUpdate
  | MoUpdated
  | MoPoller nat poller_event
  | MoBroadcast nat nat nat
  | MoChannels broadcast_event

fun monitor_step :: "monitor_event \<Rightarrow> msys \<Rightarrow> msys option" where
  "monitor_step MoStart s = map_option snd (Monitor_Start s)"
| "monitor_step MoStop s = Monitor_Stop s"
| "monitor_step MoClose s = Monitor_Close s"
| "monitor_step MoClosed s = Monitor_Closed s"
| "monitor_step MoRest s = Monitor_CloseRest s"
| "monitor_step MoUpdate s = Monitor_Update s"
| "monitor_step MoUpdated s = Monitor_Updated s"
| "monitor_step (MoPoller p e) s = monitor_poller p e s"
| "monitor_step (MoBroadcast p j n) s = monitor_broadcast p j n s"
| "monitor_step (MoChannels e) s = monitor_bc e s"

section \<open>What the monitor relies on of a poller\<close>

text \<open>A poller that is closed by caller 0 only.\<close>

definition poller_ok :: "psys \<Rightarrow> bool" where
  "poller_ok x \<longleftrightarrow> reach poller_step psys_init x \<and> (\<forall>i. i \<noteq> 0 \<longrightarrow> ps_closers x i = ClIdle) \<and>
     (ps_closers x 0 = ClIdle \<longleftrightarrow> \<not> po_closed (ps_poller x))"

lemma poller_ok_new: "poller_ok psys0" "ps_closers psys0 0 = ClIdle"
proof -
  have "reach poller_step psys_init psys0" by (rule psys0_reach [of "[]"]) simp
  then show "poller_ok psys0" "ps_closers psys0 0 = ClIdle" by (simp_all add: poller_ok_def psys0_def Poller_New_def)
qed

lemma internal_closers:
  assumes "internal e" "poller_step e x = Some y"
  shows "po_closed (ps_poller y) = po_closed (ps_poller x)" "ps_closers y i = ClIdle \<longleftrightarrow> ps_closers x i = ClIdle"
    "ps_closers x i = ClDone \<Longrightarrow> ps_closers y i = ClDone"
  using assms by (cases e; auto simp: poller_defs split: if_splits closer.splits)+

lemma poller_ok_internal:
  assumes "poller_ok x" "internal e" "poller_step e x = Some y"
  shows "poller_ok y"
  using assms internal_closers [OF assms(2,3)] by (auto simp: poller_ok_def intro: reach_step)

lemma poller_ok_close:
  assumes "poller_ok x" "poller_step (PoClose 0) x = Some y" "ps_closers x 0 = ClIdle"
  shows "poller_ok y" "ps_closers y 0 \<noteq> ClIdle" "inv_at y j pc = inv_at x j pc"
proof -
  have "po_closed (ps_poller y)" "ps_closers y 0 \<noteq> ClIdle" "\<forall>i. i \<noteq> 0 \<longrightarrow> ps_closers y i = ClIdle" "ps_invs y = ps_invs x"
    using assms by (auto simp: poller_ok_def Poller_Close_def close_loop_def Let_def split: if_splits option.splits)
  moreover have "reach poller_step psys_init y" using assms
    by (intro reach_step [of poller_step psys_init x "PoClose 0" y]) (simp_all add: poller_ok_def)
  ultimately show "poller_ok y" "ps_closers y 0 \<noteq> ClIdle" "inv_at y j pc = inv_at x j pc"
    by (simp_all add: poller_ok_def inv_at_def)
qed

lemma poller_ok_poll:
  assumes "poller_ok x" "poller_step (PoPoll 0) x = Some y"
  shows "poller_ok y" "ps_closers y = ps_closers x" "inv_at y j pc = inv_at x j pc"
proof -
  have "po_closed (ps_poller y) = po_closed (ps_poller x)" "ps_closers y = ps_closers x" "ps_invs y = ps_invs x"
    using assms by (auto simp: Poller_Poll_def split: if_splits)
  moreover have "reach poller_step psys_init y" using assms(1) assms(2)
    by (intro reach_step [of poller_step psys_init x "PoPoll 0" y]) (simp_all add: poller_ok_def)
  ultimately show "poller_ok y" "ps_closers y = ps_closers x" "inv_at y j pc = inv_at x j pc"
    using assms(1) by (simp_all add: poller_ok_def inv_at_def)
qed

lemma internal_keeps_polling:
  assumes "internal e" "poller_step e x = Some y" "inv_at x j InvPolling" "e \<noteq> PoReturn j"
  shows "inv_at y j InvPolling"
  using assms by (cases e) (auto simp: poller_defs nth_append nth_list_update split: if_splits)

lemma closed_not_polling:
  assumes "poller_ok x" "ps_closers x 0 = ClDone"
  shows "ps_source_closed x = 1" "\<not> polling x j" "\<not> inv_at x j InvPolling"
proof -
  have inv: "psys_inv x" using assms(1) poller_machine.reach_inv by (auto simp: poller_ok_def)
  have c: "po_closed (ps_poller x)" using assms by (auto simp: poller_ok_def)
  have nw: "\<not> waiting (ps_closers x i)" for i
    using assms by (cases "i = 0") (auto simp: poller_ok_def waiting_def)
  with inv c show n: "ps_source_closed x = 1"
    unfolding psys_inv_def inv_closers_def by (metis One_nat_def le_Suc_eq le_zero_eq)
  with inv have "po_cancel (ps_poller x) = None" unfolding psys_inv_def inv_closers_def by blast
  with inv show "\<not> polling x j" "\<not> inv_at x j InvPolling"
    by (auto simp: psys_inv_def inv_owner_def polling_def inv_at_def owner_def)
qed

lemma polling_unique:
  assumes "poller_ok x" "polling x j" "polling x k"
  shows "j = k"
proof -
  have inv: "psys_inv x" using assms(1) poller_machine.reach_inv by (auto simp: poller_ok_def)
  have "po_cancel (ps_poller x) = Some i" if "polling x i" for i
    using that inv by (auto simp: polling_def inv_at_def psys_inv_def intro: inv_owner_at)
  from this [OF assms(2)] this [OF assms(3)] show ?thesis by simp
qed

section \<open>The invariant\<close>

text \<open>All pollers but the current one have been closed to the end.\<close>

definition pollers_inv :: "psys list \<Rightarrow> nat option \<Rightarrow> bool" where
  "pollers_inv ps inst \<longleftrightarrow> (\<forall>p < length ps. poller_ok (ps ! p) \<and> (Some p \<noteq> inst \<longrightarrow> ps_closers (ps ! p) 0 = ClDone)) \<and>
     (\<forall>p. inst = Some p \<longrightarrow> p < length ps)"

fun waits_for :: "mo_holder \<Rightarrow> nat option \<Rightarrow> bool \<Rightarrow> bool" where
  "waits_for MoFree inst closed = True"
| "waits_for (MoStopping p) inst closed = (inst = Some p \<and> \<not> closed)"
| "waits_for (MoClosing p) inst closed = (inst = Some p \<and> closed)"
| "waits_for MoCloseRest inst closed = (inst = None \<and> closed)"
| "waits_for (MoUpdating p) inst closed = (inst = Some p \<and> \<not> closed)"

fun closing :: "mo_holder \<Rightarrow> bool" where
  "closing (MoClosing p) = True"
| "closing MoCloseRest = True"
| "closing _ = False"

fun may_close :: "mo_holder \<Rightarrow> bool" where
  "may_close MoFree = True"
| "may_close (MoUpdating p) = True"
| "may_close _ = False"

definition holder_inv :: "monitor \<Rightarrow> mo_holder \<Rightarrow> psys list \<Rightarrow> bool" where
  "holder_inv m h ps \<longleftrightarrow> waits_for h (mo_instance m) (mo_closed m) \<and>
     (\<forall>p. mo_instance m = Some p \<longrightarrow> (ps_closers (ps ! p) 0 = ClIdle \<longleftrightarrow> may_close h))"

definition end_inv :: "monitor \<Rightarrow> mo_holder \<Rightarrow> unit sink \<Rightarrow> bsys \<Rightarrow> bool" where
  "end_inv m h sink bc \<longleftrightarrow> (mo_closed m \<and> \<not> closing h \<longrightarrow> mo_instance m = None \<and> sk_closed sink \<and> bc_closed (br_bc bc))"

definition bc_inv :: "bsys \<Rightarrow> (nat \<times> nat) option \<Rightarrow> psys list \<Rightarrow> bool" where
  "bc_inv bc who ps \<longleftrightarrow> reach broadcast_step bsys_init bc \<and> (who = None \<longleftrightarrow> br_loop bc = None) \<and>
     (\<forall>p j. who = Some (p, j) \<longrightarrow> p < length ps \<and> inv_at (ps ! p) j InvPolling)"

definition msys_inv :: "msys \<Rightarrow> bool" where
  "msys_inv s \<longleftrightarrow> pollers_inv (ms_pollers s) (mo_instance (ms_m s)) \<and> holder_inv (ms_m s) (ms_holder s) (ms_pollers s) \<and>
     end_inv (ms_m s) (ms_holder s) (ms_sink s) (ms_bc s) \<and> bc_inv (ms_bc s) (ms_broadcaster s) (ms_pollers s)"

lemma pollers_inv_set:
  assumes "pollers_inv ps inst" "poller_ok x" "Some p \<noteq> inst \<longrightarrow> ps_closers x 0 = ClDone"
  shows "pollers_inv (ps[p := x]) inst"
  using assms by (cases "p < length ps") (auto simp: pollers_inv_def nth_list_update list_update_beyond)

lemma bc_inv_set:
  assumes "bc_inv bc who ps" "\<And>j. who = Some (p, j) \<Longrightarrow> inv_at (ps ! p) j InvPolling \<Longrightarrow> inv_at x j InvPolling"
  shows "bc_inv bc who (ps[p := x])"
  using assms by (cases "p < length ps") (auto simp: bc_inv_def nth_list_update list_update_beyond)

lemma inv_Start:
  assumes inv: "msys_inv s" and t: "Monitor_Start s = Some (r, t)"
  shows "msys_inv t"
proof (cases "\<not> mo_closed (ms_m s) \<and> mo_instance (ms_m s) = None")
  case True
  then have t': "t = set_instance (Some (length (ms_pollers s)))
      (s\<lparr>ms_pollers := ms_pollers s @ [psys0], ms_configs := ms_configs s @ [start_config (ms_m s)]\<rparr>)"
    and h: "ms_holder s = MoFree" using t by (auto simp: Monitor_Start_def split: if_splits)
  have "pollers_inv (ms_pollers s @ [psys0]) (Some (length (ms_pollers s)))"
    using inv True poller_ok_new by (auto simp: msys_inv_def pollers_inv_def nth_append less_Suc_eq)
  moreover have "bc_inv (ms_bc s) (ms_broadcaster s) (ms_pollers s @ [psys0])"
    using inv by (auto simp: msys_inv_def bc_inv_def nth_append)
  ultimately show ?thesis
    using inv True h poller_ok_new by (simp add: t' set_instance_def msys_inv_def holder_inv_def end_inv_def)
next
  case False
  with t inv show ?thesis by (auto simp: Monitor_Start_def split: if_splits)
qed

lemma inv_instance_Close:
  assumes inv: "msys_inv s" and h: "ms_holder s = MoFree" and p: "mo_instance (ms_m s) = Some p"
    and t: "instance_Close p h' (s\<lparr>ms_m := m\<rparr>) = Some t" and m: "mo_instance m = Some p"
    and w: "waits_for h' (Some p) (mo_closed m)" "\<not> may_close h'" "mo_closed m \<longrightarrow> closing h'"
  shows "msys_inv t"
proof -
  obtain x where x: "poller_step (PoClose 0) (ms_pollers s ! p) = Some x"
    "t = set_poller p x (s\<lparr>ms_m := m, ms_holder := h'\<rparr>)"
    using t by (auto simp: instance_Close_def)
  have ok: "poller_ok (ms_pollers s ! p)" "ps_closers (ms_pollers s ! p) 0 = ClIdle"
    using inv h p by (auto simp: msys_inv_def pollers_inv_def holder_inv_def)
  note y = poller_ok_close [OF ok(1) x(1) ok(2)]
  have "pollers_inv ((ms_pollers s)[p := x]) (Some p)"
    using inv p y(1) by (intro pollers_inv_set) (auto simp: msys_inv_def)
  moreover have "bc_inv (ms_bc s) (ms_broadcaster s) ((ms_pollers s)[p := x])"
    using inv y(3) by (intro bc_inv_set) (auto simp: msys_inv_def)
  moreover have "p < length (ms_pollers s)" using inv p by (simp add: msys_inv_def pollers_inv_def)
  ultimately show ?thesis
    using w m y(2) by (simp add: x(2) set_poller_def msys_inv_def holder_inv_def end_inv_def)
qed

lemma inv_Stop:
  assumes inv: "msys_inv s" and t: "Monitor_Stop s = Some t"
  shows "msys_inv t"
proof (cases "mo_instance (ms_m s)")
  case (Some p)
  then have nc: "\<not> mo_closed (ms_m s)" and h: "ms_holder s = MoFree"
    using inv t by (auto simp: msys_inv_def end_inv_def Monitor_Stop_def split: if_splits)
  from t Some h have "instance_Close p (MoStopping p) (s\<lparr>ms_m := ms_m s\<rparr>) = Some t" by (simp add: Monitor_Stop_def)
  from inv_instance_Close [OF inv h Some this Some] nc show ?thesis by simp
qed (use inv t in \<open>auto simp: Monitor_Stop_def split: if_splits\<close>)

lemma inv_Monitor_Close:
  assumes inv: "msys_inv s" and t: "Monitor_Close s = Some t"
  shows "msys_inv t"
proof (cases "mo_closed (ms_m s)")
  case False
  have h: "ms_holder s = MoFree" using t by (auto simp: Monitor_Close_def split: if_splits)
  show ?thesis
  proof (cases "mo_instance (ms_m s)")
    case (Some p)
    from t Some h False have "instance_Close p (MoClosing p) (s\<lparr>ms_m := (ms_m s)\<lparr>mo_closed := True\<rparr>\<rparr>) = Some t"
      by (simp add: Monitor_Close_def)
    from inv_instance_Close [OF inv h Some this] Some show ?thesis by simp
  next
    case None
    with t h False inv show ?thesis
      by (auto simp: Monitor_Close_def msys_inv_def holder_inv_def end_inv_def)
  qed
qed (use inv t in \<open>auto simp: Monitor_Close_def split: if_splits\<close>)

lemma inv_Closed:
  assumes inv: "msys_inv s" and t: "Monitor_Closed s = Some t"
  shows "msys_inv t"
proof -
  obtain p h where p: "ps_closers (ms_pollers s ! p) 0 = ClDone" "mo_instance (ms_m s) = Some p"
    "t = set_instance None (s\<lparr>ms_holder := h\<rparr>)" "h = MoFree \<and> \<not> mo_closed (ms_m s) \<or> h = MoCloseRest \<and> mo_closed (ms_m s)"
    using t inv by (auto simp: Monitor_Closed_def msys_inv_def holder_inv_def split: mo_holder.splits if_splits)
  with inv have "pollers_inv (ms_pollers s) None" by (auto simp: msys_inv_def pollers_inv_def)
  with inv p(4) show ?thesis by (auto simp: p(3) set_instance_def msys_inv_def holder_inv_def end_inv_def)
qed

text \<open>No poller is polling when Close gets to the broadcaster, so its mutex is free.\<close>

lemma no_broadcast:
  assumes inv: "msys_inv s" and n: "mo_instance (ms_m s) = None"
  shows "ms_broadcaster s = None" "br_loop (ms_bc s) = None"
proof -
  have "ps_closers (ms_pollers s ! p) 0 = ClDone \<and> poller_ok (ms_pollers s ! p)" if "p < length (ms_pollers s)" for p
    using inv n that by (auto simp: msys_inv_def pollers_inv_def)
  then have "\<not> inv_at (ms_pollers s ! p) j InvPolling" if "p < length (ms_pollers s)" for p j
    using that closed_not_polling(3) by blast
  with inv show "ms_broadcaster s = None" by (cases "ms_broadcaster s") (auto simp: msys_inv_def bc_inv_def)
  with inv show "br_loop (ms_bc s) = None" by (simp add: msys_inv_def bc_inv_def)
qed

lemma close_frame: "br_bc (fold close_chan ls b) = br_bc b" "br_loop (fold close_chan ls b) = br_loop b"
  by (induction ls arbitrary: b) (simp_all add: close_chan_def)

lemma inv_CloseRest:
  assumes inv: "msys_inv s" and t: "Monitor_CloseRest s = Some t"
  shows "msys_inv t"
proof -
  obtain b where b: "broadcast_step BrClose (ms_bc s) = Some b" "ms_holder s = MoCloseRest"
    "t = s\<lparr>ms_holder := MoFree, ms_sink := Sink_Close (ms_sink s), ms_bc := b\<rparr>"
    using t by (auto simp: Monitor_CloseRest_def split: if_splits)
  have n: "mo_instance (ms_m s) = None" using inv b(2) by (simp add: msys_inv_def holder_inv_def)
  note nb = no_broadcast [OF inv n]
  have r: "reach broadcast_step bsys_init b" using inv b(1) reach_step by (auto simp: msys_inv_def bc_inv_def)
  have "bc_closed (br_bc b) \<and> br_loop b = None"
    using b(1) nb(2) close_frame by (auto simp: broadcast_step_def bc_Close_def Let_def set_listeners_def split: if_splits)
  moreover have "sk_closed (Sink_Close (ms_sink s))"
    by (simp add: Sink_Close_def signal_ready_def split: option.split)
  ultimately show ?thesis using inv n nb r by (simp add: b(3) msys_inv_def holder_inv_def end_inv_def bc_inv_def)
qed

lemma mo_inv_Update:
  assumes inv: "msys_inv s" and t: "Monitor_Update s = Some t"
  shows "msys_inv t"
proof (cases "\<exists>p. mo_instance (ms_m s) = Some p \<and> \<not> mo_closed (ms_m s)")
  case True
  then obtain p where p: "mo_instance (ms_m s) = Some p" "\<not> mo_closed (ms_m s)" by blast
  then obtain x where x: "poller_step (PoPoll 0) (ms_pollers s ! p) = Some x" "ms_holder s = MoFree"
    "t = set_poller p x (s\<lparr>ms_holder := MoUpdating p\<rparr>)" using t by (auto simp: Monitor_Update_def split: if_splits)
  have pl: "p < length (ms_pollers s)" "poller_ok (ms_pollers s ! p)" using inv p(1) by (auto simp: msys_inv_def pollers_inv_def)
  note y = poller_ok_poll [OF pl(2) x(1)]
  have "pollers_inv ((ms_pollers s)[p := x]) (Some p)"
    using inv p(1) y(1) by (intro pollers_inv_set) (auto simp: msys_inv_def)
  moreover have "bc_inv (ms_bc s) (ms_broadcaster s) ((ms_pollers s)[p := x])"
    using inv y(3) by (intro bc_inv_set) (auto simp: msys_inv_def)
  ultimately show ?thesis
    using inv p pl(1) x(2) y(2) by (simp add: x(3) set_poller_def msys_inv_def holder_inv_def end_inv_def)
next
  case False
  with inv t show ?thesis by (auto simp: Monitor_Update_def split: if_splits option.splits)
qed

lemma inv_Updated: "msys_inv s \<Longrightarrow> Monitor_Updated s = Some t \<Longrightarrow> msys_inv t"
  by (auto simp: Monitor_Updated_def msys_inv_def holder_inv_def end_inv_def split: mo_holder.splits if_splits)

lemma inv_monitor_poller:
  assumes inv: "msys_inv s" and t: "monitor_poller p e s = Some t"
  shows "msys_inv t"
proof -
  obtain x where p: "p < length (ms_pollers s)" "internal e" "\<forall>j. e = PoReturn j \<longrightarrow> ms_broadcaster s \<noteq> Some (p, j)"
    and x: "poller_step e (ms_pollers s ! p) = Some x" "t = set_poller p x s"
    using t by (auto simp: monitor_poller_def split: if_splits)
  have ok: "poller_ok (ms_pollers s ! p)" using inv p(1) by (simp add: msys_inv_def pollers_inv_def)
  note c = internal_closers [OF p(2) x(1)]
  have "pollers_inv ((ms_pollers s)[p := x]) (mo_instance (ms_m s))"
    using inv p(1) poller_ok_internal [OF ok p(2) x(1)] c(3) by (intro pollers_inv_set) (auto simp: msys_inv_def pollers_inv_def)
  moreover have "bc_inv (ms_bc s) (ms_broadcaster s) ((ms_pollers s)[p := x])"
    using inv p(3) internal_keeps_polling [OF p(2) x(1)] by (intro bc_inv_set) (auto simp: msys_inv_def)
  moreover have "holder_inv (ms_m s) (ms_holder s) ((ms_pollers s)[p := x])"
    using inv p(1) c(2) by (auto simp: msys_inv_def holder_inv_def nth_list_update)
  ultimately show ?thesis using inv by (simp add: x(2) set_poller_def msys_inv_def)
qed

lemma bc_inv_step:
  assumes "bc_inv bc who ps" "broadcast_step e bc = Some b" "br_loop b \<noteq> None \<longrightarrow> (\<exists>p j. w = (p, j) \<and> p < length ps \<and> inv_at (ps ! p) j InvPolling)"
  shows "bc_inv b (if br_loop b = None then None else Some w) ps"
  using assms by (auto simp: bc_inv_def intro: reach_step)

lemma inv_monitor_broadcast:
  assumes inv: "msys_inv s" and t: "monitor_broadcast p j n s = Some t"
  shows "msys_inv t"
proof -
  obtain b where b: "p < length (ms_pollers s)" "inv_at (ms_pollers s ! p) j InvPolling"
    "broadcast_step (BrBroadcast n) (ms_bc s) = Some b" "t = set_bc (p, j) b s"
    using t by (auto simp: monitor_broadcast_def split: if_splits)
  have "bc_inv b (if br_loop b = None then None else Some (p, j)) (ms_pollers s)"
    using inv b by (intro bc_inv_step [OF _ b(3)]) (auto simp: msys_inv_def)
  moreover have "bc_closed (br_bc b) = bc_closed (br_bc (ms_bc s))"
    using b(3) by (auto simp: broadcast_step_def bc_Broadcast_def split: if_splits)
  ultimately show ?thesis using inv by (simp add: b(4) set_bc_def msys_inv_def end_inv_def)
qed

lemma inv_monitor_bc:
  assumes inv: "msys_inv s" and t: "monitor_bc e s = Some t"
  shows "msys_inv t"
proof -
  let ?w = "case ms_broadcaster s of Some w \<Rightarrow> w | None \<Rightarrow> (0, 0)"
  obtain b where b: "outside e" "broadcast_step e (ms_bc s) = Some b" "t = set_bc ?w b s"
    using t by (auto simp: monitor_bc_def split: if_splits)
  have l: "br_loop b \<noteq> None \<longrightarrow> br_loop (ms_bc s) \<noteq> None" and c: "bc_closed (br_bc b) = bc_closed (br_bc (ms_bc s))"
    using b(1,2) channels_frame by blast+
  have "bc_inv b (if br_loop b = None then None else Some ?w) (ms_pollers s)"
    using inv b l by (intro bc_inv_step [OF _ b(2)]) (auto simp: msys_inv_def bc_inv_def)
  with inv c show ?thesis by (simp add: b(3) set_bc_def msys_inv_def end_inv_def)
qed

lemma msys_inv_step: "msys_inv s \<Longrightarrow> monitor_step e s = Some t \<Longrightarrow> msys_inv t"
  by (cases e) (auto intro: inv_Start inv_Stop inv_Monitor_Close inv_Closed inv_CloseRest mo_inv_Update inv_Updated
      inv_monitor_poller inv_monitor_broadcast inv_monitor_bc)

lemma msys_inv_init: "msys_init s \<Longrightarrow> msys_inv s"
  by (auto simp: msys_init_def msys_new_def Monitor_New_def msys_inv_def pollers_inv_def holder_inv_def end_inv_def bc_inv_def
      bsys_init_def bsys0_def intro: reach_init)

interpretation monitor_machine: inductive_invariant monitor_step msys_init msys_inv
  by unfold_locales (fact msys_inv_init, fact msys_inv_step)

section \<open>Close gets through\<close>

lemma run_poller:
  assumes "p < length (ms_pollers s)" "ms_broadcaster s = None" "list_all internal es"
    "run poller_step (ms_pollers s ! p) es = Some y"
  shows "run monitor_step s (map (MoPoller p) es) = Some (set_poller p y s)"
  using assms
proof (induction es arbitrary: s)
  case Nil
  then show ?case by (cases s) (auto simp: set_poller_def)
next
  case (Cons e es)
  then obtain x where x: "poller_step e (ms_pollers s ! p) = Some x" "run poller_step x es = Some y" by (auto split: option.splits)
  have "monitor_step (MoPoller p e) s = Some (set_poller p x s)" using Cons.prems x(1) by (simp add: monitor_poller_def)
  moreover have "run monitor_step (set_poller p x s) (map (MoPoller p) es) = Some (set_poller p y (set_poller p x s))"
    using Cons.prems x(2) by (intro Cons.IH) (simp_all add: set_poller_def)
  ultimately show ?case by (simp add: set_poller_def)
qed

lemma wind_down_internal: "list_all internal (drop n (wind_down j i))"
proof -
  have "list_all internal (wind_down j i)" by (simp add: wind_down_def)
  then show ?thesis by (auto simp: list_all_iff dest: in_set_dropD)
qed

text \<open>The events by which calls that hold the mutex come to an end.\<close>

fun winding :: "monitor_event \<Rightarrow> bool" where
  "winding (MoPoller p e) = True"
| "winding MoClosed = True"
| "winding MoRest = True"
| "winding MoUpdated = True"
| "winding _ = False"

lemma winding_pollers [simp]: "list_all winding (map (MoPoller p) es)"
  by (simp add: list_all_iff)

lemma instance_winds_down:
  assumes inv: "msys_inv s" and p: "mo_instance (ms_m s) = Some p" "ps_closers (ms_pollers s ! p) 0 \<noteq> ClIdle"
    and b: "ms_broadcaster s = None"
  shows "\<exists>es y. run monitor_step s (map (MoPoller p) es) = Some (set_poller p y s) \<and> ps_closers y 0 = ClDone"
proof -
  have l: "p < length (ms_pollers s)" "poller_ok (ms_pollers s ! p)" using inv p(1) by (auto simp: msys_inv_def pollers_inv_def)
  show ?thesis
  proof (cases "ps_closers (ms_pollers s ! p) 0")
    case (ClWaiting x)
    then have w: "waiting (ps_closers (ms_pollers s ! p) 0)" by (simp add: waiting_def)
    have "psys_inv (ms_pollers s ! p)" using l(2) poller_machine.reach_inv by (auto simp: poller_ok_def)
    from close_goes_through [OF this w] obtain j n y where
      y: "run poller_step (ms_pollers s ! p) (drop n (wind_down j 0)) = Some y" "ps_closers y 0 = ClDone" by blast
    with run_poller [OF l(1) b wind_down_internal y(1)] show ?thesis by blast
  next
    case ClDone
    with run_poller [OF l(1) b, of "[]"] show ?thesis by fastforce
  qed (use p in simp)
qed

lemma rest_closes:
  assumes inv: "msys_inv u" and h: "ms_holder u = MoCloseRest"
  shows "\<exists>t. monitor_step MoRest u = Some t \<and> ms_holder t = MoFree \<and> mo_closed (ms_m t) \<and> ms_broadcaster t = None"
proof -
  have i: "mo_instance (ms_m u) = None" "mo_closed (ms_m u)" using inv h by (simp_all add: msys_inv_def holder_inv_def)
  note nb = no_broadcast [OF inv i(1)]
  have "bsys_inv (ms_bc u)" using inv broadcast_machine.reach_inv by (auto simp: msys_inv_def bc_inv_def)
  with nb(2) have "\<exists>c. broadcast_step BrClose (ms_bc u) = Some c"
    by (simp add: broadcast_step_def bc_Close_def bc_free_def bsys_inv_def)
  with h i nb(1) show ?thesis by (auto simp: Monitor_CloseRest_def)
qed

lemma closing_ends:
  assumes inv: "msys_inv s" and h: "ms_holder s = MoClosing p" and b: "ms_broadcaster s = None"
  shows "\<exists>es t. run monitor_step s es = Some t \<and> ms_holder t = MoFree \<and> mo_closed (ms_m t) \<and> ms_broadcaster t = None \<and>
    list_all winding es"
proof -
  have m: "mo_instance (ms_m s) = Some p" "mo_closed (ms_m s)" using inv h by (auto simp: msys_inv_def holder_inv_def)
  have l: "p < length (ms_pollers s)" using inv m by (auto simp: msys_inv_def pollers_inv_def)
  have "ps_closers (ms_pollers s ! p) 0 \<noteq> ClIdle"
    using inv h m by (auto simp: msys_inv_def holder_inv_def pollers_inv_def)
  from instance_winds_down [OF inv m(1) this b] obtain es y where
    y: "run monitor_step s (map (MoPoller p) es) = Some (set_poller p y s)" "ps_closers y 0 = ClDone" by blast
  let ?u = "set_instance None ((set_poller p y s)\<lparr>ms_holder := MoCloseRest\<rparr>)"
  have u: "run monitor_step s (map (MoPoller p) es @ [MoClosed]) = Some ?u"
    using y h l by (simp add: run_append Monitor_Closed_def set_poller_def)
  have iu: "msys_inv ?u" using monitor_machine.run_inv [OF inv u] .
  have "ms_holder ?u = MoCloseRest" by (simp add: set_instance_def)
  from rest_closes [OF iu this] obtain t where t: "monitor_step MoRest ?u = Some t" "ms_holder t = MoFree"
    "mo_closed (ms_m t)" "ms_broadcaster t = None" by blast
  from u t(1) have "run monitor_step s ((map (MoPoller p) es @ [MoClosed]) @ [MoRest]) = Some t" by (simp only: run_append) simp
  moreover have "list_all winding ((map (MoPoller p) es @ [MoClosed]) @ [MoRest])" by simp
  ultimately show ?thesis using t by blast
qed

text \<open>
  Whoever holds the mutex gives it back, unless a listener holds up a Broadcast: Stop and Close wait for a
  poller that winds down, and the goroutine of the poller takes the pulse of Update.
\<close>

lemma pulse_taken:
  assumes inv: "msys_inv s" and p: "mo_instance (ms_m s) = Some p" "\<not> mo_closed (ms_m s)" "may_close (ms_holder s)"
  shows "\<exists>es x. run monitor_step s es = Some (set_poller p x s) \<and> list_all winding es \<and> ps_poll_caller x = None"
proof (cases "ps_poll_caller (ms_pollers s ! p)")
  case None
  have "set_poller p (ms_pollers s ! p) s = s" by (simp add: set_poller_def)
  with None show ?thesis by (intro exI [of _ "[]"]) (auto intro!: exI [of _ "ms_pollers s ! p"])
next
  case (Some c)
  have l: "p < length (ms_pollers s)" "poller_ok (ms_pollers s ! p)" using inv p(1) by (auto simp: msys_inv_def pollers_inv_def)
  have "ps_closers (ms_pollers s ! p) 0 = ClIdle" using inv p by (auto simp: msys_inv_def holder_inv_def)
  with l(2) have "\<not> po_closed (ps_poller (ms_pollers s ! p))" "psys_inv (ms_pollers s ! p)"
    using poller_machine.reach_inv by (auto simp: poller_ok_def)
  then have "ps_run (ms_pollers s ! p)" by (simp add: psys_inv_def inv_channels_def)
  with Some obtain x where x: "poller_step PoRunPulse (ms_pollers s ! p) = Some x" "ps_poll_caller x = None"
    by (auto simp: run_pulse_def spawn_invoke_def)
  then have "run monitor_step s [MoPoller p PoRunPulse] = Some (set_poller p x s)"
    using l(1) by (simp add: monitor_poller_def)
  with x(2) show ?thesis by (intro exI [of _ "[MoPoller p PoRunPulse]"]) auto
qed

lemma holder_frees:
  assumes inv: "msys_inv s" and b: "ms_broadcaster s = None"
  shows "\<exists>es t. run monitor_step s es = Some t \<and> ms_holder t = MoFree \<and> ms_broadcaster t = None \<and>
    mo_closed (ms_m t) = mo_closed (ms_m s) \<and> list_all winding es"
proof (cases "ms_holder s")
  case MoFree
  with b show ?thesis by (intro exI [of _ "[]"]) simp
next
  case (MoStopping p)
  then have m: "mo_instance (ms_m s) = Some p" "\<not> mo_closed (ms_m s)" "p < length (ms_pollers s)"
    and i: "ps_closers (ms_pollers s ! p) 0 \<noteq> ClIdle"
    using inv by (auto simp: msys_inv_def holder_inv_def pollers_inv_def)
  from instance_winds_down [OF inv m(1) i b] obtain es y where
    y: "run monitor_step s (map (MoPoller p) es) = Some (set_poller p y s)" "ps_closers y 0 = ClDone" by blast
  let ?t = "set_instance None ((set_poller p y s)\<lparr>ms_holder := MoFree\<rparr>)"
  have "run monitor_step s (map (MoPoller p) es @ [MoClosed]) = Some ?t"
    using y MoStopping m(3) by (simp add: run_append Monitor_Closed_def set_poller_def)
  moreover have "list_all winding (map (MoPoller p) es @ [MoClosed])" by simp
  ultimately show ?thesis using b by (fastforce simp: set_instance_def set_poller_def)
next
  case (MoClosing p)
  moreover have "mo_closed (ms_m s)" using MoClosing inv by (simp add: msys_inv_def holder_inv_def)
  ultimately show ?thesis using closing_ends [OF inv MoClosing b] by auto
next
  case MoCloseRest
  moreover have "mo_closed (ms_m s)" using MoCloseRest inv by (simp add: msys_inv_def holder_inv_def)
  moreover obtain t where "monitor_step MoRest s = Some t" "ms_holder t = MoFree" "mo_closed (ms_m t)" "ms_broadcaster t = None"
    using rest_closes [OF inv MoCloseRest] by blast
  ultimately show ?thesis by (intro exI [of _ "[MoRest]"]) auto
next
  case (MoUpdating p)
  then have m: "mo_instance (ms_m s) = Some p" "\<not> mo_closed (ms_m s)" "p < length (ms_pollers s)" "may_close (ms_holder s)"
    using inv by (auto simp: msys_inv_def holder_inv_def pollers_inv_def)
  from pulse_taken [OF inv m(1,2,4)] obtain es x where
    x: "run monitor_step s es = Some (set_poller p x s)" "list_all winding es" "ps_poll_caller x = None" by blast
  let ?t = "(set_poller p x s)\<lparr>ms_holder := MoFree\<rparr>"
  have "run monitor_step s (es @ [MoUpdated]) = Some ?t"
    using x m(3) MoUpdating by (simp add: run_append Monitor_Updated_def set_poller_def)
  with x(2) b show ?thesis by (intro exI [of _ "es @ [MoUpdated]"]) (auto simp: set_poller_def)
qed

text \<open>What has been shut when Close has returned.\<close>

lemma closed_complete:
  assumes inv: "msys_inv s" and c: "mo_closed (ms_m s)" "ms_holder s = MoFree"
  shows "mo_instance (ms_m s) = None" "sk_closed (ms_sink s)" "bc_closed (br_bc (ms_bc s))"
    "list_all bch_closed (br_chans (ms_bc s))" "list_all (\<lambda>x. ps_source_closed x = 1 \<and> \<not> polling x j) (ms_pollers s)"
proof -
  show e: "mo_instance (ms_m s) = None" "sk_closed (ms_sink s)" "bc_closed (br_bc (ms_bc s))"
    using inv c by (auto simp: msys_inv_def end_inv_def)
  have "listed_inv (br_bc (ms_bc s)) (br_chans (ms_bc s))"
    using inv broadcast_machine.reach_inv by (auto simp: msys_inv_def bc_inv_def bsys_inv_def)
  with e(3) have "\<not> open_in i (br_chans (ms_bc s))" for i by (simp add: listed_inv_def)
  then show "list_all bch_closed (br_chans (ms_bc s))" by (simp add: open_in_def list_all_length)
  show "list_all (\<lambda>x. ps_source_closed x = 1 \<and> \<not> polling x j) (ms_pollers s)"
    using inv e(1) closed_not_polling by (auto simp: msys_inv_def pollers_inv_def list_all_length)
qed

section \<open>Properties\<close>

lemma start_config_workers:
  "ec_Limiting (start_config m) \<longrightarrow> 0 < ec_Limit (start_config m)"
  "ec_Caching (start_config m) \<longrightarrow> 0 < ec_CacheDuration (start_config m)"
  by (simp_all add: start_config_def Let_def)

lemma monitor_reach: "run monitor_step (msys_new iv to ca li) es = Some s \<Longrightarrow> reach monitor_step msys_init s"
  by (rule run_reach) (auto simp: msys_init_def)

lemmas monitor_run_simps = msys_new_def Monitor_New_def Monitor_Start_def Monitor_Stop_def Monitor_Close_def Monitor_Closed_def
  Monitor_CloseRest_def Monitor_Update_def Monitor_Updated_def instance_Close_def set_instance_def set_poller_def
  monitor_poller_def monitor_broadcast_def monitor_bc_def set_bc_def psys0_def Poller_New_def poller_defs
  bsys0_def broadcaster_zero_def broadcast_step_def bc_Listen_def bc_Close_def bc_Broadcast_def bc_deliver_def sent_to_def
  bc_free_def set_listeners_def close_chan_def

text \<open>
  C20. However often the monitor is stopped and started again, at most one poll is under way in
  the whole monitor: two invocations that poll are the same invocation of the same poller, the
  current one. Every other poller has closed its source, once, so its client is closed.
\<close>

theorem monitor_polls_once:
  assumes "reach monitor_step msys_init s" "p < length (ms_pollers s)" "q < length (ms_pollers s)"
    "polling (ms_pollers s ! p) j" "polling (ms_pollers s ! q) k"
  shows "p = q \<and> j = k \<and> mo_instance (ms_m s) = Some p \<and>
    list_all (\<lambda>i. i = p \<or> ps_source_closed (ms_pollers s ! i) = 1) [0..<length (ms_pollers s)]"
proof -
  from assms(1) have "msys_inv s" by (rule monitor_machine.reach_inv)
  then have ok: "poller_ok (ms_pollers s ! i)" and old: "Some i \<noteq> mo_instance (ms_m s) \<Longrightarrow> ps_closers (ms_pollers s ! i) 0 = ClDone"
    if "i < length (ms_pollers s)" for i
    using that by (auto simp: msys_inv_def pollers_inv_def)
  have i: "mo_instance (ms_m s) = Some i" if "i < length (ms_pollers s)" "polling (ms_pollers s ! i) l" for i l
    using closed_not_polling(2) [OF ok [OF that(1)] old [OF that(1)]] that(2) by metis
  from i [OF assms(2,4)] i [OF assms(3,5)] have "p = q" by simp
  moreover have "list_all (\<lambda>i. i = p \<or> ps_source_closed (ms_pollers s ! i) = 1) [0..<length (ms_pollers s)]"
    using i [OF assms(2,4)] closed_not_polling(1) [OF ok old] by (fastforce simp: list_all_iff)
  ultimately show ?thesis using polling_unique [OF ok [OF assms(2)]] assms(4,5) i [OF assms(2,4)] by blast
qed

definition restart_events :: "monitor_event list" where
  "restart_events = [MoStart, MoPoller 0 PoRunTick, MoPoller 0 (PoStart 0), MoStop, MoPoller 0 (PoReturn 0), MoPoller 0 (PoFinish 0),
     MoPoller 0 (PoBroadcast 0), MoPoller 0 (PoCloseWake 0), MoClosed, MoStart, MoUpdate, MoPoller 1 PoRunPulse, MoUpdated,
     MoPoller 1 (PoStart 0)]"

theorem monitor_polls_once_witness:
  "\<exists>s. run monitor_step (msys_new 5 5 5 1) restart_events = Some s \<and> polling (ms_pollers s ! 1) 0 \<and>
     mo_instance (ms_m s) = Some 1 \<and> ps_source_closed (ms_pollers s ! 0) = 1"
proof -
  obtain s where r: "run monitor_step (msys_new 5 5 5 1) restart_events = Some s"
    and f: "length (ms_pollers s) = 2" "polling (ms_pollers s ! 1) 0"
    by (simp add: restart_events_def monitor_run_simps polling_def)
  from monitor_polls_once [OF monitor_reach [OF r] _ _ f(2) f(2)] f r show ?thesis by (auto simp: list_all_iff)
qed

text \<open>
  C21. When Close has returned, everything is closed: there is no current poller, no poller polls,
  each has closed its client exactly once, sink and broadcaster are closed and so is every
  channel that Listen ever returned; and Start refuses with ErrClosed.
\<close>

theorem monitor_close_complete:
  assumes "reach monitor_step msys_init s" "mo_closed (ms_m s)" "ms_holder s = MoFree"
  shows "mo_instance (ms_m s) = None \<and> sk_closed (ms_sink s) \<and> list_all bch_closed (br_chans (ms_bc s)) \<and>
    list_all (\<lambda>x. ps_source_closed x = 1 \<and> \<not> polling x j) (ms_pollers s) \<and>
    Monitor_Start s = Some (Some ErrMonitorClosed, s)"
  using closed_complete [OF monitor_machine.reach_inv [OF assms(1)] assms(2,3)] assms(2,3)
  by (simp add: Monitor_Start_def)

theorem monitor_close_complete_witness:
  "\<exists>s. run monitor_step (msys_new 5 5 0 0) [MoChannels (BrListen 4), MoStart, MoClose, MoClosed, MoRest] = Some s \<and>
     bch_closed (br_chans (ms_bc s) ! 0) \<and> Monitor_Start s = Some (Some ErrMonitorClosed, s)"
proof -
  obtain s where r: "run monitor_step (msys_new 5 5 0 0) [MoChannels (BrListen 4), MoStart, MoClose, MoClosed, MoRest] = Some s"
    and f: "mo_closed (ms_m s)" "ms_holder s = MoFree" "length (br_chans (ms_bc s)) = 1"
    by (simp add: monitor_run_simps)
  from monitor_close_complete [OF monitor_reach [OF r] f(1,2)] f(3) r show ?thesis by (auto simp: list_all_length)
qed

text \<open>
  Close gets through: once the poll that it waits for is not held up inside Broadcast by a
  listener with a full channel, the poller winds down, and the broadcaster's mutex is free when
  Close comes to it, so that Close returns with everything closed.
\<close>

theorem monitor_close_ends:
  assumes "reach monitor_step msys_init s" "ms_holder s = MoClosing p" "ms_broadcaster s = None"
  shows "\<exists>es t. run monitor_step s es = Some t \<and> ms_holder t = MoFree \<and> mo_closed (ms_m t)"
  using closing_ends [OF monitor_machine.reach_inv [OF assms(1)] assms(2,3)] by blast

theorem monitor_close_ends_witness:
  "\<exists>s es t. run monitor_step (msys_new 5 5 5 1) [MoStart, MoPoller 0 PoRunTick, MoPoller 0 (PoStart 0), MoClose] = Some s \<and>
     Monitor_Closed s = None \<and> run monitor_step s es = Some t \<and> ms_holder t = MoFree"
proof -
  obtain s where r: "run monitor_step (msys_new 5 5 5 1) [MoStart, MoPoller 0 PoRunTick, MoPoller 0 (PoStart 0), MoClose] = Some s"
    and f: "ms_holder s = MoClosing 0" "ms_broadcaster s = None" "Monitor_Closed s = None"
    by (simp add: monitor_run_simps)
  from monitor_close_ends [OF monitor_reach [OF r] f(1,2)] r f(3) show ?thesis by blast
qed

end
