(* ===== verification/DomainMonitor.thy ===== *)
theory DomainMonitor imports Monitor begin

text \<open>
  The domain monitor (dfsrconfig/domainmonitor.go): it polls the directory for the configuration of
  the domain, keeps the last good one in a sink and broadcasts every result.

  Its methods are those of type Monitor with another source: Start makes a client of the directory and
  may have to look up the domain; a poll updates the sink and broadcasts. The broadcaster is that of theory
  Broadcaster with channels of 16 and without Unlisten, where the number that is broadcast is that of the poll
  whose DomainUpdate is sent. The refinement below shows that the machine does nothing that the machine of theory Monitor
  cannot do, so what was shown there holds here. The directory client (making it, the lookup of the domain, and the
  configuration it returns) is a parameter of the events.
\<close>

section \<open>State\<close>

record domain_monitor =
  dm_domain :: string
  dm_interval :: duration
  dm_timeout :: duration
  dm_instance :: "nat option"
  dm_closed :: bool

type_synonym domain_update = "Domain \<times> time \<times> gerr option"

text \<open>
  \<open>ds_clients\<close> has the directory client of each poller's source and \<open>ds_opened\<close> counts all clients made; \<open>ds_polls\<close>
  has every poll that got an answer, with its invocation, and \<open>ds_sent\<close> those that have called Broadcast.
\<close>

record dmsys =
  ds_m :: domain_monitor
  ds_holder :: mo_holder
  ds_pollers :: "psys list"
  ds_clients :: "nat list"
  ds_opened :: nat
  ds_sink :: "Domain sink_sys"
  ds_bc :: bsys
  ds_broadcaster :: "(nat \<times> nat) option"
  ds_polls :: "((nat \<times> nat) \<times> domain_update) list"
  ds_sent :: "(nat \<times> nat) list"

definition NewDomainMonitor :: "string \<Rightarrow> duration \<Rightarrow> duration \<Rightarrow> domain_monitor" where
  "NewDomainMonitor domain interval timeout =
     \<lparr>dm_domain = domain, dm_interval = interval, dm_timeout = timeout, dm_instance = None, dm_closed = False\<rparr>"

definition dmsys_new :: "string \<Rightarrow> duration \<Rightarrow> duration \<Rightarrow> dmsys" where
  "dmsys_new domain interval timeout =
     \<lparr>ds_m = NewDomainMonitor domain interval timeout, ds_holder = MoFree, ds_pollers = [], ds_clients = [], ds_opened = 0,
      ds_sink = \<lparr>ss_sink = Sink_zero, ss_waits = (\<lambda>_. None)\<rparr>, ds_bc = bsys0, ds_broadcaster = None, ds_polls = [], ds_sent = []\<rparr>"

definition dmsys_init :: "dmsys \<Rightarrow> bool" where
  "dmsys_init s \<longleftrightarrow> (\<exists>domain interval timeout. s = dmsys_new domain interval timeout)"

section \<open>Start, Stop, Close and Update\<close>

definition dm_set_instance :: "nat option \<Rightarrow> dmsys \<Rightarrow> dmsys" where
  "dm_set_instance p s = s\<lparr>ds_m := (ds_m s)\<lparr>dm_instance := p\<rparr>\<rparr>"

definition new_instance :: "nat \<Rightarrow> dmsys \<Rightarrow> dmsys" where
  "new_instance client s =
     dm_set_instance (Some (length (ds_pollers s))) (s\<lparr>ds_pollers := ds_pollers s @ [psys0], ds_clients := ds_clients s @ [client]\<rparr>)"

text \<open>The error of adsi.NewClient, and the result of dnc.\<close>

definition DomainMonitor_Start :: "gerr option \<Rightarrow> string \<times> gerr option \<Rightarrow> dmsys \<Rightarrow> (gerr option \<times> dmsys) option" where
  "DomainMonitor_Start client_err dnc s =
     (if ds_holder s = MoFree
      then Some (if dm_closed (ds_m s) then (Some ErrConfigClosed, s)
                 else if dm_instance (ds_m s) \<noteq> None then (None, s)
                 else (case client_err of
                         Some e \<Rightarrow> (Some e, s)
                       | None \<Rightarrow>
                           (let client = ds_opened s; s = s\<lparr>ds_opened := Suc client\<rparr>
                            in if dm_domain (ds_m s) = [] then
                                 (let s = s\<lparr>ds_m := (ds_m s)\<lparr>dm_domain := fst dnc\<rparr>\<rparr>
                                  in if snd dnc \<noteq> None then (snd dnc, s)
                                     else if dm_domain (ds_m s) = [] then (Some ErrDomainLookupFailed, s)
                                     else (None, new_instance client s))
                               else (None, new_instance client s))))
      else None)"

definition dm_set_poller :: "nat \<Rightarrow> psys \<Rightarrow> dmsys \<Rightarrow> dmsys" where
  "dm_set_poller p x s = s\<lparr>ds_pollers := (ds_pollers s)[p := x]\<rparr>"

definition dm_instance_Close :: "nat \<Rightarrow> mo_holder \<Rightarrow> dmsys \<Rightarrow> dmsys option" where
  "dm_instance_Close p h s =
     map_option (\<lambda>x. dm_set_poller p x (s\<lparr>ds_holder := h\<rparr>)) (poller_step (PoClose 0) (ds_pollers s ! p))"

definition DomainMonitor_Stop :: "dmsys \<Rightarrow> dmsys option" where
  "DomainMonitor_Stop s =
     (if ds_holder s = MoFree
      then (case dm_instance (ds_m s) of None \<Rightarrow> Some s | Some p \<Rightarrow> dm_instance_Close p (MoStopping p) s)
      else None)"

definition DomainMonitor_Close :: "dmsys \<Rightarrow> dmsys option" where
  "DomainMonitor_Close s =
     (if ds_holder s = MoFree
      then if dm_closed (ds_m s) then Some s
           else (let s1 = s\<lparr>ds_m := (ds_m s)\<lparr>dm_closed := True\<rparr>\<rparr>
                 in case dm_instance (ds_m s) of
                      None \<Rightarrow> Some (s1\<lparr>ds_holder := MoCloseRest\<rparr>)
                    | Some p \<Rightarrow> dm_instance_Close p (MoClosing p) s1)
      else None)"

text \<open>The poller's Close has returned.\<close>

definition DomainMonitor_Closed :: "dmsys \<Rightarrow> dmsys option" where
  "DomainMonitor_Closed s =
     (case ds_holder s of
        MoStopping p \<Rightarrow>
          (if ps_closers (ds_pollers s ! p) 0 = ClDone then Some (dm_set_instance None (s\<lparr>ds_holder := MoFree\<rparr>)) else None)
      | MoClosing p \<Rightarrow>
          (if ps_closers (ds_pollers s ! p) 0 = ClDone then Some (dm_set_instance None (s\<lparr>ds_holder := MoCloseRest\<rparr>)) else None)
      | _ \<Rightarrow> None)"

definition dbc_Close :: "bsys \<Rightarrow> bsys option" where
  "dbc_Close b = broadcast_step BrClose b"

definition DomainMonitor_CloseRest :: "dmsys \<Rightarrow> dmsys option" where
  "DomainMonitor_CloseRest s =
     (if ds_holder s = MoCloseRest
      then (case sink_step SkClose (ds_sink s) of
              Some k \<Rightarrow> map_option (\<lambda>b. s\<lparr>ds_holder := MoFree, ds_sink := k, ds_bc := b\<rparr>) (dbc_Close (ds_bc s))
            | None \<Rightarrow> None)
      else None)"

definition DomainMonitor_Update :: "dmsys \<Rightarrow> dmsys option" where
  "DomainMonitor_Update s =
     (if ds_holder s = MoFree
      then (case dm_instance (ds_m s) of
              Some p \<Rightarrow>
                (if \<not> dm_closed (ds_m s)
                 then map_option (\<lambda>x. dm_set_poller p x (s\<lparr>ds_holder := MoUpdating p\<rparr>)) (poller_step (PoPoll 0) (ds_pollers s ! p))
                 else Some s)
            | None \<Rightarrow> Some s)
      else None)"

definition DomainMonitor_Updated :: "dmsys \<Rightarrow> dmsys option" where
  "DomainMonitor_Updated s =
     (case ds_holder s of
        MoUpdating p \<Rightarrow> (if ps_poll_caller (ds_pollers s ! p) = None then Some (s\<lparr>ds_holder := MoFree\<rparr>) else None)
      | _ \<Rightarrow> None)"

section \<open>Value, Listen and WaitReady\<close>

text \<open>The assertion of the type of a nil interface panics.\<close>

definition DomainMonitor_Value :: "dmsys \<Rightarrow> (Domain \<times> time \<times> gerr option) outcome" where
  "DomainMonitor_Value s =
     (case Sink_Value (ss_sink (ds_sink s)) of
        (None, _, _) \<Rightarrow> Panic ''interface conversion: interface is nil, not *dfsr.Domain''
      | (Some cfg, timestamp, err) \<Rightarrow> Ret (cfg, timestamp, err))"

definition dm_set_bc :: "nat \<times> nat \<Rightarrow> bsys \<Rightarrow> dmsys \<Rightarrow> dmsys" where
  "dm_set_bc who b s = s\<lparr>ds_bc := b, ds_broadcaster := (if br_loop b = None then None else Some who)\<rparr>"

definition dm_current :: "dmsys \<Rightarrow> nat \<times> nat" where
  "dm_current s = (case ds_broadcaster s of Some w \<Rightarrow> w | None \<Rightarrow> (0, 0))"

definition dbc_Listen :: "bsys \<Rightarrow> bsys option" where
  [simp]: "dbc_Listen b = broadcast_step (BrListen 16) b"

definition DomainMonitor_Listen :: "dmsys \<Rightarrow> dmsys option" where
  "DomainMonitor_Listen s = map_option (\<lambda>b. dm_set_bc (dm_current s) b s) (dbc_Listen (ds_bc s))"

definition DomainMonitor_WaitReady :: "Domain sink_event \<Rightarrow> dmsys \<Rightarrow> dmsys option" where
  "DomainMonitor_WaitReady e s = map_option (\<lambda>k. s\<lparr>ds_sink := k\<rparr>) (sink_step e (ds_sink s))"

section \<open>A poll of the source\<close>

text \<open>The directory has answered, and the sink is updated.\<close>

definition domainSource_Poll :: "nat \<Rightarrow> nat \<Rightarrow> Domain \<Rightarrow> time \<Rightarrow> gerr option \<Rightarrow> dmsys \<Rightarrow> dmsys option" where
  "domainSource_Poll p j cfg timestamp err s =
     (if p < length (ds_pollers s) \<and> inv_at (ds_pollers s ! p) j InvPolling \<and> (p, j) \<notin> fst ` set (ds_polls s)
      then map_option (\<lambda>k. s\<lparr>ds_sink := k, ds_polls := ds_polls s @ [((p, j), (cfg, timestamp, err))]\<rparr>)
             (sink_step (SkUpdate (Some cfg) timestamp err) (ds_sink s))
      else None)"

text \<open>Then it calls Broadcast with the number of its update.\<close>

definition poll_number :: "nat \<times> nat \<Rightarrow> dmsys \<Rightarrow> nat" where
  "poll_number who s = length (takeWhile (\<lambda>x. fst x \<noteq> who) (ds_polls s))"

definition dbc_Broadcast :: "nat \<Rightarrow> nat \<Rightarrow> dmsys \<Rightarrow> dmsys option" where
  "dbc_Broadcast p j s =
     (if p < length (ds_pollers s) \<and> inv_at (ds_pollers s ! p) j InvPolling \<and> (p, j) \<in> fst ` set (ds_polls s) \<and> (p, j) \<notin> set (ds_sent s)
      then map_option (\<lambda>b. dm_set_bc (p, j) b (s\<lparr>ds_sent := (p, j) # ds_sent s\<rparr>))
             (broadcast_step (BrBroadcast (poll_number (p, j) s)) (ds_bc s))
      else None)"

text \<open>The goroutines of a poller; Poll returns after Broadcast.\<close>

definition dm_poller :: "nat \<Rightarrow> poller_event \<Rightarrow> dmsys \<Rightarrow> dmsys option" where
  "dm_poller p e s =
     (if p < length (ds_pollers s) \<and> internal e \<and>
         (\<forall>j. e = PoReturn j \<longrightarrow> (p, j) \<in> set (ds_sent s) \<and> ds_broadcaster s \<noteq> Some (p, j))
      then map_option (\<lambda>x. dm_set_poller p x s) (poller_step e (ds_pollers s ! p)) else None)"

definition dm_channels :: "broadcast_event \<Rightarrow> dmsys \<Rightarrow> dmsys option" where
  "dm_channels e s = map_option (\<lambda>b. dm_set_bc (dm_current s) b s) (broadcast_step e (ds_bc s))"

datatype dm_event =
    DmStart "gerr option" "string \<times> gerr option"
  | DmStop
  | DmClose
  | DmClosed
  | DmRest
  | DmUpdate
  | DmUpdated
  | DmPoller nat poller_event
  | DmPoll nat nat Domain time "gerr option"
  | DmBroadcast nat nat
  | DmDeliver
  | DmListen
  | DmReceive nat
  | DmWaitBegin nat
  | DmWaitEnd nat

fun dm_step :: "dm_event \<Rightarrow> dmsys \<Rightarrow> dmsys option" where
  "dm_step (DmStart c d) s = map_option snd (DomainMonitor_Start c d s)"
| "dm_step DmStop s = DomainMonitor_Stop s"
| "dm_step DmClose s = DomainMonitor_Close s"
| "dm_step DmClosed s = DomainMonitor_Closed s"
| "dm_step DmRest s = DomainMonitor_CloseRest s"
| "dm_step DmUpdate s = DomainMonitor_Update s"
| "dm_step DmUpdated s = DomainMonitor_Updated s"
| "dm_step (DmPoller p e) s = dm_poller p e s"
| "dm_step (DmPoll p j cfg t err) s = domainSource_Poll p j cfg t err s"
| "dm_step (DmBroadcast p j) s = dbc_Broadcast p j s"
| "dm_step DmDeliver s = dm_channels BrDeliver s"
| "dm_step DmListen s = DomainMonitor_Listen s"
| "dm_step (DmReceive c) s = dm_channels (BrReceive c) s"
| "dm_step (DmWaitBegin i) s = DomainMonitor_WaitReady (SkWaitBegin i) s"
| "dm_step (DmWaitEnd i) s = DomainMonitor_WaitReady (SkWaitEnd i) s"

section \<open>The machine of theory Monitor behind it\<close>

definition dm_monitor :: "domain_monitor \<Rightarrow> monitor" where
  "dm_monitor m = \<lparr>mo_interval = dm_interval m, mo_timeout = dm_timeout m, mo_cache = 0, mo_limit = 0,
     mo_instance = dm_instance m, mo_closed = dm_closed m\<rparr>"

definition dm_abs :: "dmsys \<Rightarrow> msys" where
  "dm_abs s = \<lparr>ms_m = dm_monitor (ds_m s), ms_holder = ds_holder s, ms_pollers = ds_pollers s,
     ms_configs = replicate (length (ds_pollers s)) (start_config (dm_monitor (ds_m s))),
     ms_sink = (if sk_closed (ss_sink (ds_sink s)) then Sink_Close Sink_zero else Sink_zero),
     ms_bc = ds_bc s, ms_broadcaster = ds_broadcaster s\<rparr>"

text \<open>The step of Monitor that a step stands for; none for those that only touch sink, domain or clients.\<close>

fun dm_abs_event :: "dm_event \<Rightarrow> dmsys \<Rightarrow> monitor_event option" where
  "dm_abs_event (DmStart c d) s =
     (case DomainMonitor_Start c d s of Some (None, _) \<Rightarrow> Some MoStart | _ \<Rightarrow> None)"
| "dm_abs_event DmStop s = Some MoStop"
| "dm_abs_event DmClose s = Some MoClose"
| "dm_abs_event DmClosed s = Some MoClosed"
| "dm_abs_event DmRest s = Some MoRest"
| "dm_abs_event DmUpdate s = Some MoUpdate"
| "dm_abs_event DmUpdated s = Some MoUpdated"
| "dm_abs_event (DmPoller p e) s = Some (MoPoller p e)"
| "dm_abs_event (DmPoll p j cfg t err) s = None"
| "dm_abs_event (DmBroadcast p j) s = Some (MoBroadcast p j (poll_number (p, j) s))"
| "dm_abs_event DmDeliver s = Some (MoChannels BrDeliver)"
| "dm_abs_event DmListen s = Some (MoChannels (BrListen 16))"
| "dm_abs_event (DmReceive c) s = Some (MoChannels (BrReceive c))"
| "dm_abs_event (DmWaitBegin i) s = None"
| "dm_abs_event (DmWaitEnd i) s = None"

lemma sink_closed_frame [simp]:
  "sk_closed (Sink_Close k)" "sk_closed (Sink_Update v t e k) = sk_closed k"
  by (simp_all add: Sink_Close_def Sink_Update_def Let_def signal_ready_def split: option.split)

lemma wait_closed_frame:
  assumes "sink_step e k = Some k'" "e = SkWaitBegin i \<or> e = SkWaitEnd i"
  shows "sk_closed (ss_sink k') = sk_closed (ss_sink k)" "Sink_Value (ss_sink k') = Sink_Value (ss_sink k)"
  using assms
  by (auto simp: Sink_WaitReady_begin_def Sink_Value_def split: option.splits wait.splits prod.splits if_splits)

lemmas dm_abs_defs = dm_abs_def dm_monitor_def dm_set_instance_def dm_set_poller_def dm_instance_Close_def dm_set_bc_def dm_current_def
lemmas dm_ops = DomainMonitor_Start_def DomainMonitor_Stop_def DomainMonitor_Close_def DomainMonitor_Closed_def
  DomainMonitor_CloseRest_def DomainMonitor_Update_def DomainMonitor_Updated_def DomainMonitor_Listen_def DomainMonitor_WaitReady_def
  domainSource_Poll_def dbc_Broadcast_def dbc_Close_def dm_poller_def dm_channels_def new_instance_def

lemma start_config_frame [simp]:
  "start_config (m\<lparr>mo_instance := i\<rparr>) = start_config m" "start_config (m\<lparr>mo_closed := c\<rparr>) = start_config m"
  by (simp_all add: start_config_def Let_def)

lemma start_config_dm: "start_config (dm_monitor m) = start_config (Monitor_New (dm_interval m) (dm_timeout m) 0 0)"
  by (simp add: start_config_def dm_monitor_def Monitor_New_def)

lemma refines_Start:
  assumes "DomainMonitor_Start c d s = Some (r, t)"
  shows "if r = None then monitor_step MoStart (dm_abs s) = Some (dm_abs t) else dm_abs t = dm_abs s"
proof (cases "dm_closed (ds_m s) \<or> dm_instance (ds_m s) \<noteq> None")
  case True
  with assms show ?thesis
    by (auto simp: DomainMonitor_Start_def Monitor_Start_def dm_abs_defs split: if_splits)
next
  case False
  have same: "dm_abs t = dm_abs s" if "r \<noteq> None"
    using that assms False
    by (auto simp: DomainMonitor_Start_def Let_def dm_abs_defs start_config_def split: if_splits option.splits)
  have new: "monitor_step MoStart (dm_abs s) = Some (dm_abs t)" if "r = None"
    using that assms False
    by (auto simp: DomainMonitor_Start_def Monitor_Start_def new_instance_def set_instance_def Let_def dm_abs_defs start_config_def
        replicate_append_same split: if_splits option.splits)
  show ?thesis using same new by simp
qed

lemma refines_bc:
  assumes "broadcast_step e (ds_bc s) = Some b" "outside e"
  shows "monitor_step (MoChannels e) (dm_abs s) = Some (dm_abs (dm_set_bc (dm_current s) b s))"
  using assms by (simp add: monitor_bc_def dm_abs_defs set_bc_def split: option.split)

lemma refines_step:
  assumes "dm_step e s = Some t"
  shows "case dm_abs_event e s of None \<Rightarrow> dm_abs t = dm_abs s | Some a \<Rightarrow> monitor_step a (dm_abs s) = Some (dm_abs t)"
proof (cases e)
  case (DmStart c d)
  with assms obtain r where "DomainMonitor_Start c d s = Some (r, t)" by auto
  with refines_Start [OF this] DmStart show ?thesis by (auto split: option.splits)
next
  case DmStop
  with assms show ?thesis
    by (auto simp: dm_ops Monitor_Stop_def instance_Close_def set_poller_def dm_abs_defs split: if_splits option.splits)
next
  case DmClose
  with assms show ?thesis
    by (auto simp: dm_ops Monitor_Close_def instance_Close_def set_poller_def dm_abs_defs start_config_def Let_def split: if_splits option.splits)
next
  case DmClosed
  with assms show ?thesis
    by (auto simp: dm_ops Monitor_Closed_def set_instance_def dm_abs_defs start_config_def Let_def split: if_splits mo_holder.splits)
next
  case DmRest
  have i: "Sink_Close (Sink_Close Sink_zero) = Sink_Close (Sink_zero :: unit sink)" by (subst Sink_Close_def) simp
  from DmRest assms i show ?thesis by (auto simp: dm_ops Monitor_CloseRest_def dm_abs_defs split: if_splits)
next
  case DmUpdate
  with assms show ?thesis
    by (auto simp: dm_ops Monitor_Update_def set_poller_def dm_abs_defs split: if_splits option.splits)
next
  case DmUpdated
  with assms show ?thesis
    by (auto simp: dm_ops Monitor_Updated_def dm_abs_defs split: if_splits mo_holder.splits)
next
  case (DmPoller p a)
  with assms show ?thesis by (auto simp: dm_ops monitor_poller_def set_poller_def dm_abs_defs split: if_splits)
next
  case (DmPoll p j cfg ti err)
  with assms show ?thesis by (auto simp: dm_ops dm_abs_defs split: if_splits)
next
  case (DmBroadcast p j)
  then obtain b where "p < length (ds_pollers s)" "inv_at (ds_pollers s ! p) j InvPolling"
    "broadcast_step (BrBroadcast (poll_number (p, j) s)) (ds_bc s) = Some b" "t = dm_set_bc (p, j) b (s\<lparr>ds_sent := (p, j) # ds_sent s\<rparr>)"
    using assms by (auto simp: dbc_Broadcast_def split: if_splits)
  with DmBroadcast show ?thesis by (simp add: monitor_broadcast_def set_bc_def dm_abs_def dm_set_bc_def)
next
  case DmDeliver
  with assms refines_bc show ?thesis by (auto simp: dm_channels_def)
next
  case DmListen
  with assms refines_bc show ?thesis by (auto simp: DomainMonitor_Listen_def)
next
  case (DmReceive c)
  with assms refines_bc show ?thesis by (auto simp: dm_channels_def)
next
  case (DmWaitBegin i)
  then obtain k where "sink_step (SkWaitBegin i) (ds_sink s) = Some k" "t = s\<lparr>ds_sink := k\<rparr>"
    using assms by (auto simp: DomainMonitor_WaitReady_def simp del: sink_step.simps)
  with DmWaitBegin wait_closed_frame(1) [OF this(1)] show ?thesis by (simp add: dm_abs_def)
next
  case (DmWaitEnd i)
  then obtain k where "sink_step (SkWaitEnd i) (ds_sink s) = Some k" "t = s\<lparr>ds_sink := k\<rparr>"
    using assms by (auto simp: DomainMonitor_WaitReady_def simp del: sink_step.simps)
  with DmWaitEnd wait_closed_frame(1) [OF this(1)] show ?thesis by (simp add: dm_abs_def)
qed

lemma refines_init: "dmsys_init s \<Longrightarrow> msys_init (dm_abs s)"
  by (auto simp: dmsys_init_def msys_init_def dmsys_new_def NewDomainMonitor_def msys_new_def Monitor_New_def dm_abs_def dm_monitor_def
      Sink_zero_def)

lemma refines_reach: "reach dm_step dmsys_init s \<Longrightarrow> reach monitor_step msys_init (dm_abs s)"
proof (induction rule: reach.induct)
  case (reach_init s)
  then show ?case by (intro reach.reach_init refines_init)
next
  case (reach_step s e t)
  from refines_step [OF reach_step(2)] reach_step(3) show ?case
    by (cases "dm_abs_event e s") (auto intro: reach.reach_step)
qed

section \<open>The invariant\<close>

definition value_inv :: "dmsys \<Rightarrow> bool" where
  "value_inv s \<longleftrightarrow> Sink_Value (ss_sink (ds_sink s)) = sink_contract (map snd (ds_polls s)) \<and>
     ready_inv (ds_sink s) \<and> (\<forall>i. ss_waits (ds_sink s) i = Some (Done None) \<longrightarrow> sk_value (ss_sink (ds_sink s)) \<noteq> None)"

definition shut_inv :: "dmsys \<Rightarrow> bool" where
  "shut_inv s \<longleftrightarrow> (sk_closed (ss_sink (ds_sink s)) \<longrightarrow> dm_closed (ds_m s) \<and> ds_holder s = MoFree)"

definition dm_inv :: "dmsys \<Rightarrow> bool" where
  "dm_inv s \<longleftrightarrow> msys_inv (dm_abs s) \<and> value_inv s \<and> shut_inv s"

lemma dm_abs_simps [simp]:
  "ms_holder (dm_abs s) = ds_holder s" "ms_pollers (dm_abs s) = ds_pollers s" "ms_bc (dm_abs s) = ds_bc s"
  "mo_closed (ms_m (dm_abs s)) = dm_closed (ds_m s)" "mo_instance (ms_m (dm_abs s)) = dm_instance (ds_m s)"
  "ms_broadcaster (dm_abs s) = ds_broadcaster s" "sk_closed (ms_sink (dm_abs s)) = sk_closed (ss_sink (ds_sink s))"
  by (simp_all add: dm_abs_def dm_monitor_def Sink_zero_def)

fun touches_sink :: "dm_event \<Rightarrow> bool" where
  "touches_sink DmRest = True"
| "touches_sink (DmPoll p j cfg t err) = True"
| "touches_sink (DmWaitBegin i) = True"
| "touches_sink (DmWaitEnd i) = True"
| "touches_sink _ = False"

lemma other_frame:
  assumes "dm_step e s = Some t" "\<not> touches_sink e"
  shows "ds_sink t = ds_sink s" "ds_polls t = ds_polls s"
    "dm_closed (ds_m s) \<Longrightarrow> ds_holder s = MoFree \<Longrightarrow> dm_instance (ds_m s) = None \<Longrightarrow> dm_closed (ds_m t) \<and> ds_holder t = MoFree"
  using assms
  by (cases e; auto simp: dm_ops Let_def dm_set_instance_def dm_set_poller_def dm_instance_Close_def dm_set_bc_def
      split: if_splits option.splits mo_holder.splits)+

lemma contract_step:
  assumes "Sink_Value k = sink_contract us" "\<not> sk_closed k"
  shows "Sink_Value (Sink_Update (Some v) t e k) = sink_contract (us @ [(v, t, e)])"
  using assms
  by (auto simp: successes_snoc sink_contract_def Sink_Value_def Sink_Update_def Let_def split: if_splits)

lemma Close_Value [simp]: "Sink_Value (Sink_Close k) = Sink_Value k" "sk_value (Sink_Close k) = sk_value k"
  by (simp_all add: Sink_Close_def Sink_Value_def)

lemma sink_event_keeps:
  assumes "sink_step_v e k = Some k'" "ready_inv k" "\<forall>i. ss_waits k i = Some (Done None) \<longrightarrow> sk_value (ss_sink k) \<noteq> None"
  shows "\<forall>i. ss_waits k' i = Some (Done None) \<longrightarrow> sk_value (ss_sink k') \<noteq> None"
  using assms
  by (cases e; auto simp: sink_step_v_def ready_inv_def has_reason_def Sink_WaitReady_begin_def Sink_WaitReady_end_def Sink_Update_def
      Sink_Close_def Let_def split: if_splits option.splits wait.splits prod.splits)

lemma no_poll_after_close:
  assumes "dm_inv s" "domainSource_Poll p j cfg ti err s = Some t"
  shows "\<not> sk_closed (ss_sink (ds_sink s))"
proof
  assume "sk_closed (ss_sink (ds_sink s))"
  with assms(1) have c: "mo_closed (ms_m (dm_abs s))" "ms_holder (dm_abs s) = MoFree" "msys_inv (dm_abs s)"
    by (simp_all add: dm_inv_def shut_inv_def)
  from closed_complete(5) [OF c(3,1,2), of j] assms(2) show False
    by (auto simp: domainSource_Poll_def list_all_length polling_def split: if_splits)
qed

lemma dm_inv_step:
  assumes inv: "dm_inv s" and t: "dm_step e s = Some t"
  shows "dm_inv t"
proof -
  have m: "msys_inv (dm_abs t)"
    using refines_step [OF t] inv msys_inv_step by (cases "dm_abs_event e s") (auto simp: dm_inv_def)
  have end_none: "dm_instance (ds_m s) = None" if "sk_closed (ss_sink (ds_sink s))"
    using inv that by (auto simp: dm_inv_def shut_inv_def msys_inv_def end_inv_def)
  consider "\<not> touches_sink e" | (rest) "e = DmRest" | (poll) p j cfg ti err where "e = DmPoll p j cfg ti err"
    | (wait) a i where "dm_step e s = DomainMonitor_WaitReady a s" "a = SkWaitBegin i \<or> a = SkWaitEnd i"
    by (cases e) auto
  then show ?thesis
  proof cases
    case 1
    note f = other_frame [OF t 1]
    from inv f(3) end_none have "shut_inv t" by (auto simp: dm_inv_def shut_inv_def f(1))
    with inv m f(1,2) show ?thesis by (simp add: dm_inv_def value_inv_def)
  next
    case rest
    with t obtain b where te: "t = s\<lparr>ds_holder := MoFree, ds_sink := (ds_sink s)\<lparr>ss_sink := Sink_Close (ss_sink (ds_sink s))\<rparr>, ds_bc := b\<rparr>"
      and h: "ds_holder s = MoCloseRest" by (auto simp: DomainMonitor_CloseRest_def split: if_splits)
    have "holder_inv (ms_m (dm_abs s)) (ms_holder (dm_abs s)) (ms_pollers (dm_abs s))"
      using inv by (simp only: dm_inv_def msys_inv_def)
    with h have "dm_closed (ds_m s)" by (simp add: holder_inv_def)
    moreover have "ready_inv ((ds_sink s)\<lparr>ss_sink := Sink_Close (ss_sink (ds_sink s))\<rparr>)"
      by (rule ready_inv_step [of "ds_sink s" SkClose]) (use inv in \<open>simp_all add: dm_inv_def value_inv_def sink_step_v_def\<close>)
    ultimately show ?thesis using inv m by (simp add: te dm_inv_def value_inv_def shut_inv_def)
  next
    case poll
    with t have po: "domainSource_Poll p j cfg ti err s = Some t" by simp
    from no_poll_after_close [OF inv po] have nc: "\<not> sk_closed (ss_sink (ds_sink s))" .
    let ?k = "(ds_sink s)\<lparr>ss_sink := Sink_Update (Some cfg) ti err (ss_sink (ds_sink s))\<rparr>"
    have te: "t = s\<lparr>ds_sink := ?k, ds_polls := ds_polls s @ [((p, j), (cfg, ti, err))]\<rparr>"
      using po by (auto simp: domainSource_Poll_def split: if_splits)
    have st: "sink_step_v (SkUpdate (Some cfg) ti err) (ds_sink s) = Some ?k" by (simp add: sink_step_v_def)
    have "ready_inv ?k" using inv ready_inv_step [OF _ st] by (simp add: dm_inv_def value_inv_def)
    moreover have "Sink_Value (ss_sink ?k) = sink_contract (map snd (ds_polls s) @ [(cfg, ti, err)])"
      using contract_step [OF _ nc] inv by (simp add: dm_inv_def value_inv_def)
    moreover have "\<forall>i. ss_waits ?k i = Some (Done None) \<longrightarrow> sk_value (ss_sink ?k) \<noteq> None"
      using inv by (intro sink_event_keeps [OF st]) (auto simp: dm_inv_def value_inv_def)
    ultimately show ?thesis using m nc by (simp add: te dm_inv_def value_inv_def shut_inv_def)
  next
    case wait
    with t have "DomainMonitor_WaitReady a s = Some t" by simp
    then obtain k where k: "sink_step a (ds_sink s) = Some k" "t = s\<lparr>ds_sink := k\<rparr>"
      unfolding DomainMonitor_WaitReady_def by blast
    then have st: "sink_step_v a (ds_sink s) = Some k" using wait(2) by (auto simp: sink_step_v_def simp del: sink_step.simps)
    note f = wait_closed_frame [OF k(1) wait(2)]
    have "ready_inv k" using inv ready_inv_step [OF _ st] by (simp add: dm_inv_def value_inv_def)
    moreover have "\<forall>i. ss_waits k i = Some (Done None) \<longrightarrow> sk_value (ss_sink k) \<noteq> None"
      using inv by (intro sink_event_keeps [OF st]) (auto simp: dm_inv_def value_inv_def)
    ultimately show ?thesis using inv m f by (simp add: k(2) dm_inv_def value_inv_def shut_inv_def)
  qed
qed

lemma dm_inv_init: "dmsys_init s \<Longrightarrow> dm_inv s"
proof -
  assume i: "dmsys_init s"
  have "msys_inv (dm_abs s)" by (rule msys_inv_init [OF refines_init [OF i]])
  moreover have "ready_inv (ds_sink s)" using i by (intro ready_inv_init) (auto simp: dmsys_init_def dmsys_new_def sink_init_def)
  ultimately show ?thesis using i
    by (auto simp: dm_inv_def value_inv_def shut_inv_def dmsys_init_def dmsys_new_def Sink_zero_def Sink_Value_def sink_contract_def)
qed

interpretation domain_machine: inductive_invariant dm_step dmsys_init dm_inv
  by unfold_locales (fact dm_inv_init, fact dm_inv_step)

section \<open>Properties\<close>

lemma dm_reach: "run dm_step (dmsys_new d iv to) es = Some s \<Longrightarrow> reach dm_step dmsys_init s"
  by (rule run_reach) (auto simp: dmsys_init_def)

text \<open>
  C38. The domain monitor is a monitor: every step of its machine is a step of the machine of theory Monitor on
  the same pollers, mutex and broadcaster, or touches only the sink, the domain name and the directory clients;
  so every reachable state stands for a reachable state of that machine. In particular at most one poll of
  the directory is under way, and when Close has returned, sink and channels are closed and every
  client that a poller used has been closed exactly once.
\<close>

theorem domain_refines_monitor:
  assumes "reach dm_step dmsys_init s"
  shows "reach monitor_step msys_init (dm_abs s) \<and>
    (\<forall>e t. dm_step e s = Some t \<longrightarrow>
       (case dm_abs_event e s of None \<Rightarrow> dm_abs t = dm_abs s | Some a \<Rightarrow> monitor_step a (dm_abs s) = Some (dm_abs t))) \<and>
    (dm_closed (ds_m s) \<and> ds_holder s = MoFree \<longrightarrow> sk_closed (ss_sink (ds_sink s)) \<and> list_all bch_closed (br_chans (ds_bc s)) \<and>
       list_all (\<lambda>x. ps_source_closed x = 1 \<and> \<not> polling x j) (ds_pollers s))"
proof -
  have i: "msys_inv (dm_abs s)" using domain_machine.reach_inv [OF assms] by (simp add: dm_inv_def)
  have "sk_closed (ss_sink (ds_sink s)) \<and> list_all bch_closed (br_chans (ds_bc s)) \<and>
       list_all (\<lambda>x. ps_source_closed x = 1 \<and> \<not> polling x j) (ds_pollers s)" if "dm_closed (ds_m s) \<and> ds_holder s = MoFree"
    using closed_complete(2,4) [OF i] closed_complete(5) [OF i, of j] that by simp
  with refines_reach [OF assms] refines_step show ?thesis by blast
qed

definition sample_domain :: "string \<Rightarrow> Domain" where
  "sample_domain d = \<lparr>d_NamingContext = \<lparr>nc_ID = 0, nc_DN = d, nc_Description = [], nc_Path = []\<rparr>, d_Groups = [], d_ConfigDuration = 0\<rparr>"

definition poll_events :: "dm_event list" where
  "poll_events = [DmListen, DmStart None (''DC=x'', None), DmWaitBegin 4, DmUpdate, DmPoller 0 PoRunPulse, DmUpdated, DmPoller 0 (PoStart 0),
     DmPoll 0 0 (sample_domain ''DC=x'') 7 None, DmBroadcast 0 0, DmDeliver, DmWaitEnd 4]"

lemmas dm_run_simps = dmsys_new_def NewDomainMonitor_def dm_ops Let_def dm_set_instance_def dm_set_poller_def dm_instance_Close_def
  dm_set_bc_def dm_current_def monitor_run_simps Sink_WaitReady_begin_def Sink_WaitReady_end_def Sink_Update_def Sink_zero_def wg_open_def
  signal_ready_def Sink_Close_def poll_number_def

theorem domain_refines_monitor_witness:
  "\<exists>s. run dm_step (dmsys_new [] 5 5) [DmListen, DmStart None (''DC=x'', None), DmClose, DmClosed, DmRest] = Some s \<and>
     list_all bch_closed (br_chans (ds_bc s)) \<and> ps_source_closed (ds_pollers s ! 0) = 1 \<and> reach monitor_step msys_init (dm_abs s)"
proof -
  obtain s where r: "run dm_step (dmsys_new [] 5 5) [DmListen, DmStart None (''DC=x'', None), DmClose, DmClosed, DmRest] = Some s"
    and f: "dm_closed (ds_m s)" "ds_holder s = MoFree" "length (ds_pollers s) = 1"
    by (simp add: dm_run_simps)
  from domain_refines_monitor [OF dm_reach [OF r]] f r show ?thesis by (auto simp: list_all_length)
qed



text \<open>
  C40. Who has waited may ask: once a call of WaitReady has returned nil, Value never panics, in this state or any
  later one. The service waits before it creates the monitor that calls Value in every round.
\<close>

theorem ready_value_defined:
  assumes "reach dm_step dmsys_init s" "ss_waits (ds_sink s) i = Some (Done None)" "run dm_step s es = Some t"
  shows "\<exists>cfg timestamp. DomainMonitor_Value t = Ret (cfg, timestamp, None)"
proof -
  have keeps: "run dm_step s es = Some t \<Longrightarrow> ss_waits (ds_sink s) i = Some (Done None) \<Longrightarrow> ss_waits (ds_sink t) i = Some (Done None)" for s es
  proof (induction es arbitrary: s)
    case (Cons e es)
    then obtain u where u: "dm_step e s = Some u" "run dm_step u es = Some t" by (auto split: option.splits)
    have "ss_waits (ds_sink u) i = Some (Done None)"
    proof (cases "touches_sink e")
      case False
      with other_frame(1) [OF u(1)] Cons.prems(2) show ?thesis by simp
    next
      case True
      with u(1) Cons.prems(2) show ?thesis
        by (cases e) (auto simp: dm_ops split: if_splits option.splits prod.splits wait.splits)
    qed
    with Cons.IH u(2) show ?case by blast
  qed simp
  have "dm_inv t" using domain_machine.run_inv [OF domain_machine.reach_inv [OF assms(1)] assms(3)] .
  with keeps [OF assms(3,2)] have "sk_value (ss_sink (ds_sink t)) \<noteq> None" "ready_inv (ds_sink t)"
    by (auto simp: dm_inv_def value_inv_def)
  then show ?thesis by (auto simp: DomainMonitor_Value_def Sink_Value_def ready_inv_def)
qed

theorem ready_value_defined_witness:
  "\<exists>s t cfg timestamp. run dm_step (dmsys_new [] 5 5) poll_events = Some s \<and> run dm_step s [DmPoller 0 (PoReturn 0), DmStop] = Some t \<and>
     DomainMonitor_Value t = Ret (cfg, timestamp, None)"
proof -
  obtain s t where r: "run dm_step (dmsys_new [] 5 5) poll_events = Some s" and f: "ss_waits (ds_sink s) 4 = Some (Done None)"
    and t: "run dm_step s [DmPoller 0 (PoReturn 0), DmStop] = Some t"
    by (simp add: poll_events_def dm_run_simps)
  from ready_value_defined [OF dm_reach [OF r] f t] r t show ?thesis by blast
qed

section \<open>What goes wrong\<close>

text \<open>When the lookup of the domain fails, the client that Start has made is neither kept nor closed.\<close>

lemma client_leaks:
  assumes "ds_holder s = MoFree" "\<not> dm_closed (ds_m s)" "dm_instance (ds_m s) = None" "dm_domain (ds_m s) = []"
  shows "\<exists>t. DomainMonitor_Start None ([], Some e) s = Some (Some e, t) \<and> ds_opened t = Suc (ds_opened s) \<and> ds_clients t = ds_clients s"
  using assms by (simp add: DomainMonitor_Start_def Let_def)

text \<open>
  Close is documented not to return until all goroutines of the monitor have exited; it does not wait for the
  goroutine of the poller's run, nor for invocations that have not started.
\<close>

lemma close_leaves_goroutines:
  "\<exists>s. run dm_step (dmsys_new [] 5 5) [DmStart None (''DC=x'', None), DmPoller 0 PoRunTick, DmClose, DmClosed, DmRest] = Some s \<and>
     dm_closed (ds_m s) \<and> ds_holder s = MoFree \<and> ps_run (ds_pollers s ! 0) \<and> inv_at (ds_pollers s ! 0) 0 InvStarting"
  by (simp add: dm_run_simps inv_at_def)

text \<open>The documentation of Value promises nil before the first data; it panics.\<close>

lemma early_value_panics: "\<exists>msg. DomainMonitor_Value (dmsys_new d iv tm) = Panic msg"
  by (simp add: DomainMonitor_Value_def dmsys_new_def Sink_Value_def Sink_zero_def)

end
