(* ===== verification/Consumer.thy ===== *)
theory Consumer imports Update begin

text \<open>
  The consumer of backlog updates that reports to StatHat
  (monitor/consumer/stathatconsumer/consumer.go).

  What the consumer receives is a list of updates, each with the backlogs that come over the channel
  that its Listen returns and whether that channel is closed in the end (theory Update says when
  it is). fmt.Sprintf, the conversion to float64 and the client of StatHat are parameters: a post is
  what is handed to that client.
\<close>

section \<open>The consumer\<close>

record consumer =
  cs_ezkey :: string
  cs_format :: string

definition Consumer_New :: "string \<Rightarrow> string \<Rightarrow> consumer outcome" where
  "Consumer_New ezkey fmt =
     (if ezkey = [] then Panic ''ezkey not provided to StatHat consumer''
      else Ret \<lparr>cs_ezkey = ezkey, cs_format = fmt\<rparr>)"

text \<open>strings.Index of a one-byte string, -1 if it is not there.\<close>

fun Index :: "string \<Rightarrow> char \<Rightarrow> int" where
  "Index [] c = -1"
| "Index (x # s) c = (if x = c then 0 else let i = Index s c in if i < 0 then -1 else i + 1)"

definition nonFQDN :: "string \<Rightarrow> string" where
  "nonFQDN fqdn =
     (let dot = Index fqdn CHR ''.''
      in if dot < 1 then ToUpper fqdn else ToUpper (take (nat dot) fqdn))"

definition reportable :: "Backlog \<Rightarrow> bool" where
  "reportable b =
     (if b_Err b \<noteq> None then False
      else if length (b_Folders b) = 0 then False
      else list_all (\<lambda>f. \<not> sint (fb_Backlog f) < 0) (b_Folders b))"

definition statName :: "(string \<Rightarrow> string list \<Rightarrow> string) \<Rightarrow> consumer \<Rightarrow> Backlog \<Rightarrow> string" where
  "statName Sprintf c b =
     Sprintf (cs_format c) [g_Name (b_Group b), b_From b, b_To b, nonFQDN (b_From b), nonFQDN (b_To b)]"

text \<open>Time.Unix: the seconds since 1970 of an instant.\<close>

definition Unix :: "time \<Rightarrow> int" where
  "Unix t = t div Second - 62135596800"

record 'f post =
  po_name :: string
  po_ezkey :: string
  po_value :: 'f
  po_time :: int

definition Consumer_send ::
  "(string \<Rightarrow> string list \<Rightarrow> string) \<Rightarrow> (64 word \<Rightarrow> 'f) \<Rightarrow> consumer \<Rightarrow> Backlog \<Rightarrow> 'f post list" where
  "Consumer_send Sprintf float64 c b =
     (let name = statName Sprintf c b
      in if name = [] then []
         else [\<lparr>po_name = name, po_ezkey = cs_ezkey c, po_value = float64 (Backlog_Sum b),
                po_time = Unix (Start (b_Call b))\<rparr>])"

text \<open>The inner loop over one update.\<close>

fun consume_update ::
  "(string \<Rightarrow> string list \<Rightarrow> string) \<Rightarrow> (64 word \<Rightarrow> 'f) \<Rightarrow> consumer \<Rightarrow> Backlog list \<Rightarrow> 'f post list" where
  "consume_update Sprintf float64 c [] = []"
| "consume_update Sprintf float64 c (b # bs) =
     (if \<not> reportable b then consume_update Sprintf float64 c bs
      else Consumer_send Sprintf float64 c b @ consume_update Sprintf float64 c bs)"

text \<open>
  The outer loop, until the channel of updates is closed: what is posted, and whether the goroutine
  returns. It stays in the inner loop of an update whose channel is never closed.
\<close>

fun Consumer_run ::
  "(string \<Rightarrow> string list \<Rightarrow> string) \<Rightarrow> (64 word \<Rightarrow> 'f) \<Rightarrow> consumer \<Rightarrow> (Backlog list \<times> bool) list \<Rightarrow> 'f post list \<times> bool" where
  "Consumer_run Sprintf float64 c [] = ([], True)"
| "Consumer_run Sprintf float64 c ((bs, ended) # updates) =
     (let posts = consume_update Sprintf float64 c bs
      in if ended then (case Consumer_run Sprintf float64 c updates of (rest, returns) \<Rightarrow> (posts @ rest, returns))
         else (posts, False))"

section \<open>Host names\<close>

lemma Index_none: "c \<notin> set s \<Longrightarrow> Index s c = -1"
  by (induction s) auto

lemma Index_found: "c \<notin> set s \<Longrightarrow> Index (s @ c # t) c = int (length s)"
  by (induction s) (auto simp: Let_def)

text \<open>The host name in upper case is what remains of a fully qualified name.\<close>

lemma nonFQDN_host:
  assumes "CHR ''.'' \<notin> set host" "host \<noteq> []"
  shows "nonFQDN (host @ CHR ''.'' # rest) = ToUpper host" "nonFQDN host = ToUpper host"
proof -
  have "1 \<le> int (length host)" using assms(2) by (cases host) simp_all
  then show "nonFQDN (host @ CHR ''.'' # rest) = ToUpper host"
    using assms(2) unfolding nonFQDN_def Index_found [OF assms(1)] by (simp add: Let_def)
  show "nonFQDN host = ToUpper host"
    unfolding nonFQDN_def Index_none [OF assms(1)] by simp
qed

section \<open>What is reported\<close>

lemma consume_filter:
  "consume_update Sprintf float64 c bs = concat (map (Consumer_send Sprintf float64 c) (filter reportable bs))"
  by (induction bs) simp_all

lemma run_all:
  "list_all snd us \<Longrightarrow>
   Consumer_run Sprintf float64 c us = (consume_update Sprintf float64 c (concat (map fst us)), True)"
  by (induction us) (auto simp: consume_filter Let_def)

lemma run_stuck:
  "list_all snd us \<Longrightarrow>
   Consumer_run Sprintf float64 c (us @ (bs, False) # later) =
   (consume_update Sprintf float64 c (concat (map fst us) @ bs), False)"
  by (induction us) (auto simp: consume_filter Let_def)

lemma reportable_total:
  "reportable b \<Longrightarrow> backlog_total b = (\<Sum>f \<leftarrow> b_Folders b. sint (fb_Backlog f))"
proof -
  assume "reportable b"
  then have "\<forall>f \<in> set (b_Folders b). max 0 (sint (fb_Backlog f)) = sint (fb_Backlog f)"
    by (auto simp: reportable_def list_all_iff split: if_splits)
  then show ?thesis unfolding backlog_total_def by (metis (mono_tags, lifting) map_eq_conv)
qed

section \<open>Properties\<close>


definition report0 :: "int \<Rightarrow> gerr option \<Rightarrow> Backlog" where
  "report0 n err = \<lparr>b_Group = group0 [], b_From = ''a.x'', b_To = ''b.x'',
     b_Folders = [\<lparr>fb_Folder = folder0, fb_Backlog = word_of_int n\<rparr>], b_Call = Call_zero, b_Err = err\<rparr>"


end
