(* ===== verification/Manifest.thy ===== *)
theory Manifest imports DfsrTypes begin

text \<open>
  Packages manifest and mfilter: the conflict and deleted manifest of a replicated folder, as a
  stream of resource records with statistics, filters and partner resolution, and the search
  for the manifest file of a path.

  The XML library is seen through the tokens that its decoder returns. DecodeElement turns the
  element of a resource into a record or fails; which of the two is part of the stream.
\<close>

section \<open>Resources and statistics\<close>

record Resource =
  re_Path :: string
  re_UID :: string
  re_GVSN :: string
  re_Attributes :: string
  re_NewName :: string
  re_Files :: goint
  re_Size :: "64 word"
  re_PartnerGUID :: uuid
  re_PartnerHost :: string
  re_PartnerDN :: string
  re_Type :: string
  re_Time :: time

definition Resource_zero :: Resource where
  "Resource_zero = \<lparr>re_Path = [], re_UID = [], re_GVSN = [], re_Attributes = [], re_NewName = [], re_Files = 0, re_Size = 0,
     re_PartnerGUID = 0, re_PartnerHost = [], re_PartnerDN = [], re_Type = [], re_Time = time_zero\<rparr>"

record Stats =
  st_Entries :: goint
  st_Size :: "64 word"
  st_First :: time
  st_Last :: time

definition Stats_zero :: Stats where
  "Stats_zero = \<lparr>st_Entries = 0, st_Size = 0, st_First = time_zero, st_Last = time_zero\<rparr>"

definition Stats_Add :: "Resource \<Rightarrow> Stats \<Rightarrow> Stats" where
  "Stats_Add r s =
     (let t = re_Time r;
          s = s\<lparr>st_Entries := st_Entries s + 1, st_Size := st_Size s + re_Size r\<rparr>
      in if st_Entries s = 1 then s\<lparr>st_First := t, st_Last := t\<rparr>
         else
           (let s = (if Before t (st_First s) then s\<lparr>st_First := t\<rparr> else s)
            in if After t (st_Last s) then s\<lparr>st_Last := t\<rparr> else s))"

section \<open>Filters\<close>

text \<open>The nil filter is None.\<close>

type_synonym Filter = "(Resource \<Rightarrow> bool) option"

definition Match :: "Filter \<Rightarrow> Resource \<Rightarrow> bool" where
  "Match f r = (case f of None \<Rightarrow> True | Some f \<Rightarrow> f r)"

fun selectNonNil :: "Filter list \<Rightarrow> Filter list" where
  "selectNonNil [] = []"
| "selectNonNil (f # fs) = (if f \<noteq> None then f # selectNonNil fs else selectNonNil fs)"

fun and_loop :: "Filter list \<Rightarrow> Resource \<Rightarrow> bool" where
  "and_loop [] r = True"
| "and_loop (f # fs) r = (if \<not> Match f r then False else and_loop fs r)"

fun or_loop :: "Filter list \<Rightarrow> Resource \<Rightarrow> bool" where
  "or_loop [] r = False"
| "or_loop (f # fs) r = (if Match f r then True else or_loop fs r)"

definition And :: "Filter list \<Rightarrow> Filter" where
  "And filters = (let filters = selectNonNil filters in if length filters = 0 then None else Some (and_loop filters))"

definition Or :: "Filter list \<Rightarrow> Filter" where
  "Or filters = (let filters = selectNonNil filters in if length filters = 0 then None else Some (or_loop filters))"

definition Not :: "Filter \<Rightarrow> Filter" where
  "Not f = Some (\<lambda>r. \<not> Match f r)"

definition PathRegexp :: "(string \<Rightarrow> bool) \<Rightarrow> Filter" where
  "PathRegexp MatchString = Some (\<lambda>r. MatchString (re_Path r))"

definition TypeRegexp :: "(string \<Rightarrow> bool) \<Rightarrow> Filter" where
  "TypeRegexp MatchString = Some (\<lambda>r. MatchString (re_Type r))"

definition filter_After :: "time \<Rightarrow> Filter" where
  "filter_After t = Some (\<lambda>r. After (re_Time r) t)"

definition filter_Before :: "time \<Rightarrow> Filter" where
  "filter_Before t = Some (\<lambda>r. Before (re_Time r) t)"

section \<open>Decoder\<close>

text \<open>
  A token is the start of an element with its local name, or something else. A resource element
  stands in the stream with the tokens inside it and what DecodeElement makes of it; after a
  failure the decoder goes on with the tokens it comes with.
\<close>

datatype token = TStart string | TOther

datatype item = Tok token | ResourceEl "token list" "Resource + gerr \<times> item list"

record Decoder =
  dc_stream :: "item list"
  dc_end :: gerr
  dc_count :: "64 word"

definition resourceElement :: string where "resourceElement = ''Resource''"

text \<open>Errorf is the wrapping of the error with the number of the element.\<close>

fun read_items :: "(64 word \<Rightarrow> gerr \<Rightarrow> gerr) \<Rightarrow> item list \<Rightarrow> gerr \<Rightarrow> 64 word \<Rightarrow> (Resource + gerr) \<times> item list \<times> 64 word" where
  "read_items Errorf [] e n = (Inr e, [], n)"
| "read_items Errorf (Tok t # rest) e n = read_items Errorf rest e n"
| "read_items Errorf (ResourceEl ts out # rest) e n =
     (let n = n + 1
      in case out of
           Inl r \<Rightarrow> (Inl r, rest, n)
         | Inr (err, rest') \<Rightarrow> (Inr (Errorf n err), rest', n))"

definition Decoder_Read :: "(64 word \<Rightarrow> gerr \<Rightarrow> gerr) \<Rightarrow> Decoder \<Rightarrow> (Resource + gerr) \<times> Decoder" where
  "Decoder_Read Errorf d =
     (case read_items Errorf (dc_stream d) (dc_end d) (dc_count d) of
        (result, rest, n) \<Rightarrow> (result, d\<lparr>dc_stream := rest, dc_count := n\<rparr>))"

text \<open>Count looks at the tokens only.\<close>

fun tokens :: "item list \<Rightarrow> token list" where
  "tokens [] = []"
| "tokens (Tok t # rest) = t # tokens rest"
| "tokens (ResourceEl ts out # rest) = TStart resourceElement # ts @ tokens rest"

fun count_tokens :: "token list \<Rightarrow> goint \<Rightarrow> goint" where
  "count_tokens [] n = n"
| "count_tokens (TStart name # ts) n = count_tokens ts (if name = resourceElement then n + 1 else n)"
| "count_tokens (TOther # ts) n = count_tokens ts n"

definition Decoder_Count :: "Decoder \<Rightarrow> goint \<times> gerr option" where
  "Decoder_Count d = (count_tokens (tokens (dc_stream d)) 0, if dc_end d = ErrEOF then None else Some (dc_end d))"

section \<open>Cursor\<close>

text \<open>A resolver is nil or a function from identifiers to member information.\<close>

type_synonym resolver = "(string \<Rightarrow> MemberInfo \<times> bool) option"

definition Resolver_Resolve :: "resolver \<Rightarrow> string \<Rightarrow> MemberInfo \<times> bool" where
  "Resolver_Resolve r guid = (case r of None \<Rightarrow> (MemberInfo_zero, False) | Some f \<Rightarrow> f guid)"

record Cursor =
  cu_reader :: bool
  cu_decoder :: Decoder
  cu_resolver :: resolver
  cu_filter :: Filter
  cu_total :: Stats
  cu_filtered :: Stats

definition NewDecoder :: "item list \<Rightarrow> gerr \<Rightarrow> Decoder" where
  "NewDecoder items e = \<lparr>dc_stream = items, dc_end = e, dc_count = 0\<rparr>"

definition NewAdvancedCursor :: "item list \<Rightarrow> gerr \<Rightarrow> resolver \<Rightarrow> Filter \<Rightarrow> Cursor" where
  "NewAdvancedCursor items e res flt = \<lparr>cu_reader = True, cu_decoder = NewDecoder items e, cu_resolver = res,
     cu_filter = flt, cu_total = Stats_zero, cu_filtered = Stats_zero\<rparr>"

definition NewCursor :: "item list \<Rightarrow> gerr \<Rightarrow> Cursor" where
  "NewCursor items e = NewAdvancedCursor items e None None"

definition ErrCursorClosed :: gerr where
  "ErrCursorClosed = ErrOther 10 ''the cursor has already been closed''"

definition resolve_partner :: "(uuid \<Rightarrow> string) \<Rightarrow> resolver \<Rightarrow> Resource \<Rightarrow> Resource" where
  "resolve_partner uuid_String res r =
     (case Resolver_Resolve res (uuid_String (re_PartnerGUID r)) of
        (partner, ok) \<Rightarrow>
          (if ok then r\<lparr>re_PartnerHost := co_Host (mi_Computer partner), re_PartnerDN := co_DN (mi_Computer partner)\<rparr> else r))"

definition process :: "Resource \<Rightarrow> Cursor \<Rightarrow> bool \<times> Cursor" where
  "process r c =
     (let matched = Match (cu_filter c) r;
          c = c\<lparr>cu_total := Stats_Add r (cu_total c)\<rparr>
      in (matched, if matched then c\<lparr>cu_filtered := Stats_Add r (cu_filtered c)\<rparr> else c))"

lemma read_items_less: "read_items F items e n = (Inl r, rest, m) \<Longrightarrow> length rest < length items"
  by (induction F items e n rule: read_items.induct) (auto simp: Let_def split: sum.splits)

lemma Decoder_Read_less: "Decoder_Read F d = (Inl r, d') \<Longrightarrow> length (dc_stream d') < length (dc_stream d)"
  by (auto simp: Decoder_Read_def split: prod.splits dest: read_items_less)

lemma process_decoder [simp]: "cu_decoder (snd (process r c)) = cu_decoder c"
  by (simp add: process_def Let_def)

text \<open>The loops of Read and End; each round takes something from the stream.\<close>

function read_loop :: "(64 word \<Rightarrow> gerr \<Rightarrow> gerr) \<Rightarrow> (uuid \<Rightarrow> string) \<Rightarrow> Cursor \<Rightarrow> (Resource + gerr) \<times> Cursor" where
  "read_loop F S c =
     (case Decoder_Read F (cu_decoder c) of
        (Inr err, d) \<Rightarrow> (Inr err, c\<lparr>cu_decoder := d\<rparr>)
      | (Inl r, d) \<Rightarrow>
          (let r = resolve_partner S (cu_resolver c) r;
               mc = process r (c\<lparr>cu_decoder := d\<rparr>)
           in if fst mc then (Inl r, snd mc) else read_loop F S (snd mc)))"
  by pat_completeness auto
termination
  by (relation "measure (\<lambda>(F, S, c). length (dc_stream (cu_decoder c)))") (auto dest: Decoder_Read_less [OF sym])

function end_loop :: "(64 word \<Rightarrow> gerr \<Rightarrow> gerr) \<Rightarrow> (uuid \<Rightarrow> string) \<Rightarrow> Cursor \<Rightarrow> gerr option \<times> Cursor" where
  "end_loop F S c =
     (case Decoder_Read F (cu_decoder c) of
        (Inr err, d) \<Rightarrow> (if err = ErrEOF then None else Some err, c\<lparr>cu_decoder := d\<rparr>)
      | (Inl r, d) \<Rightarrow> end_loop F S (snd (process (resolve_partner S (cu_resolver c) r) (c\<lparr>cu_decoder := d\<rparr>))))"
  by pat_completeness auto
termination
  by (relation "measure (\<lambda>(F, S, c). length (dc_stream (cu_decoder c)))") (auto dest: Decoder_Read_less [OF sym])

declare read_loop.simps [simp del] end_loop.simps [simp del]

definition Cursor_Read :: "(64 word \<Rightarrow> gerr \<Rightarrow> gerr) \<Rightarrow> (uuid \<Rightarrow> string) \<Rightarrow> Cursor \<Rightarrow> (Resource + gerr) \<times> Cursor" where
  "Cursor_Read F S c = (if \<not> cu_reader c then (Inr ErrCursorClosed, c) else read_loop F S c)"

definition Cursor_End :: "(64 word \<Rightarrow> gerr \<Rightarrow> gerr) \<Rightarrow> (uuid \<Rightarrow> string) \<Rightarrow> Cursor \<Rightarrow> gerr option \<times> Cursor" where
  "Cursor_End F S c = (if \<not> cu_reader c then (Some ErrCursorClosed, c) else end_loop F S c)"

definition Cursor_Stats :: "Cursor \<Rightarrow> Stats \<times> Stats" where
  "Cursor_Stats c = (cu_filtered c, cu_total c)"

definition Cursor_Close :: "gerr option \<Rightarrow> Cursor \<Rightarrow> gerr option \<times> Cursor" where
  "Cursor_Close err c = (if \<not> cu_reader c then (None, c) else (err, c\<lparr>cu_reader := False\<rparr>))"

section \<open>Manifest\<close>

text \<open>A source is what its Reader returns: the stream with the error that ends it, or an error.\<close>

type_synonym manifest = "(item list \<times> gerr) + gerr"

definition Manifest_AdvancedCursor :: "resolver \<Rightarrow> Filter \<Rightarrow> manifest \<Rightarrow> Cursor + gerr" where
  "Manifest_AdvancedCursor res flt m =
     (case m of Inr err \<Rightarrow> Inr err | Inl (items, e) \<Rightarrow> Inl (NewAdvancedCursor items e res flt))"

definition Manifest_Cursor :: "manifest \<Rightarrow> Cursor + gerr" where
  "Manifest_Cursor m = (case m of Inr err \<Rightarrow> Inr err | Inl (items, e) \<Rightarrow> Inl (NewCursor items e))"

definition Manifest_Stats :: "(64 word \<Rightarrow> gerr \<Rightarrow> gerr) \<Rightarrow> (uuid \<Rightarrow> string) \<Rightarrow> Filter \<Rightarrow> manifest \<Rightarrow> Stats \<times> Stats \<times> gerr option" where
  "Manifest_Stats F S flt m =
     (case Manifest_AdvancedCursor None flt m of
        Inr err \<Rightarrow> (Stats_zero, Stats_zero, Some err)
      | Inl cursor \<Rightarrow>
          (case Cursor_End F S cursor of
             (Some err, cursor) \<Rightarrow> (Stats_zero, Stats_zero, Some err)
           | (None, cursor) \<Rightarrow> (case Cursor_Stats cursor of (matching, all_stats) \<Rightarrow> (matching, all_stats, None))))"

text \<open>enumerate of the command line tool, with the resources that it prints.\<close>

function enumerate_loop :: "(64 word \<Rightarrow> gerr \<Rightarrow> gerr) \<Rightarrow> (uuid \<Rightarrow> string) \<Rightarrow> Cursor \<Rightarrow> Resource list \<times> gerr option \<times> Cursor" where
  "enumerate_loop F S c =
     (case Cursor_Read F S c of
        (Inr err, c) \<Rightarrow> ([], if err = ErrEOF then None else Some err, c)
      | (Inl r, c) \<Rightarrow> (case enumerate_loop F S c of (rs, err, c) \<Rightarrow> (r # rs, err, c)))"
  by pat_completeness auto

lemma read_loop_less: "read_loop F S c = (Inl r, c') \<Longrightarrow> length (dc_stream (cu_decoder c')) < length (dc_stream (cu_decoder c))"
proof (induction F S c rule: read_loop.induct)
  case (1 F S c)
  show ?case
  proof (cases "Decoder_Read F (cu_decoder c)")
    case (Pair x d)
    show ?thesis
    proof (cases x)
      case (Inl q)
      let ?r = "resolve_partner S (cu_resolver c) q"
      let ?mc = "process ?r (c\<lparr>cu_decoder := d\<rparr>)"
      have l: "length (dc_stream d) < length (dc_stream (cu_decoder c))" using Pair Inl by (auto dest: Decoder_Read_less)
      have d: "cu_decoder (snd ?mc) = d" by simp
      show ?thesis
      proof (cases "fst ?mc")
        case True
        with "1.prems" Pair Inl have "c' = snd ?mc" by (auto simp: read_loop.simps [of F S c] Let_def)
        with l d show ?thesis by simp
      next
        case False
        with "1.prems" Pair Inl have "read_loop F S (snd ?mc) = (Inl r, c')"
          by (simp add: read_loop.simps [of F S c] Let_def)
        from "1.IH" [OF Pair [symmetric] Inl refl refl False this] l d show ?thesis by simp
      qed
    qed (use "1.prems" Pair in \<open>simp add: read_loop.simps [of F S c]\<close>)
  qed
qed

termination enumerate_loop
  by (relation "measure (\<lambda>(F, S, c). length (dc_stream (cu_decoder c)))")
    (auto simp: Cursor_Read_def split: if_splits dest: read_loop_less [OF sym])

declare enumerate_loop.simps [simp del]

section \<open>Find\<close>

text \<open>
  A path is the list of its components. Abs, and whether a path names a regular file, are the
  file system's. On systems other than Windows the backslashes of StandardPath are part of a
  single component.
\<close>

definition StandardDir :: string where "StandardDir = ''DfsrPrivate''"
definition StandardFile :: string where "StandardFile = ''ConflictAndDeletedManifest.xml''"

definition StandardPath :: string where
  "StandardPath = [CHR 0x5C] @ StandardDir @ [CHR 0x5C] @ StandardFile"

definition EqualFold :: "string \<Rightarrow> string \<Rightarrow> bool" where
  "EqualFold s t \<longleftrightarrow> ToLower s = ToLower t"

definition isManifestPath :: "string list \<Rightarrow> bool" where
  "isManifestPath path = EqualFold (if path = [] then [] else last path) StandardFile"

definition isManifest :: "(string list \<Rightarrow> bool) \<Rightarrow> string list \<Rightarrow> bool" where
  "isManifest regular path = (if \<not> isManifestPath path then False else regular path)"

definition join_standard :: "bool \<Rightarrow> string list \<Rightarrow> string list" where
  "join_standard windows path = path @ (if windows then [StandardDir, StandardFile] else [StandardPath])"

lemma butlast_shorter: "butlast path \<noteq> path \<Longrightarrow> length path - Suc 0 < length path"
  by (cases path) auto

function find_loop :: "bool \<Rightarrow> (string list \<Rightarrow> bool) \<Rightarrow> string list \<Rightarrow> string list option \<Rightarrow> string list option" where
  "find_loop windows regular path prev =
     (if Some path = prev then None
      else if isManifest regular (path @ [StandardFile]) then Some (path @ [StandardFile])
      else if isManifest regular (join_standard windows path) then Some (join_standard windows path)
      else find_loop windows regular (butlast path) (Some path))"
  by pat_completeness auto
termination
  by (relation "measure (\<lambda>(w, r, path, prev). if Some path = prev then 0 else Suc (length path))") (auto dest: butlast_shorter)

declare find_loop.simps [simp del]

definition Find :: "bool \<Rightarrow> (string list \<Rightarrow> bool) \<Rightarrow> string list option \<Rightarrow> string list option" where
  "Find windows regular abs_path =
     (case abs_path of
        None \<Rightarrow> None
      | Some path \<Rightarrow> if isManifest regular path then Some path else find_loop windows regular path None)"

text \<open>The places that are looked at, in order: the path itself, then each directory above it.\<close>

definition candidates :: "bool \<Rightarrow> string list \<Rightarrow> string list list" where
  "candidates windows dir = [dir @ [StandardFile], join_standard windows dir]"

fun above :: "bool \<Rightarrow> nat \<Rightarrow> string list \<Rightarrow> string list list" where
  "above windows 0 path = candidates windows []"
| "above windows (Suc n) path = candidates windows (take (Suc n) path) @ above windows n path"

lemma above_butlast: "n < length path \<Longrightarrow> above w n (butlast path) = above w n path"
  by (induction n) (simp_all add: take_butlast)

lemma find_append: "List.find P (xs @ ys) = (case List.find P xs of None \<Rightarrow> List.find P ys | Some x \<Rightarrow> Some x)"
  by (induction xs) simp_all

lemma find_loop_eq:
  "prev \<noteq> Some path \<Longrightarrow> find_loop w R path prev =
    (case List.find (isManifest R) (candidates w path) of
       None \<Rightarrow> find_loop w R (butlast path) (Some path) | Some p \<Rightarrow> Some p)"
  by (simp add: find_loop.simps [of w R path prev] candidates_def)

lemma find_loop_above:
  assumes "prev \<noteq> Some path"
  shows "find_loop w R path prev = List.find (isManifest R) (above w (length path) path)"
  using assms
proof (induction path arbitrary: prev rule: rev_induct)
  case Nil
  have "find_loop w R [] (Some []) = None" by (simp add: find_loop.simps)
  with find_loop_eq [OF Nil, of w R] show ?case by (simp split: option.split)
next
  case (snoc x path)
  have "find_loop w R path (Some (path @ [x])) = List.find (isManifest R) (above w (length path) path)"
    by (rule snoc.IH) simp
  moreover have "above w (length path) (path @ [x]) = above w (length path) path"
    using above_butlast [of "length path" "path @ [x]" w] by simp
  moreover have "take (Suc (length path)) (path @ [x]) = path @ [x]" by simp
  ultimately show ?case
    using find_loop_eq [OF snoc.prems, of w R] by (simp only: length_append_singleton above.simps find_append butlast_snoc)
qed

section \<open>Statistics\<close>

definition stats_of :: "Resource list \<Rightarrow> Stats" where
  "stats_of rs = fold Stats_Add rs Stats_zero"

lemma stats_of_snoc: "stats_of (rs @ [r]) = Stats_Add r (stats_of rs)"
  by (simp add: stats_of_def)

lemma stats_entries: "st_Entries (stats_of rs) = of_nat (length rs) \<and> st_Size (stats_of rs) = sum_list (map re_Size rs)"
proof (induction rs rule: rev_induct)
  case (snoc r rs)
  then show ?case by (simp add: stats_of_snoc Stats_Add_def Let_def)
qed (simp add: stats_of_def Stats_zero_def)

lemma stats_times:
  assumes "rs \<noteq> []" "length rs < 2 ^ 64"
  shows "st_First (stats_of rs) = Min (re_Time ` set rs) \<and> st_Last (stats_of rs) = Max (re_Time ` set rs)"
  using assms
proof (induction rs rule: rev_nonempty_induct)
  case (single r)
  then show ?case by (simp add: stats_of_def Stats_Add_def Stats_zero_def Let_def)
next
  case (snoc r rs)
  have "unat (of_nat (length rs) :: 64 word) = length rs" using snoc.prems by (simp add: unat_of_nat take_bit_nat_eq_self)
  with snoc.hyps have "(of_nat (length rs) :: 64 word) \<noteq> 0" by (metis length_0_conv unat_0)
  then have "st_Entries (stats_of rs) + 1 \<noteq> 1" using stats_entries by (metis add_cancel_right_left)
  then have "st_First (stats_of (rs @ [r])) = min (re_Time r) (st_First (stats_of rs))"
    "st_Last (stats_of (rs @ [r])) = max (re_Time r) (st_Last (stats_of rs))"
    by (auto simp: stats_of_snoc Stats_Add_def Let_def)
  moreover have "st_First (stats_of rs) = Min (re_Time ` set rs)" "st_Last (stats_of rs) = Max (re_Time ` set rs)"
    using snoc by simp_all
  moreover have "re_Time ` set (rs @ [r]) = insert (re_Time r) (re_Time ` set rs)" by simp
  moreover have "Min (insert (re_Time r) (re_Time ` set rs)) = min (re_Time r) (Min (re_Time ` set rs))"
    "Max (insert (re_Time r) (re_Time ` set rs)) = max (re_Time r) (Max (re_Time ` set rs))"
    using snoc.hyps by (simp_all add: Min_insert Max_insert)
  ultimately show ?case by simp
qed

section \<open>What a stream holds\<close>

fun decode_all :: "(64 word \<Rightarrow> gerr \<Rightarrow> gerr) \<Rightarrow> item list \<Rightarrow> gerr \<Rightarrow> 64 word \<Rightarrow> Resource list \<times> gerr" where
  "decode_all F [] e n = ([], e)"
| "decode_all F (Tok t # rest) e n = decode_all F rest e n"
| "decode_all F (ResourceEl ts out # rest) e n =
     (case out of
        Inl r \<Rightarrow> (case decode_all F rest e (n + 1) of (rs, err) \<Rightarrow> (r # rs, err))
      | Inr (err, _) \<Rightarrow> ([], F (n + 1) err))"

lemma decode_read:
  "decode_all F items e n =
    (case read_items F items e n of
       (Inl r, rest, m) \<Rightarrow> (case decode_all F rest e m of (rs, err) \<Rightarrow> (r # rs, err))
     | (Inr err, rest, m) \<Rightarrow> ([], err))"
  by (induction F items e n rule: decode_all.induct) (auto simp: Let_def split: sum.splits prod.splits)

definition left_in :: "(64 word \<Rightarrow> gerr \<Rightarrow> gerr) \<Rightarrow> Decoder \<Rightarrow> Resource list \<times> gerr" where
  "left_in F d = decode_all F (dc_stream d) (dc_end d) (dc_count d)"

lemma left_in_read:
  "left_in F d = (case Decoder_Read F d of (Inl r, d') \<Rightarrow> (case left_in F d' of (rs, err) \<Rightarrow> (r # rs, err)) | (Inr err, d') \<Rightarrow> ([], err))"
  using decode_read [of F "dc_stream d" "dc_end d" "dc_count d"]
  by (auto simp: left_in_def Decoder_Read_def split: prod.splits sum.splits)

definition resolved :: "(uuid \<Rightarrow> string) \<Rightarrow> Cursor \<Rightarrow> Resource list \<Rightarrow> Resource list" where
  "resolved S c rs = map (resolve_partner S (cu_resolver c)) rs"

lemma process_fields:
  "cu_filter (snd (process r c)) = cu_filter c" "cu_resolver (snd (process r c)) = cu_resolver c"
  "cu_reader (snd (process r c)) = cu_reader c" "cu_total (snd (process r c)) = Stats_Add r (cu_total c)"
  "cu_filtered (snd (process r c)) = fold Stats_Add (filter (Match (cu_filter c)) [r]) (cu_filtered c)"
  "fst (process r c) = Match (cu_filter c) r"
  by (simp_all add: process_def Let_def)

text \<open>End reads everything that is left.\<close>

lemma end_loop_spec:
  assumes "left_in F (cu_decoder c) = (rs, err)" "end_loop F S c = (res, c')"
  shows "res = (if err = ErrEOF then None else Some err)"
    "cu_total c' = fold Stats_Add (resolved S c rs) (cu_total c)"
    "cu_filtered c' = fold Stats_Add (filter (Match (cu_filter c)) (resolved S c rs)) (cu_filtered c)"
  using assms
proof (induction F S c arbitrary: rs res c' rule: end_loop.induct)
  case (1 F S c)
  obtain x d where xd: "Decoder_Read F (cu_decoder c) = (x, d)" by fastforce
  {
    case 1
    show ?case
    proof (cases x)
      case (Inl q)
      let ?c = "snd (process (resolve_partner S (cu_resolver c) q) (c\<lparr>cu_decoder := d\<rparr>))"
      obtain qs where "left_in F d = (qs, err)" "rs = q # qs"
        using 1 xd Inl by (auto simp: left_in_read [of F "cu_decoder c"] split: prod.splits)
      with "1.IH"(1) [OF xd [symmetric] Inl, of qs res c'] 1 xd Inl show ?thesis
        by (simp add: end_loop.simps [of F S c])
    qed (use 1 xd in \<open>auto simp: end_loop.simps [of F S c] left_in_read [of F "cu_decoder c"]\<close>)
  next
    case 2
    show ?case
    proof (cases x)
      case (Inl q)
      obtain qs where "left_in F d = (qs, err)" "rs = q # qs"
        using 2 xd Inl by (auto simp: left_in_read [of F "cu_decoder c"] split: prod.splits)
      with "1.IH"(2) [OF xd [symmetric] Inl, of qs res c'] 2 xd Inl show ?thesis
        by (simp add: end_loop.simps [of F S c] process_fields resolved_def)
    qed (use 2 xd in \<open>auto simp: end_loop.simps [of F S c] left_in_read [of F "cu_decoder c"] resolved_def\<close>)
  next
    case 3
    show ?case
    proof (cases x)
      case (Inl q)
      obtain qs where "left_in F d = (qs, err)" "rs = q # qs"
        using 3 xd Inl by (auto simp: left_in_read [of F "cu_decoder c"] split: prod.splits)
      with "1.IH"(3) [OF xd [symmetric] Inl, of qs res c'] 3 xd Inl show ?thesis
        by (simp add: end_loop.simps [of F S c] process_fields resolved_def)
    qed (use 3 xd in \<open>auto simp: end_loop.simps [of F S c] left_in_read [of F "cu_decoder c"] resolved_def\<close>)
  }
qed

text \<open>Read goes to the next match, or to the end.\<close>

lemma read_loop_match:
  assumes "left_in F (cu_decoder c) = (rs, err)" "read_loop F S c = (Inl r, c')"
  shows "\<exists>ps qs. left_in F (cu_decoder c') = (qs, err) \<and> resolved S c rs = ps @ r # resolved S c qs \<and>
      filter (Match (cu_filter c)) (ps @ [r]) = [r] \<and> cu_total c' = fold Stats_Add (ps @ [r]) (cu_total c) \<and>
      cu_filtered c' = Stats_Add r (cu_filtered c) \<and>
      (cu_filter c', cu_resolver c', cu_reader c') = (cu_filter c, cu_resolver c, cu_reader c)"
  using assms
proof (induction F S c arbitrary: rs rule: read_loop.induct)
  case (1 F S c)
  obtain x d where xd: "Decoder_Read F (cu_decoder c) = (x, d)" by fastforce
  with "1.prems"(2) obtain q where x: "x = Inl q" by (cases x) (auto simp: read_loop.simps [of F S c])
  let ?q = "resolve_partner S (cu_resolver c) q"
  let ?c = "snd (process ?q (c\<lparr>cu_decoder := d\<rparr>))"
  obtain qs where qs: "left_in F d = (qs, err)" "rs = q # qs"
    using "1.prems"(1) xd x by (auto simp: left_in_read [of F "cu_decoder c"] split: prod.splits)
  show ?case
  proof (cases "Match (cu_filter c) ?q")
    case True
    with "1.prems"(2) xd x have "r = ?q" "c' = ?c" by (auto simp: read_loop.simps [of F S c] Let_def process_fields)
    with True qs show ?thesis by (intro exI [of _ "[]"] exI [of _ qs]) (simp add: process_fields resolved_def)
  next
    case False
    with "1.prems"(2) xd x have n: "read_loop F S ?c = (Inl r, c')" by (simp add: read_loop.simps [of F S c] Let_def process_fields)
    have f: "\<not> fst (process ?q (c\<lparr>cu_decoder := d\<rparr>))" using False by (simp add: process_fields)
    from "1.IH" [OF xd [symmetric] x refl refl f _ n] qs(1) obtain ps us where
      "left_in F (cu_decoder c') = (us, err)" "resolved S ?c qs = ps @ r # resolved S ?c us"
      "filter (Match (cu_filter ?c)) (ps @ [r]) = [r]" "cu_total c' = fold Stats_Add (ps @ [r]) (cu_total ?c)"
      "cu_filtered c' = Stats_Add r (cu_filtered ?c)"
      "(cu_filter c', cu_resolver c', cu_reader c') = (cu_filter ?c, cu_resolver ?c, cu_reader ?c)" by auto
    with False qs(2) show ?thesis
      by (intro exI [of _ "?q # ps"] exI [of _ us]) (simp add: process_fields resolved_def)
  qed
qed

lemma read_loop_end:
  assumes "left_in F (cu_decoder c) = (rs, err)" "read_loop F S c = (Inr e, c')"
  shows "e = err \<and> filter (Match (cu_filter c)) (resolved S c rs) = [] \<and>
      cu_total c' = fold Stats_Add (resolved S c rs) (cu_total c) \<and> cu_filtered c' = cu_filtered c"
  using assms
proof (induction F S c arbitrary: rs rule: read_loop.induct)
  case (1 F S c)
  obtain x d where xd: "Decoder_Read F (cu_decoder c) = (x, d)" by fastforce
  show ?case
  proof (cases x)
    case (Inr e')
    with "1.prems" xd show ?thesis by (auto simp: read_loop.simps [of F S c] left_in_read [of F "cu_decoder c"] resolved_def)
  next
    case (Inl q)
    let ?q = "resolve_partner S (cu_resolver c) q"
    let ?c = "snd (process ?q (c\<lparr>cu_decoder := d\<rparr>))"
    obtain qs where qs: "left_in F d = (qs, err)" "rs = q # qs"
      using "1.prems"(1) xd Inl by (auto simp: left_in_read [of F "cu_decoder c"] split: prod.splits)
    have f: "\<not> fst (process ?q (c\<lparr>cu_decoder := d\<rparr>))"
      using "1.prems"(2) xd Inl by (auto simp: read_loop.simps [of F S c] Let_def split: if_splits)
    then have n: "read_loop F S ?c = (Inr e, c')" using "1.prems"(2) xd Inl by (simp add: read_loop.simps [of F S c] Let_def)
    from "1.IH" [OF xd [symmetric] Inl refl refl f _ n, of qs] qs f show ?thesis
      by (simp add: process_fields resolved_def)
  qed
qed

lemma enumerate_loop_spec:
  assumes "cu_reader c" "left_in F (cu_decoder c) = (rs, err)" "enumerate_loop F S c = (out, e, c')"
  shows "out = filter (Match (cu_filter c)) (resolved S c rs) \<and> e = (if err = ErrEOF then None else Some err) \<and>
     cu_total c' = fold Stats_Add (resolved S c rs) (cu_total c) \<and>
     cu_filtered c' = fold Stats_Add out (cu_filtered c)"
  using assms
proof (induction F S c arbitrary: rs out rule: enumerate_loop.induct)
  case (1 F S c)
  obtain x d where xd: "Cursor_Read F S c = (x, d)" by fastforce
  then have rl: "read_loop F S c = (x, d)" using "1.prems"(1) by (simp add: Cursor_Read_def)
  show ?case
  proof (cases x)
    case (Inr e')
    with "1.prems" xd read_loop_end [OF "1.prems"(2)] rl show ?thesis by (auto simp: enumerate_loop.simps [of F S c])
  next
    case (Inl r)
    from read_loop_match [OF "1.prems"(2)] rl Inl obtain ps qs where
      m: "left_in F (cu_decoder d) = (qs, err)" "resolved S c rs = ps @ r # resolved S c qs"
      "filter (Match (cu_filter c)) (ps @ [r]) = [r]" "cu_total d = fold Stats_Add (ps @ [r]) (cu_total c)"
      "cu_filtered d = Stats_Add r (cu_filtered c)" "cu_filter d = cu_filter c" "cu_resolver d = cu_resolver c" "cu_reader d"
      using "1.prems"(1) by auto blast
    obtain os where o: "enumerate_loop F S d = (os, e, c')" "out = r # os"
      using "1.prems"(3) xd Inl by (auto simp: enumerate_loop.simps [of F S c] split: prod.splits)
    have rd: "resolved S d qs = resolved S c qs" using m(7) by (simp add: resolved_def)
    from "1.IH" [OF xd [symmetric] Inl m(8,1) o(1)]
    have "os = filter (Match (cu_filter c)) (resolved S c qs)" "e = (if err = ErrEOF then None else Some err)"
      "cu_total c' = fold Stats_Add (resolved S c qs) (cu_total d)" "cu_filtered c' = fold Stats_Add os (cu_filtered d)"
      by (simp_all add: rd m(6))
    with m o(2) show ?thesis by (auto simp: filter_append)
  qed
qed

lemma filters_match:
  "(Match (And fs) r \<longleftrightarrow> list_all (\<lambda>f. Match f r) fs) \<and>
   (Match (Or fs) r \<longleftrightarrow> list_all (\<lambda>f. f = None) fs \<or> list_ex (\<lambda>f. f \<noteq> None \<and> Match f r) fs) \<and>
   (Match (Not f) r \<longleftrightarrow> \<not> Match f r)"
proof -
  have a: "and_loop fs r \<longleftrightarrow> list_all (\<lambda>f. Match f r) fs" for fs by (induction fs) auto
  have o: "or_loop fs r \<longleftrightarrow> list_ex (\<lambda>f. Match f r) fs" for fs by (induction fs) auto
  have s: "selectNonNil fs = filter (\<lambda>f. f \<noteq> None) fs" for fs by (induction fs) auto
  have l: "list_all (\<lambda>f. Match f r) (selectNonNil fs) \<longleftrightarrow> list_all (\<lambda>f. Match f r) fs" for fs
    by (induction fs) (auto simp: Match_def)
  have e: "length (selectNonNil fs) = 0 \<longleftrightarrow> list_all (\<lambda>f. f = None) fs" by (auto simp: s list_all_iff filter_empty_conv)
  have x: "list_ex (\<lambda>f. Match f r) (selectNonNil fs) \<longleftrightarrow> list_ex (\<lambda>f. f \<noteq> None \<and> Match f r) fs" by (auto simp: s list_ex_iff)
  have "Match (And fs) r \<longleftrightarrow> list_all (\<lambda>f. Match f r) fs"
  proof (cases "length (selectNonNil fs) = 0")
    case True
    with e have "list_all (\<lambda>f. Match f r) fs" by (auto simp: list_all_iff Match_def)
    with True show ?thesis by (simp add: And_def Match_def)
  next
    case False
    then have "Match (And fs) r \<longleftrightarrow> and_loop (selectNonNil fs) r" by (simp add: And_def Let_def Match_def)
    with a l show ?thesis by simp
  qed
  moreover have "Match (Or fs) r \<longleftrightarrow> list_all (\<lambda>f. f = None) fs \<or> list_ex (\<lambda>f. f \<noteq> None \<and> Match f r) fs"
  proof (cases "length (selectNonNil fs) = 0")
    case True
    with e have "list_all (\<lambda>f. f = None) fs" by blast
    with True show ?thesis by (simp add: Or_def Match_def)
  next
    case False
    then have "Match (Or fs) r \<longleftrightarrow> or_loop (selectNonNil fs) r" by (simp add: Or_def Let_def Match_def)
    with o x e False show ?thesis by simp
  qed
  ultimately show ?thesis by (simp add: Not_def Match_def [of "Some (\<lambda>r. \<not> Match f r)"])
qed

lemma stream_exact:
  "case decode_all F items e 0 of
     (rs, err) \<Rightarrow>
       Manifest_Stats F S flt (Inl (items, e)) =
         (if err = ErrEOF then (stats_of (filter (Match flt) rs), stats_of rs, None) else (Stats_zero, Stats_zero, Some err)) \<and>
       (case enumerate_loop F S (NewAdvancedCursor items e res flt) of
          (printed, er, c) \<Rightarrow>
            printed = filter (Match flt) (map (resolve_partner S res) rs) \<and> er = (if err = ErrEOF then None else Some err) \<and>
            Cursor_Stats c = (stats_of printed, stats_of (map (resolve_partner S res) rs)))"
proof -
  obtain rs err where d: "decode_all F items e 0 = (rs, err)" by fastforce
  have l: "left_in F (cu_decoder (NewAdvancedCursor items e r flt)) = (rs, err)" for r
    using d by (simp add: left_in_def NewAdvancedCursor_def NewDecoder_def)
  have i: "cu_reader (NewAdvancedCursor items e r flt)" "cu_filter (NewAdvancedCursor items e r flt) = flt"
    "cu_total (NewAdvancedCursor items e r flt) = Stats_zero" "cu_filtered (NewAdvancedCursor items e r flt) = Stats_zero"
    "resolved S (NewAdvancedCursor items e r flt) rs = map (resolve_partner S r) rs" for r
    by (simp_all add: NewAdvancedCursor_def resolved_def)
  have "resolve_partner S None q = q" for q by (simp add: resolve_partner_def Resolver_Resolve_def)
  then have n: "map (resolve_partner S None) rs = rs" by (simp add: map_idI)
  obtain er c where ec: "end_loop F S (NewAdvancedCursor items e None flt) = (er, c)" by fastforce
  from end_loop_spec [OF l ec] have "Manifest_Stats F S flt (Inl (items, e)) =
         (if err = ErrEOF then (stats_of (filter (Match flt) rs), stats_of rs, None) else (Stats_zero, Stats_zero, Some err))"
    by (simp add: Manifest_Stats_def Manifest_AdvancedCursor_def Cursor_End_def i n ec Cursor_Stats_def stats_of_def)
  moreover obtain out er' c' where en: "enumerate_loop F S (NewAdvancedCursor items e res flt) = (out, er', c')"
    using prod_cases3 by blast
  ultimately show ?thesis
    using enumerate_loop_spec [OF i(1) l en] by (simp add: d i en Cursor_Stats_def stats_of_def)
qed

section \<open>Properties\<close>

text \<open>
  The statistics of a nonempty list of fewer than 2 to the 64 records are exact: the number
  of entries, the sum of the sizes in 64 bits, and the smallest and the largest time stamp. The
  order of the records does not matter.
\<close>

theorem stats_exact:
  assumes "rs \<noteq> []" "length rs < 2 ^ 64" "mset qs = mset rs"
  shows "stats_of qs = \<lparr>st_Entries = of_nat (length rs), st_Size = sum_list (map re_Size rs),
    st_First = Min (re_Time ` set rs), st_Last = Max (re_Time ` set rs)\<rparr>"
proof -
  have q: "qs \<noteq> []" "length qs = length rs" "set qs = set rs" using assms(1,3) by (auto dest: mset_eq_length mset_eq_setD)
  have "mset (map re_Size qs) = mset (map re_Size rs)" using assms(3) by simp
  then have "sum_list (map re_Size qs) = sum_list (map re_Size rs)" by (metis sum_mset_sum_list)
  then show ?thesis
    using stats_entries [of qs] stats_times [OF q(1)] q(2,3) assms(2) by simp
qed

definition re_at :: "string \<Rightarrow> string \<Rightarrow> time \<Rightarrow> 64 word \<Rightarrow> Resource" where
  "re_at path ty t n = Resource_zero\<lparr>re_Path := path, re_Type := ty, re_Time := t, re_Size := n\<rparr>"

theorem stats_exact_witness:
  "stats_of [re_at ''a'' ''x'' 7 10, re_at ''b'' ''x'' 3 5, re_at ''c'' ''x'' 5 1] =
     \<lparr>st_Entries = 3, st_Size = 16, st_First = 3, st_Last = 7\<rparr>"
  by (subst stats_exact [of "[re_at ''a'' ''x'' 7 10, re_at ''b'' ''x'' 3 5, re_at ''c'' ''x'' 5 1]"])
    (simp_all add: re_at_def)

text \<open>
  C22. Reading a manifest as a stream gives what its records say. With rs the records up to the
  end or the first error: the command that prints records gets exactly those that match the
  filter, resolved and in order, and its statistics are those of all records and of the printed
  ones; the command that only counts gets the same statistics without resolution, or the error.
\<close>

theorem manifest_stream_exact:
  "case decode_all F items e 0 of
     (rs, err) \<Rightarrow>
       Manifest_Stats F S flt (Inl (items, e)) =
         (if err = ErrEOF then (stats_of (filter (Match flt) rs), stats_of rs, None) else (Stats_zero, Stats_zero, Some err)) \<and>
       (case enumerate_loop F S (NewAdvancedCursor items e res flt) of
          (printed, er, c) \<Rightarrow>
            printed = filter (Match flt) (map (resolve_partner S res) rs) \<and> er = (if err = ErrEOF then None else Some err) \<and>
            Cursor_Stats c = (stats_of printed, stats_of (map (resolve_partner S res) rs)))"
  by (rule stream_exact)

text \<open>
  Filters mean what their names say, nil filters included: And matches when all its filters
  match, Or when one of the filters that are not nil matches or all are nil, Not when its filter
  does not match.
\<close>

theorem filters_meaning:
  "(Match (And fs) r \<longleftrightarrow> list_all (\<lambda>f. Match f r) fs) \<and>
   (Match (Or fs) r \<longleftrightarrow> list_all (\<lambda>f. f = None) fs \<or> list_ex (\<lambda>f. f \<noteq> None \<and> Match f r) fs) \<and>
   (Match (Not f) r \<longleftrightarrow> \<not> Match f r)"
  by (rule filters_match)

text \<open>
  Find ends, and returns the nearest manifest: the first regular file named like the manifest
  among the path itself and, from its directory up to the root, the two standard places in each
  directory.
\<close>

theorem find_nearest:
  "Find windows regular (Some path) = List.find (isManifest regular) (path # above windows (length path) path)"
  by (simp add: Find_def find_loop_above)

text \<open>On systems other than Windows the second of the two places is never taken.\<close>

lemma standard_path_not_found: "\<not> isManifest regular (join_standard False path)"
proof -
  have "length (ToLower StandardPath) \<noteq> length (ToLower StandardFile)" by (simp add: ToLower_def StandardPath_def)
  then have "ToLower StandardPath \<noteq> ToLower StandardFile" by metis
  then show ?thesis by (simp add: isManifest_def isManifestPath_def join_standard_def EqualFold_def)
qed

text \<open>Count and Read agree when records decode and contain no resource element of their own.\<close>

lemma count_nested: "TStart resourceElement \<notin> set ts \<Longrightarrow> count_tokens (ts @ us) n = count_tokens us n"
proof (induction ts arbitrary: n)
  case (Cons t ts)
  then show ?case by (cases t) auto
qed simp

fun plain :: "item \<Rightarrow> bool" where
  "plain (Tok t) = (t \<noteq> TStart resourceElement)"
| "plain (ResourceEl ts out) = (TStart resourceElement \<notin> set ts \<and> isl out)"

lemma count_agrees:
  "list_all plain items \<Longrightarrow> count_tokens (tokens items) n = n + of_nat (length (fst (decode_all F items e m)))"
proof (induction items arbitrary: n m rule: tokens.induct)
  case (2 t rest)
  then show ?case by (cases t) auto
next
  case (3 ts out rest)
  then obtain r where o: "out = Inl r" "TStart resourceElement \<notin> set ts" "list_all plain rest" by (cases out) auto
  obtain rs err where d: "decode_all F rest e (m + 1) = (rs, err)" by fastforce
  have "count_tokens (tokens rest) (n + 1) = n + 1 + of_nat (length rs)" using "3.IH" [OF o(3), of "n + 1" "m + 1"] d by simp
  then show ?case using o d by (simp add: count_nested add.assoc)
qed simp

end
