(* ===== verification/ManifestCmd.thy ===== *)
theory ManifestCmd imports Manifest begin

text \<open>
  The command line tool for manifests (cmd/dfsrmanifest: filter.go, time.go, main.go) and the
  flag values that the tools use (dfsrflag).

  Regular expressions and the package now, which reads dates, are outside the repository: their
  functions are parameters. A call of usage or os.Exit ends the program, which is a result of
  its own.
\<close>

section \<open>Decimal numbers\<close>

text \<open>fmt.Sprint of an unsigned integer and strconv.ParseUint in base 10.\<close>


definition digit_val :: "char \<Rightarrow> nat option" where
  "digit_val c = (if (48::nat) \<le> of_char c \<and> of_char c \<le> (57::nat) then Some (of_char c - 48) else None)"

fun parse_digits :: "nat \<Rightarrow> string \<Rightarrow> nat option" where
  "parse_digits n [] = Some n"
| "parse_digits n (c # cs) = (case digit_val c of None \<Rightarrow> None | Some d \<Rightarrow> parse_digits (n * 10 + d) cs)"

definition ParseUint32 :: "string \<Rightarrow> nat option" where
  "ParseUint32 s =
     (if s = [] then None
      else case parse_digits 0 s of None \<Rightarrow> None | Some n \<Rightarrow> if n < 2 ^ 32 then Some n else None)"

lemma digit_val_digit: "d < 10 \<Longrightarrow> digit_val (char_of (48 + d :: nat)) = Some d"
  by (simp add: digit_val_def)

lemma parse_digits_append:
  "parse_digits n (s @ t) = (case parse_digits n s of None \<Rightarrow> None | Some m \<Rightarrow> parse_digits m t)"
  by (induction n s rule: parse_digits.induct) (auto split: option.splits)

lemma parse_show: "parse_digits 0 (show_nat n) = Some n"
proof (induction n rule: show_nat.induct)
  case (1 n)
  show ?case
  proof (cases "n < 10")
    case True
    then show ?thesis by (simp add: show_nat.simps [of n] digit_val_digit)
  next
    case False
    with 1 have "parse_digits 0 (show_nat (n div 10)) = Some (n div 10)" by simp
    with False show ?thesis by (simp add: show_nat.simps [of n] parse_digits_append digit_val_digit)
  qed
qed

lemma show_nat_nonempty: "show_nat n \<noteq> []"
  by (simp add: show_nat.simps [of n])

lemma ParseUint_show: "n < 2 ^ 32 \<Longrightarrow> ParseUint32 (show_nat n) = Some n"
  by (simp add: ParseUint32_def show_nat_nonempty parse_show)

section \<open>Flag values\<close>

record UintOrInf =
  ui_Present :: bool
  ui_Inf :: bool
  ui_Value :: "64 word"

definition UintOrInf_zero :: UintOrInf where
  "UintOrInf_zero = \<lparr>ui_Present = False, ui_Inf = False, ui_Value = 0\<rparr>"

text \<open>The sign for infinity in UTF-8.\<close>

definition infinity_sign :: string where "infinity_sign = [CHR 0xE2, CHR 0x88, CHR 0x9E]"

definition infinity_forms :: "string list" where
  "infinity_forms = [''infinite'', ''infinity'', ''inf'', ''i'', infinity_sign]"

definition UintOrInf_String :: "UintOrInf \<Rightarrow> string" where
  "UintOrInf_String u = (if ui_Inf u then infinity_sign else show_nat (unat (ui_Value u)))"

definition UintOrInf_Set :: "string \<Rightarrow> UintOrInf \<Rightarrow> UintOrInf \<times> gerr option" where
  "UintOrInf_Set s u =
     (let u = u\<lparr>ui_Present := True\<rparr>
      in if ToLower s \<in> set infinity_forms then (u\<lparr>ui_Inf := True\<rparr>, None)
         else (case ParseUint32 s of
                 None \<Rightarrow> (u, Some (ErrOther 20 (''\"'' @ s @ ''\" is neither an unsigned integer nor a form of \"infinity\"'')))
               | Some v \<Rightarrow> (u\<lparr>ui_Value := of_nat v\<rparr>, None)))"

definition regexci :: string where "regexci = ''(?i)''"

definition RegexpSlice_Set :: "(string \<Rightarrow> 're + gerr) \<Rightarrow> string \<Rightarrow> 're list \<Rightarrow> 're list \<times> gerr option" where
  "RegexpSlice_Set Compile s xs =
     (let s = (if \<not> HasPrefix s regexci then regexci @ s else s)
      in case Compile s of Inr err \<Rightarrow> (xs, Some err) | Inl re \<Rightarrow> (xs @ [re], None))"

definition RegexpSlice_String :: "('re \<Rightarrow> string) \<Rightarrow> 're list \<Rightarrow> string" where
  "RegexpSlice_String String xs = ''['' @ Join (map String xs) '' '' @ '']''"

section \<open>Times\<close>

text \<open>What the code uses of package now, with the time of the call and the day before it.\<close>

record now_lib =
  nl_now :: time
  nl_yesterday :: time
  nl_BeginningOfDay :: "time \<Rightarrow> time"
  nl_EndOfDay :: "time \<Rightarrow> time"
  nl_Parse :: "time \<Rightarrow> string \<Rightarrow> time + gerr"

definition parseTimeReference :: "now_lib \<Rightarrow> string \<Rightarrow> time \<times> bool" where
  "parseTimeReference L s =
     (if s = ''today'' then (nl_now L, True) else if s = ''yesterday'' then (nl_yesterday L, True) else (nl_now L, False))"

definition parseStart :: "now_lib \<Rightarrow> string \<Rightarrow> time + gerr" where
  "parseStart L s =
     (case parseTimeReference L s of
        (start, ref) \<Rightarrow> let start = nl_BeginningOfDay L start in if ref then Inl start else nl_Parse L start s)"

definition parseEnd :: "now_lib \<Rightarrow> string \<Rightarrow> time + gerr" where
  "parseEnd L s =
     (case parseTimeReference L s of
        (end, ref) \<Rightarrow> let end = nl_EndOfDay L end in if ref then Inl end else nl_Parse L end s)"

definition parseWhen :: "now_lib \<Rightarrow> string \<Rightarrow> (time \<times> time) + gerr" where
  "parseWhen L s =
     (case parseTimeReference L s of
        (day, ref) \<Rightarrow>
          (let start = nl_BeginningOfDay L day; end = nl_EndOfDay L day
           in if ref then Inl (start, end)
              else (case nl_Parse L start s of
                      Inr err \<Rightarrow> Inr err
                    | Inl start \<Rightarrow> (case nl_Parse L end s of Inr err \<Rightarrow> Inr err | Inl end \<Rightarrow> Inl (start, end)))))"

section \<open>parseFilter\<close>

datatype exit = ExitUsage string | ExitTime string gerr

text \<open>The blocks of parseFilter, each appending to the list of filters.\<close>

definition regex_filters :: "('re \<Rightarrow> string \<Rightarrow> bool) \<Rightarrow> 're list \<Rightarrow> 're list \<Rightarrow> 're list \<Rightarrow> Filter list" where
  "regex_filters MatchString inc exc types =
     (if inc \<noteq> [] then [Or (map (\<lambda>i. PathRegexp (MatchString i)) inc)] else []) @
     (if exc \<noteq> [] then [And (map (\<lambda>e. Not (PathRegexp (MatchString e))) exc)] else []) @
     (if types \<noteq> [] then [And (map (\<lambda>t. TypeRegexp (MatchString t)) types)] else [])"

definition parseFilter ::
  "now_lib \<Rightarrow> ('re \<Rightarrow> string \<Rightarrow> bool) \<Rightarrow> 're list \<Rightarrow> 're list \<Rightarrow> 're list \<Rightarrow> string \<Rightarrow> string \<Rightarrow> string \<Rightarrow> Filter + exit" where
  "parseFilter L MatchString inc exc types after_s before_s when_s =
     (let filters = regex_filters MatchString inc exc types;
          step1 = (if when_s \<noteq> [] then
                     (if after_s \<noteq> [] \<or> before_s \<noteq> []
                      then Inr (ExitUsage ''Cannot use when flag in combination with after or before.'')
                      else (case parseWhen L when_s of
                              Inr err \<Rightarrow> Inr (ExitTime ''Invalid start/end date'' err)
                            | Inl (a, b) \<Rightarrow> Inl (filters @ [filter_After a] @ [filter_Before b])))
                   else Inl filters)
      in case step1 of
           Inr x \<Rightarrow> Inr x
         | Inl filters \<Rightarrow>
             (let step2 = (if after_s \<noteq> [] then
                             (case parseStart L after_s of
                                Inr err \<Rightarrow> Inr (ExitTime ''Invalid start time'' err)
                              | Inl a \<Rightarrow> Inl (filters @ [filter_After a]))
                           else Inl filters)
              in case step2 of
                   Inr x \<Rightarrow> Inr x
                 | Inl filters \<Rightarrow>
                     (let step3 = (if before_s \<noteq> [] then
                                     (case parseEnd L before_s of
                                        Inr err \<Rightarrow> Inr (ExitTime ''Invalid end time'' err)
                                      | Inl b \<Rightarrow> Inl (filters @ [filter_Before b]))
                                   else Inl filters)
                      in case step3 of Inr x \<Rightarrow> Inr x | Inl filters \<Rightarrow> Inl (And filters))))"

section \<open>The commands\<close>

record Info =
  in_Modified :: time
  in_Size :: "64 word"

datatype line =
    LNotFound "string list option"
  | LHeader "string list"
  | LError gerr
  | LDump Resource
  | LHost time string string string
  | LGuid time uuid string string
  | LBlank
  | LInfo Info
  | LTotal Stats
  | LMatching Stats

definition resource_line :: "bool \<Rightarrow> Resource \<Rightarrow> line" where
  "resource_line dump r =
     (if dump then LDump r
      else if re_PartnerHost r \<noteq> [] then LHost (re_Time r) (re_PartnerHost r) (re_Type r) (re_Path r)
      else LGuid (re_Time r) (re_PartnerGUID r) (re_Type r) (re_Path r))"

text \<open>The two results of enumerate are named the other way round than those of Stats.\<close>

definition enumerate ::
  "(64 word \<Rightarrow> gerr \<Rightarrow> gerr) \<Rightarrow> (uuid \<Rightarrow> string) \<Rightarrow> Filter \<Rightarrow> bool \<Rightarrow> Domain option \<Rightarrow> manifest \<Rightarrow>
   line list \<times> Stats \<times> Stats \<times> gerr option" where
  "enumerate F S flt dump domain m =
     (let members = MemberInfoMap S domain
      in case Manifest_AdvancedCursor (Some (Resolve members)) flt m of
           Inr err \<Rightarrow> ([], Stats_zero, Stats_zero, Some err)
         | Inl c \<Rightarrow>
             (case enumerate_loop F S c of
                (rs, Some err, c) \<Rightarrow> (map (resource_line dump) rs, Stats_zero, Stats_zero, Some err)
              | (rs, None, c) \<Rightarrow>
                  (case Cursor_Stats c of (x, y) \<Rightarrow> (map (resource_line dump) rs, x, y, None))))"

definition run_manifest ::
  "(64 word \<Rightarrow> gerr \<Rightarrow> gerr) \<Rightarrow> (uuid \<Rightarrow> string) \<Rightarrow> Filter \<Rightarrow> bool \<Rightarrow> bool \<Rightarrow> bool \<Rightarrow> Domain option \<Rightarrow>
   manifest \<times> Info \<Rightarrow> line list" where
  "run_manifest F S flt listing dump summarize domain mi =
     (case (if \<not> listing
            then (case Manifest_Stats F S flt (fst mi) of (x, y, err) \<Rightarrow> ([], x, y, err))
            else enumerate F S flt dump domain (fst mi)) of
        (out, matching, all_stats, Some err) \<Rightarrow> out @ [LError err]
      | (out, matching, all_stats, None) \<Rightarrow>
          out @
          (if summarize
           then (if listing \<and> 0 <s st_Entries matching then [LBlank] else []) @ [LInfo (snd mi), LTotal all_stats] @
             (if flt \<noteq> None then [LMatching matching] else [])
           else []))"

definition run_path ::
  "(64 word \<Rightarrow> gerr \<Rightarrow> gerr) \<Rightarrow> (uuid \<Rightarrow> string) \<Rightarrow> bool \<Rightarrow> (string list \<Rightarrow> bool) \<Rightarrow> (string list \<Rightarrow> (manifest \<times> Info) + gerr) \<Rightarrow>
   string list option \<Rightarrow> Filter \<Rightarrow> bool \<Rightarrow> bool \<Rightarrow> bool \<Rightarrow> Domain option \<Rightarrow> line list" where
  "run_path F S windows regular BufferedFile path flt listing dump summarize domain =
     (case Find windows regular path of
        None \<Rightarrow> [LNotFound path]
      | Some mpath \<Rightarrow>
          LHeader mpath #
          (case BufferedFile mpath of
             Inr err \<Rightarrow> [LError err]
           | Inl mi \<Rightarrow> run_manifest F S flt listing dump summarize domain mi))"

text \<open>The command word selects what run does; the summary flag is defined for list and dump only.\<close>

definition command_flags :: "string \<Rightarrow> bool \<Rightarrow> (bool \<times> bool \<times> bool) option" where
  "command_flags command s =
     (let command = ToLower command
      in if command = ''summary'' then Some (False, False, True)
         else if command = ''list'' then Some (True, False, s)
         else if command = ''dump'' then Some (True, True, s)
         else None)"

section \<open>What the filters look at\<close>

text \<open>The fields that resolving a partner leaves alone decide.\<close>

definition unresolved :: "Filter \<Rightarrow> bool" where
  "unresolved f \<longleftrightarrow> (\<forall>r h d. Match f (r\<lparr>re_PartnerHost := h, re_PartnerDN := d\<rparr>) = Match f r)"

lemma unresolved_basic:
  "unresolved (PathRegexp p)" "unresolved (TypeRegexp p)" "unresolved (filter_After t)" "unresolved (filter_Before t)"
  by (simp_all add: unresolved_def Match_def PathRegexp_def TypeRegexp_def filter_After_def filter_Before_def)

lemma Match_And: "Match (And fs) r \<longleftrightarrow> list_all (\<lambda>f. Match f r) fs"
  using filters_match by blast

lemma Match_Or: "Match (Or fs) r \<longleftrightarrow> list_all (\<lambda>f. f = None) fs \<or> list_ex (\<lambda>f. f \<noteq> None \<and> Match f r) fs"
  using filters_match by blast

lemma Match_Not: "Match (Not f) r \<longleftrightarrow> \<not> Match f r"
  using filters_match by blast

lemma unresolved_And: "list_all unresolved fs \<Longrightarrow> unresolved (And fs)"
  by (simp add: unresolved_def Match_And list_all_iff)

lemma unresolved_Or: "list_all unresolved fs \<Longrightarrow> unresolved (Or fs)"
  by (simp add: unresolved_def Match_Or list_all_iff list_ex_iff)

lemma unresolved_Not: "unresolved f \<Longrightarrow> unresolved (Not f)"
  by (simp add: unresolved_def Match_Not)

lemma unresolved_regex: "list_all unresolved (regex_filters M inc exc types)"
  by (auto simp: regex_filters_def list_all_iff intro!: unresolved_And unresolved_Or unresolved_Not unresolved_basic)

lemma And_more: "list_all P ts \<Longrightarrow> \<exists>us. And (xs @ ts) = And (xs @ us) \<and> list_all P us"
  by blast

lemma And_no_more: "\<exists>us. And xs = And (xs @ us) \<and> list_all P us"
  by (rule exI [of _ "[]"]) simp

text \<open>parseFilter makes one conjunction of the filters of its blocks.\<close>

lemma parseFilter_And:
  assumes "parseFilter L M inc exc types a b w = Inl f"
  shows "\<exists>ts. f = And (regex_filters M inc exc types @ ts) \<and> list_all (\<lambda>t. \<exists>x. t = filter_After x \<or> t = filter_Before x) ts"
  using assms
  by (auto simp: parseFilter_def Let_def split: if_splits sum.splits prod.splits)
    ((rule And_more, simp, blast) | rule And_no_more)+

lemma parseFilter_unresolved:
  assumes "parseFilter L M inc exc types a b w = Inl f"
  shows "unresolved f"
proof -
  obtain ts where f: "f = And (regex_filters M inc exc types @ ts)"
    and t: "list_all (\<lambda>t. \<exists>x. t = filter_After x \<or> t = filter_Before x) ts" using parseFilter_And [OF assms] by blast
  have "list_all unresolved ts" using t unresolved_basic by (auto simp: list_all_iff)
  with unresolved_regex show ?thesis unfolding f by (intro unresolved_And) simp
qed

lemma resolve_keeps:
  "re_Size (resolve_partner S res r) = re_Size r" "re_Time (resolve_partner S res r) = re_Time r"
  by (simp_all add: resolve_partner_def split: prod.split)

lemma resolve_match: "unresolved f \<Longrightarrow> Match f (resolve_partner S res r) = Match f r"
  by (simp add: resolve_partner_def unresolved_def split: prod.split)

lemma stats_same:
  assumes "\<And>r. re_Size (h r) = re_Size r" "\<And>r. re_Time (h r) = re_Time r"
  shows "stats_of (map h rs) = stats_of rs"
proof -
  have "Stats_Add (h r) s = Stats_Add r s" for r s by (simp add: Stats_Add_def assms)
  then have "fold Stats_Add (map h rs) s = fold Stats_Add rs s" for s by (induction rs arbitrary: s) simp_all
  then show ?thesis by (simp add: stats_of_def)
qed

section \<open>Numbers that Set accepts\<close>

lemma digit_val_some: "digit_val c = Some d \<Longrightarrow> (48::nat) \<le> of_char c \<and> of_char c \<le> (57::nat)"
  by (simp add: digit_val_def split: if_splits)

lemma lower_digit: "digit_val c = Some d \<Longrightarrow> lower_char c = c"
  using digit_val_some [of c d] by (simp add: lower_char_def)

lemma digits_not_infinite:
  assumes "parse_digits 0 s = Some n"
  shows "ToLower s \<notin> set infinity_forms"
proof (cases s)
  case (Cons c cs)
  then obtain d where d: "digit_val c = Some d" using assms by (auto split: option.splits)
  then have "hd (ToLower s) = c" using Cons by (simp add: ToLower_def lower_digit)
  moreover have "t \<in> set infinity_forms \<Longrightarrow> hd t = CHR ''i'' \<or> hd t = CHR 0xE2" for t
    by (auto simp: infinity_forms_def infinity_sign_def)
  moreover have "c \<noteq> CHR ''i'' \<and> c \<noteq> CHR 0xE2" using digit_val_some [OF d] by auto
  ultimately show ?thesis by metis
qed (simp add: ToLower_def infinity_forms_def infinity_sign_def)

lemma flag_strings:
  "ToLower ''0042'' = ''0042''" "ToLower ''5'' = ''5''" "ToLower ''INF'' = ''inf''" "ToLower ''inf'' = ''inf''"
  by code_simp+

lemmas flag_run_simps = UintOrInf_Set_def UintOrInf_zero_def flag_strings infinity_forms_def infinity_sign_def
  ParseUint32_def digit_val_def Let_def

section \<open>Properties\<close>

text \<open>
  What the flag accepts it prints so that it accepts it again: setting a fresh value from
  its printed form gives the same value, for infinity in any spelling and for every number below
  2 to the 32.
\<close>

theorem flag_roundtrip:
  assumes "UintOrInf_Set s UintOrInf_zero = (u, None)"
  shows "UintOrInf_Set (UintOrInf_String u) UintOrInf_zero = (u, None)"
proof (cases "ToLower s \<in> set infinity_forms")
  case True
  have "ToLower infinity_sign \<in> set infinity_forms" by code_simp
  with True assms show ?thesis by (auto simp: UintOrInf_Set_def UintOrInf_String_def)
next
  case False
  then obtain n where n: "ParseUint32 s = Some n" and u: "u = UintOrInf_zero\<lparr>ui_Present := True, ui_Value := of_nat n\<rparr>"
    using assms by (auto simp: UintOrInf_Set_def Let_def split: option.splits)
  have l: "n < 2 ^ 32" using n by (auto simp: ParseUint32_def split: if_splits option.splits)
  then have un: "unat (of_nat n :: 64 word) = n" by (simp add: unat_of_nat take_bit_nat_eq_self)
  have "UintOrInf_String u = show_nat n" by (simp add: u UintOrInf_String_def UintOrInf_zero_def un)
  moreover have "ToLower (show_nat n) \<notin> set infinity_forms" by (rule digits_not_infinite [OF parse_show])
  ultimately show ?thesis using ParseUint_show [OF l] by (simp add: UintOrInf_Set_def u)
qed

theorem flag_roundtrip_witness:
  "\<exists>u v. UintOrInf_Set ''0042'' UintOrInf_zero = (u, None) \<and> UintOrInf_Set (UintOrInf_String u) UintOrInf_zero = (u, None) \<and>
     UintOrInf_Set ''INF'' UintOrInf_zero = (v, None) \<and> UintOrInf_Set (UintOrInf_String v) UintOrInf_zero = (v, None)"
proof -
  have "snd (UintOrInf_Set ''0042'' UintOrInf_zero) = None" "snd (UintOrInf_Set ''INF'' UintOrInf_zero) = None"
    by (simp_all add: flag_run_simps)
  then obtain u v where "UintOrInf_Set ''0042'' UintOrInf_zero = (u, None)" "UintOrInf_Set ''INF'' UintOrInf_zero = (v, None)"
    by (metis prod.collapse)
  with flag_roundtrip [of "''0042''" u] flag_roundtrip [of "''INF''" v] show ?thesis by blast
qed

text \<open>A number given after infinity is stored, but the value stays infinite.\<close>

lemma number_after_infinity:
  "fst (UintOrInf_Set ''5'' (fst (UintOrInf_Set ''inf'' UintOrInf_zero))) = \<lparr>ui_Present = True, ui_Inf = True, ui_Value = 5\<rparr>"
  by (simp add: flag_run_simps)

text \<open>What each block of parseFilter contributes.\<close>

lemma basic_match:
  "Match (PathRegexp p) r = p (re_Path r)" "Match (TypeRegexp p) r = p (re_Type r)"
  "Match (filter_After x) r = (x < re_Time r)" "Match (filter_Before x) r = (re_Time r < x)"
  "PathRegexp p \<noteq> None"
  by (simp_all add: Match_def PathRegexp_def TypeRegexp_def filter_After_def filter_Before_def)

lemma regex_match:
  "list_all (\<lambda>f. Match f r) (regex_filters M inc exc types) \<longleftrightarrow>
   (inc = [] \<or> list_ex (\<lambda>i. M i (re_Path r)) inc) \<and> \<not> list_ex (\<lambda>e. M e (re_Path r)) exc \<and>
   list_all (\<lambda>t. M t (re_Type r)) types"
proof -
  have "Match (Or (map (\<lambda>i. PathRegexp (M i)) inc)) r \<longleftrightarrow> list_ex (\<lambda>i. M i (re_Path r)) inc" if "inc \<noteq> []"
    using that by (cases inc) (auto simp: Match_Or basic_match list_all_iff list_ex_iff)
  moreover have "Match (And (map (\<lambda>e. Not (PathRegexp (M e))) exc)) r \<longleftrightarrow> \<not> list_ex (\<lambda>e. M e (re_Path r)) exc"
    by (simp add: Match_And Match_Not basic_match list_all_iff list_ex_iff)
  moreover have "Match (And (map (\<lambda>t. TypeRegexp (M t)) types)) r \<longleftrightarrow> list_all (\<lambda>t. M t (re_Type r)) types"
    by (simp add: Match_And basic_match list_all_iff)
  ultimately show ?thesis
    by (cases "inc = []"; cases "exc = []"; cases "types = []") (simp_all add: regex_filters_def)
qed

definition nl0 :: now_lib where
  "nl0 = \<lparr>nl_now = 100, nl_yesterday = 76, nl_BeginningOfDay = (\<lambda>t. t div 24 * 24), nl_EndOfDay = (\<lambda>t. t div 24 * 24 + 23),
     nl_Parse = (\<lambda>t s. if s = ''1970-01-03'' then Inl 48 else Inr ErrEOF)\<rparr>"



text \<open>
  A date given to -when matches nothing: package now parses a string that names a whole date to
  one instant, whatever time it is asked at, and parseWhen overwrites both ends of the day with it.
\<close>

lemma when_date_matches_nothing:
  assumes "parseFilter L M inc exc types a b w = Inl f" "w \<notin> {[], ''today'', ''yesterday''}"
    and "\<And>t u. nl_Parse L t w = nl_Parse L u w"
  shows "\<not> Match f r"
proof -
  have "\<not> (\<exists>x y. parseWhen L w = Inl (x, y) \<and> x < re_Time r \<and> re_Time r < y)"
    using assms(2) assms(3) [of "nl_EndOfDay L (nl_now L)" "nl_BeginningOfDay L (nl_now L)"]
    by (auto simp: parseWhen_def parseTimeReference_def Let_def split: sum.splits)
  moreover have "w = [] \<longleftrightarrow> False" using assms(2) by simp
  ultimately show ?thesis
    using assms(1) by (auto simp: parseFilter_def Match_And basic_match regex_match Let_def split: prod.splits if_splits sum.splits)
qed

lemma when_date_matches_nothing_witness:
  "\<exists>f. parseFilter nl0 (=) [] [] ([] :: string list) [] [] ''1970-01-03'' = Inl f \<and> \<not> Match f (re_at ''x'' ''delete'' 60 1)"
proof -
  obtain f where f: "parseFilter nl0 (=) [] [] ([] :: string list) [] [] ''1970-01-03'' = Inl f"
    by (simp add: parseFilter_def Let_def parseWhen_def parseTimeReference_def nl0_def)
  have "\<not> Match f r" for r by (rule when_date_matches_nothing [OF f]) (simp_all add: nl0_def)
  with f show ?thesis by blast
qed

text \<open>
  Giving two types asks for the impossible: when no string is matched by both expressions,
  as with the types delete and conflict, the filter matches nothing at all.
\<close>

theorem two_types_match_nothing:
  assumes "parseFilter L M inc exc [t, u] a b w = Inl f" "{s. M t s} \<inter> {s. M u s} = {}"
  shows "\<not> Match f r"
proof -
  obtain ts where f: "f = And (regex_filters M inc exc [t, u] @ ts)" using parseFilter_And [OF assms(1)] by blast
  have "Match (TypeRegexp p) r = p (re_Type r)" for p by (simp add: Match_def TypeRegexp_def)
  then have "\<not> Match (And (map (\<lambda>t. TypeRegexp (M t)) [t, u])) r" using assms(2) by (auto simp: Match_And)
  then show ?thesis by (simp add: f Match_And [of "_ @ _"] regex_filters_def)
qed

theorem two_types_match_nothing_witness:
  "\<exists>f. parseFilter nl0 (=) [] [] [''delete'', ''conflict''] ''today'' [] [] = Inl f \<and>
     \<not> Match f (re_at ''x'' ''delete'' 200 1) \<and> \<not> Match f (re_at ''x'' ''conflict'' 200 1)"
proof -
  obtain f where f: "parseFilter nl0 (=) [] [] [''delete'', ''conflict''] ''today'' [] [] = Inl f"
    by (simp add: parseFilter_def parseStart_def parseTimeReference_def Let_def)
  have "\<not> Match f r" for r by (rule two_types_match_nothing [OF f]) simp
  then show ?thesis by (intro exI [of _ f] conjI f)
qed

text \<open>
  The commands agree: for a filter made from the flags, the summary that list and dump print
  with -s, apart from the blank line before it, is the one that summary prints, although one
  resolves partners and streams the records and the other does not, and although enumerate names
  its results the other way round.
\<close>

fun summary_line :: "line \<Rightarrow> bool" where
  "summary_line (LInfo i) = True"
| "summary_line (LTotal s) = True"
| "summary_line (LMatching s) = True"
| "summary_line (LError e) = True"
| "summary_line _ = False"

lemma resource_line_not_summary: "filter summary_line (map (resource_line dump) rs) = []"
  by (induction rs) (auto simp: resource_line_def)

theorem list_summary_agrees:
  assumes "parseFilter L M inc exc types a b w = Inl flt"
  shows "filter summary_line (run_manifest F S flt True dump True domain (m, info)) =
    filter summary_line (run_manifest F S flt False dump' True domain' (m, info))"
proof (cases m)
  case (Inl ie)
  obtain items e where ie: "ie = (items, e)" by fastforce
  obtain rs err where d: "decode_all F items e 0 = (rs, err)" by fastforce
  have u: "unresolved flt" by (rule parseFilter_unresolved [OF assms])
  let ?res = "Some (Resolve (MemberInfoMap S domain))"
  have st: "stats_of (map (resolve_partner S res) qs) = stats_of qs" for res qs
    by (rule stats_same) (simp_all add: resolve_keeps)
  have fm: "filter (Match flt) (map (resolve_partner S res) rs) = map (resolve_partner S res) (filter (Match flt) rs)" for res
    by (simp add: filter_map o_def resolve_match [OF u])
  obtain out er c where en: "enumerate_loop F S (NewAdvancedCursor items e ?res flt) = (out, er, c)" using prod_cases3 by blast
  have x: "Manifest_Stats F S flt m =
      (if err = ErrEOF then (stats_of (filter (Match flt) rs), stats_of rs, None) else (Stats_zero, Stats_zero, Some err))"
    "er = (if err = ErrEOF then None else Some err)" "Cursor_Stats c = (stats_of (filter (Match flt) rs), stats_of rs)"
    using stream_exact [where F = F and items = items and e = e and S = S and flt = flt and res = ?res] by (simp_all add: d en Inl ie fm st)
  show ?thesis
    using x en by (simp add: run_manifest_def enumerate_def Manifest_AdvancedCursor_def Inl ie resource_line_not_summary Let_def)
next
  case (Inr err)
  then show ?thesis
    by (simp add: run_manifest_def enumerate_def Manifest_Stats_def Manifest_AdvancedCursor_def)
qed

definition cmd_items :: "item list" where
  "cmd_items = [Tok (TStart ''ConflictAndDeletedManifest''), ResourceEl [] (Inl (re_at ''a'' ''delete'' 7 10)), Tok TOther,
     ResourceEl [TStart ''Path''] (Inl (re_at ''b'' ''conflict'' 3 5)), Tok TOther]"

theorem list_summary_agrees_witness:
  "\<exists>f. parseFilter nl0 (=) [] [''a''] [] [] [] [] = Inl f \<and>
     filter summary_line (run_manifest (\<lambda>n e. e) (\<lambda>_. []) f True False True None (Inl (cmd_items, ErrEOF), \<lparr>in_Modified = 1, in_Size = 9\<rparr>)) =
     filter summary_line (run_manifest (\<lambda>n e. e) (\<lambda>_. []) f False False True None (Inl (cmd_items, ErrEOF), \<lparr>in_Modified = 1, in_Size = 9\<rparr>))"
proof -
  obtain f where f: "parseFilter nl0 (=) [] [''a''] [] [] [] [] = Inl f" by (simp add: parseFilter_def Let_def)
  from list_summary_agrees [OF f] show ?thesis by (intro exI [of _ f] conjI f)
qed

end
