(* ===== verification/BacklogCmd.thy ===== *)
theory BacklogCmd imports Worker ManifestCmd Endpoint begin

text \<open>
  The command line tool for backlogs (cmd/backlog): the choice of the connections, the queries of
  each iteration and the rows that it prints.

  Regular expressions are a parameter, as in theory ManifestCmd. The queries of an iteration write
  to different elements of the slice of connections, so their order does not matter: the answers
  of an iteration are given as a list.
\<close>

section \<open>The choice of connections\<close>

definition isMatch :: "('re \<Rightarrow> string \<Rightarrow> bool) \<Rightarrow> string \<Rightarrow> 're list \<Rightarrow> bool \<Rightarrow> bool" where
  "isMatch MatchString s rs emptyValue =
     (if length rs = 0 then emptyValue else list_ex (\<lambda>re. MatchString re s) rs)"

record 're selection =
  sl_group :: "'re list"
  sl_from :: "'re list"
  sl_to :: "'re list"
  sl_member :: "'re list"
  sl_skip :: "'re list"

text \<open>The loop over the connections of one member, and the loop over members and groups.\<close>

definition choose_conns ::
  "('re \<Rightarrow> string \<Rightarrow> bool) \<Rightarrow> 're selection \<Rightarrow> Group \<Rightarrow> string \<Rightarrow> Connection list \<Rightarrow> Backlog list \<Rightarrow> Backlog list" where
  "choose_conns M r g to_host =
     fold (\<lambda>conn output.
       (let from_host = co_Host (cn_Computer conn)
        in if from_host = [] then output
           else if \<not> cn_Enabled conn then output
           else if isMatch M from_host (sl_skip r) False then output
           else if \<not> isMatch M from_host (sl_from r) True then output
           else if \<not> isMatch M from_host (sl_member r) True \<and> \<not> isMatch M to_host (sl_member r) True then output
           else output @ [new_backlog g from_host to_host]))"

definition chooseConnections :: "('re \<Rightarrow> string \<Rightarrow> bool) \<Rightarrow> 're selection \<Rightarrow> Domain \<Rightarrow> Backlog list" where
  "chooseConnections M r d =
     fold (\<lambda>g output.
       if \<not> isMatch M (g_Name g) (sl_group r) True then output
       else fold (\<lambda>member output.
           (let to_host = co_Host (mi_Computer (m_MemberInfo member))
            in if to_host = [] then output
               else if isMatch M to_host (sl_skip r) False then output
               else if \<not> isMatch M to_host (sl_to r) True then output
               else choose_conns M r g to_host (m_Connections member) output))
         (g_Members g) output) (d_Groups d) []"

text \<open>
  setup: the directory client, the domain of the computer and the configuration are the results of
  calls. On an error there are no connections.
\<close>

definition backlog_setup ::
  "gerr option \<Rightarrow> string \<times> gerr option \<Rightarrow> (string \<Rightarrow> Domain \<times> gerr option) \<Rightarrow> ('re \<Rightarrow> string \<Rightarrow> bool) \<Rightarrow> 're selection \<Rightarrow>
   string \<Rightarrow> string \<times> Backlog list \<times> gerr option" where
  "backlog_setup client_err dnc config M r domain =
     (case client_err of
        Some e \<Rightarrow> ([], [], Some e)
      | None \<Rightarrow>
          (case (if domain = [] then dnc else (domain, None)) of
             (_, Some e) \<Rightarrow> ([], [], Some e)
           | (domain, None) \<Rightarrow>
               (case config domain of
                  (_, Some e) \<Rightarrow> (domain, [], Some e)
                | (d, None) \<Rightarrow> (domain, chooseConnections M r d, None))))"

section \<open>Iterations\<close>

definition computeBacklog :: "goint list \<times> Call \<times> gerr option \<Rightarrow> Backlog \<Rightarrow> Backlog" where
  "computeBacklog answer backlog =
     (case answer of (values, call, err) \<Rightarrow>
        (let backlog = backlog\<lparr>b_Call := call, b_Err := err\<rparr>; n = length values
         in if n = length (g_Folders (b_Group backlog))
            then backlog\<lparr>b_Folders := map (\<lambda>v. \<lparr>fb_Folder = g_Folders (b_Group backlog) ! v, fb_Backlog = values ! v\<rparr>) [0..<n]\<rparr>
            else backlog))"

text \<open>A row: group, source, destination, the error or the sum, and the duration of the call.\<close>

type_synonym row = "string \<times> string \<times> string \<times> (gerr + 64 word) \<times> duration"

definition row_of :: "Backlog \<Rightarrow> row" where
  "row_of c = (g_Name (b_Group c), b_From c, b_To c,
     (case b_Err c of Some e \<Rightarrow> Inl e | None \<Rightarrow> Inr (Backlog_Sum c)), Call_Duration (b_Call c))"

definition run_timeout :: "UintOrInf \<Rightarrow> duration option" where
  "run_timeout u = (if \<not> ui_Inf u \<and> ui_Value u \<noteq> 0 then Some (sint (ui_Value u * 1000000000)) else None)"

fun run_rows :: "64 word \<Rightarrow> Backlog list \<Rightarrow> row list" where
  "run_rows minimum [] = []"
| "run_rows minimum (c # cs) =
     (if Backlog_Sum c < minimum then run_rows minimum cs else row_of c # run_rows minimum cs)"

definition backlog_run ::
  "64 word \<Rightarrow> (goint list \<times> Call \<times> gerr option) list \<Rightarrow> Backlog list \<Rightarrow> row list \<times> Backlog list" where
  "backlog_run minimum answers conns =
     (let conns = map2 computeBacklog answers conns in (run_rows minimum conns, conns))"

text \<open>The iterations of main, each with the answers that its queries get.\<close>

fun main_loop ::
  "64 word \<Rightarrow> (goint list \<times> Call \<times> gerr option) list list \<Rightarrow> Backlog list \<Rightarrow> row list list" where
  "main_loop minimum [] conns = []"
| "main_loop minimum (answers # later) conns =
     (case backlog_run minimum answers conns of (rows, conns) \<Rightarrow> rows # main_loop minimum later conns)"

text \<open>The number of iterations; None stands for no end.\<close>

definition iterations :: "UintOrInf \<Rightarrow> nat option" where
  "iterations loop =
     (let loop = (if \<not> ui_Present loop then loop\<lparr>ui_Value := 1\<rparr> else loop)
      in if \<not> ui_Inf loop \<and> ui_Value loop = 0 then Some 0
         else if ui_Inf loop then None else Some (unat (ui_Value loop)))"

definition main_timeout :: "UintOrInf \<Rightarrow> UintOrInf" where
  "main_timeout u = (if \<not> ui_Present u then u\<lparr>ui_Value := 30\<rparr> else u)"

definition main_config :: "UintOrInf \<Rightarrow> 64 word \<Rightarrow> EndpointConfig" where
  "main_config maxCall cacheSeconds =
     (let cfg = DefaultEndpointConfig;
          cfg = (if ui_Present maxCall then cfg\<lparr>ec_AcceptableCallDuration := sint (1000000000 * ui_Value maxCall)\<rparr> else cfg);
          cfg = (if cacheSeconds > 0 then cfg\<lparr>ec_Caching := True, ec_CacheDuration := sint (cacheSeconds * 1000000000)\<rparr> else cfg)
      in cfg\<lparr>ec_OfflineReconnectionInterval := Second * 60\<rparr>)"

section \<open>What is chosen\<close>

definition chosen :: "('re \<Rightarrow> string \<Rightarrow> bool) \<Rightarrow> 're selection \<Rightarrow> Group \<Rightarrow> Member \<Rightarrow> Connection \<Rightarrow> bool" where
  "chosen M r g m c \<longleftrightarrow>
     (let to_host = co_Host (mi_Computer (m_MemberInfo m)); from_host = co_Host (cn_Computer c)
      in polled g m c \<and> isMatch M (g_Name g) (sl_group r) True \<and>
         \<not> isMatch M to_host (sl_skip r) False \<and> \<not> isMatch M from_host (sl_skip r) False \<and>
         isMatch M to_host (sl_to r) True \<and> isMatch M from_host (sl_from r) True \<and>
         (isMatch M from_host (sl_member r) True \<or> isMatch M to_host (sl_member r) True))"

definition chosen_list :: "('re \<Rightarrow> string \<Rightarrow> bool) \<Rightarrow> 're selection \<Rightarrow> Domain \<Rightarrow> Backlog list" where
  "chosen_list M r d =
     concat (map (\<lambda>g. concat (map (\<lambda>m.
       map (\<lambda>c. new_backlog g (co_Host (cn_Computer c)) (co_Host (mi_Computer (m_MemberInfo m))))
         (filter (chosen M r g m) (m_Connections m))) (g_Members g))) (d_Groups d))"

lemma choose_conns_filter:
  "choose_conns M r g to_host cs out = out @ map (\<lambda>c. new_backlog g (co_Host (cn_Computer c)) to_host)
     (filter (\<lambda>c. co_Host (cn_Computer c) \<noteq> [] \<and> cn_Enabled c \<and> \<not> isMatch M (co_Host (cn_Computer c)) (sl_skip r) False \<and>
        isMatch M (co_Host (cn_Computer c)) (sl_from r) True \<and>
        (isMatch M (co_Host (cn_Computer c)) (sl_member r) True \<or> isMatch M to_host (sl_member r) True)) cs)"
  unfolding choose_conns_def by (induction cs arbitrary: out) (auto simp: Let_def)

lemma choose_chosen: "chooseConnections M r d = chosen_list M r d"
proof -
  have m: "(let to_host = co_Host (mi_Computer (m_MemberInfo m))
      in if to_host = [] then out
         else if isMatch M to_host (sl_skip r) False then out
         else if \<not> isMatch M to_host (sl_to r) True then out
         else choose_conns M r g to_host (m_Connections m) out) =
    out @ map (\<lambda>c. new_backlog g (co_Host (cn_Computer c)) (co_Host (mi_Computer (m_MemberInfo m))))
         (filter (chosen M r g m) (m_Connections m))" if "isMatch M (g_Name g) (sl_group r) True" for g m "out"
    using that by (auto simp: Let_def choose_conns_filter chosen_def polled_def intro!: arg_cong [of _ _ "map _"] filter_cong)
  have n: "\<not> isMatch M (g_Name g) (sl_group r) True \<Longrightarrow> filter (chosen M r g m) cs = []" for g m cs
    by (auto simp: chosen_def Let_def)
  have g: "(if \<not> isMatch M (g_Name g) (sl_group r) True then out
       else fold (\<lambda>member output.
           (let to_host = co_Host (mi_Computer (m_MemberInfo member))
            in if to_host = [] then output
               else if isMatch M to_host (sl_skip r) False then output
               else if \<not> isMatch M to_host (sl_to r) True then output
               else choose_conns M r g to_host (m_Connections member) output)) (g_Members g) out) =
    out @ concat (map (\<lambda>m. map (\<lambda>c. new_backlog g (co_Host (cn_Computer c)) (co_Host (mi_Computer (m_MemberInfo m))))
         (filter (chosen M r g m) (m_Connections m))) (g_Members g))" for g "out"
    by (cases "isMatch M (g_Name g) (sl_group r) True") (simp_all add: n fold_concat [OF m])
  show ?thesis unfolding chooseConnections_def chosen_list_def by (subst fold_concat [OF g]) simp
qed

section \<open>What is shown\<close>

lemma run_rows_filter: "run_rows minimum cs = map row_of (filter (\<lambda>c. minimum \<le> Backlog_Sum c) cs)"
  by (induction cs) (auto simp: not_less)

lemma compute_folders:
  assumes "length values = length (g_Folders (b_Group b))"
  shows "map fb_Backlog (b_Folders (computeBacklog (values, call, err) b)) = values"
    "map fb_Folder (b_Folders (computeBacklog (values, call, err) b)) = g_Folders (b_Group b)"
  using assms map_nth [of "values"] map_nth [of "g_Folders (b_Group b)"]
  by (simp_all add: computeBacklog_def Let_def comp_def)

text \<open>The tool and the monitor attach the counts in the same way.\<close>

lemma compute_as_monitor: "computeBacklog (values, call, err) b = fill_backlog values call err b"
proof (cases "length values = length (g_Folders (b_Group b))")
  case True
  then have "map (\<lambda>v. \<lparr>fb_Folder = g_Folders (b_Group b) ! v, fb_Backlog = values ! v\<rparr>) [0..<length values] =
      map (\<lambda>(f, v). \<lparr>fb_Folder = f, fb_Backlog = v\<rparr>) (zip (g_Folders (b_Group b)) values)"
    by (intro nth_equalityI) simp_all
  with True show ?thesis by (simp add: computeBacklog_def fill_backlog_def Let_def)
qed (simp add: computeBacklog_def fill_backlog_def Let_def)

section \<open>Properties\<close>


text \<open>
  What an iteration shows of a connection is true of that iteration, if its query was answered:
  with one count for each folder and no error, the row has the sum of the positive counts, and the
  row is left out exactly if this sum is below the minimum.
\<close>

theorem rows_exact:
  assumes "length values = length (g_Folders (b_Group b))" "(\<Sum>v \<leftarrow> values. max 0 (sint v)) < 2 ^ 64"
  shows "backlog_run minimum [(values, call, None)] [b] =
    (if (\<Sum>v \<leftarrow> values. max 0 (sint v)) < uint minimum then []
     else [(g_Name (b_Group b), b_From b, b_To b, Inr (word_of_int (\<Sum>v \<leftarrow> values. max 0 (sint v))), Call_Duration call)],
     [computeBacklog (values, call, None) b])"
proof -
  let ?c = "computeBacklog (values, call, None) b"
  have c: "b_Group ?c = b_Group b" "b_From ?c = b_From b" "b_To ?c = b_To b" "b_Err ?c = None" "b_Call ?c = call"
    by (simp_all add: computeBacklog_def Let_def)
  have "backlog_total ?c = (\<Sum>v \<leftarrow> map fb_Backlog (b_Folders ?c). max 0 (sint v))"
    by (simp add: backlog_total_def comp_def)
  then have t: "backlog_total ?c = (\<Sum>v \<leftarrow> values. max 0 (sint v))" by (simp add: compute_folders [OF assms(1)])
  have u: "uint (Backlog_Sum ?c) = (\<Sum>v \<leftarrow> values. max 0 (sint v))"
    using assms(2) total_nonneg [of ?c] unfolding t [symmetric] by (simp add: Backlog_Sum_def fold_sum backlog_total_def)
  then have s: "Backlog_Sum ?c = word_of_int (\<Sum>v \<leftarrow> values. max 0 (sint v))" by (metis word_of_int_uint)
  show ?thesis
    using u by (simp add: backlog_run_def Let_def row_of_def c s word_less_def)
qed

definition two_folders :: Group where
  "two_folders = \<lparr>g_Name = ''g'', g_ID = 1, g_Folders = [folder0, folder0], g_Members = [], g_ConfigDuration = 0\<rparr>"

theorem rows_exact_witness:
  "fst (backlog_run 5 [([7, -1], Call_zero, None)] [new_backlog two_folders ''b'' ''a'']) =
     [(''g'', ''b'', ''a'', Inr 7, 0)]"
  using rows_exact [of "[7, -1]" "new_backlog two_folders ''b'' ''a''" 5 Call_zero]
  by (simp add: new_backlog_def two_folders_def Call_Duration_def Call_zero_def)

section \<open>What goes wrong\<close>

text \<open>
  A failed query of a later iteration keeps the counts of an earlier one, as the slice of connections
  is used again, so whether the error is shown depends on these old counts.
\<close>

lemma stale_counts:
  "main_loop 5 [[([7, 0], Call_zero, None)], [([], Call_zero, Some ErrEOF)]] [new_backlog two_folders ''b'' ''a''] =
     [[(''g'', ''b'', ''a'', Inr 7, 0)], [(''g'', ''b'', ''a'', Inl ErrEOF, 0)]]"
  "main_loop 5 [[([], Call_zero, Some ErrEOF)], [([], Call_zero, Some ErrEOF)]] [new_backlog two_folders ''b'' ''a''] = [[], []]"
  by (simp_all add: backlog_run_def computeBacklog_def row_of_def Backlog_Sum_def new_backlog_def two_folders_def
      Call_Duration_def Call_zero_def Let_def)

text \<open>An infinite -unresponsive sets the acceptable duration to 0, and -cache 0 leaves the default cache on.\<close>

lemma infinite_is_zero:
  "ec_AcceptableCallDuration (main_config (fst (UintOrInf_Set ''inf'' UintOrInf_zero)) 5) = 0"
  "ec_Caching (main_config UintOrInf_zero 0)"
  by (simp_all add: main_config_def flag_run_simps DefaultEndpointConfig_def)

end
