(* ===== verification/ManifestMain.thy ===== *)
theory ManifestMain imports ManifestCmd begin

text \<open>
  The main function of the manifest tool (cmd/dfsrmanifest: main.go, output.go, usage.go,
  resolve_windows.go): the paths of the command line are read by one goroutine each, whose lines go
  through a channel of 10240 lines, and main prints the channels one after the other.

  A line is whatever run of theory ManifestCmd hands to Printf; the machine does not depend on it.
  What the flags were parsed to is an argument, and so are the results of creating the files of
  the profiles and the directory client.
\<close>

section \<open>Usage\<close>

definition makeUsage :: "string \<Rightarrow> string \<Rightarrow> string" where
  "makeUsage program command =
     (let args = ''[-i regexp] [-e regexp] [-after date] [-before date] <path> [path...]'';
          commands = ''summary, list or dump'';
          indent = ''       ''
      in if command = [] then
           ''usage: '' @ program @ '' <command> '' @ args @ [CHR 10] @ indent @ ''where <command> is one of '' @ commands @ [CHR 10]
         else ''usage: '' @ program @ '' '' @ command @ '' '' @ args @ [CHR 10])"

text \<open>compileRegex (filter.go); the left result is the expression, the right one the message of usage.\<close>

definition compileRegex :: "(string \<Rightarrow> 're + gerr) \<Rightarrow> string \<Rightarrow> 're option + string" where
  "compileRegex Compile re =
     (if re = [] then Inl None
      else (case Compile re of
              Inr err \<Rightarrow> Inr (''Unable to compile regular expression '' @ CHR 0x22 # re @ CHR 0x22 # '': '' @ Error err @ [CHR 10])
            | Inl c \<Rightarrow> Inl (Some c)))"

section \<open>The configuration of the domain (resolve_windows.go)\<close>

definition manifest_resolve ::
  "gerr option \<Rightarrow> string \<times> gerr option \<Rightarrow> (string \<Rightarrow> Domain \<times> gerr option) \<Rightarrow> Domain \<Rightarrow> string \<Rightarrow> string \<times> Domain \<times> gerr option" where
  "manifest_resolve client_err dnc config no_data domain =
     (case client_err of
        Some e \<Rightarrow> ([], no_data, Some e)
      | None \<Rightarrow>
          (case (if domain = [] then dnc else (domain, None)) of
             (_, Some e) \<Rightarrow> ([], no_data, Some e)
           | (domain, None) \<Rightarrow> (case config domain of (data, err) \<Rightarrow> (domain, data, err))))"

text \<open>On other systems (resolve_stub.go).\<close>

definition manifest_resolve_stub :: "Domain \<Rightarrow> string \<Rightarrow> string \<times> Domain \<times> gerr option" where
  "manifest_resolve_stub no_data domain =
     (domain, no_data, Some (ErrOther 0 ''domain resolution not supported on non-windows platforms''))"

section \<open>The goroutines and the printing\<close>

text \<open>
  \<open>mg_todo\<close> has the lines that a goroutine has yet to send, \<open>mg_queue\<close> its channel; \<open>mg_at\<close> is the index of the
  loop of main, and \<open>mg_mem\<close> the error of creating the file of the memory profile, if there is one, which ends the
  program after the first path.
\<close>

record 'l mainsys =
  mg_todo :: "'l list list"
  mg_queue :: "'l list list"
  mg_closed :: "bool list"
  mg_at :: nat
  mg_printed :: "'l list"
  mg_mem :: "gerr option"
  mg_exit :: "nat option"

definition bufferSize :: nat where "bufferSize = 10240"

definition main_begin :: "gerr option \<Rightarrow> 'l list list \<Rightarrow> 'l mainsys" where
  "main_begin mem lines = \<lparr>mg_todo = lines, mg_queue = map (\<lambda>_. []) lines, mg_closed = map (\<lambda>_. False) lines,
     mg_at = 0, mg_printed = [], mg_mem = mem, mg_exit = None\<rparr>"

text \<open>Printf sends one line, once there is room.\<close>

definition Output_Printf :: "nat \<Rightarrow> 'l mainsys \<Rightarrow> 'l mainsys option" where
  "Output_Printf i s =
     (if i < length (mg_todo s) \<and> length (mg_queue s ! i) < bufferSize then
        (case mg_todo s ! i of
           l # rest \<Rightarrow> Some (s\<lparr>mg_todo := (mg_todo s)[i := rest], mg_queue := (mg_queue s)[i := mg_queue s ! i @ [l]]\<rparr>)
         | [] \<Rightarrow> None)
      else None)"

text \<open>The deferred close at the end of run.\<close>

definition Output_close :: "nat \<Rightarrow> 'l mainsys \<Rightarrow> 'l mainsys option" where
  "Output_close i s =
     (if i < length (mg_todo s) \<and> mg_todo s ! i = [] \<and> \<not> mg_closed s ! i
      then Some (s\<lparr>mg_closed := (mg_closed s)[i := True]\<rparr>) else None)"

text \<open>main receives a line and prints it, or goes on to the next channel when this one is closed and empty.\<close>

definition main_print :: "'l mainsys \<Rightarrow> 'l mainsys option" where
  "main_print s =
     (if mg_at s < length (mg_todo s) then
        (case mg_queue s ! mg_at s of
           l # q \<Rightarrow> Some (s\<lparr>mg_queue := (mg_queue s)[mg_at s := q], mg_printed := mg_printed s @ [l]\<rparr>)
         | [] \<Rightarrow>
             (if mg_closed s ! mg_at s
              then Some (if mg_at s = 0 \<and> mg_mem s \<noteq> None then s\<lparr>mg_exit := Some 2\<rparr> else s\<lparr>mg_at := Suc (mg_at s)\<rparr>)
              else None))
      else None)"

datatype main_event = MgPrintf nat | MgClose nat | MgPrint

definition manifest_step :: "main_event \<Rightarrow> 'l mainsys \<Rightarrow> 'l mainsys option" where
  "manifest_step e s =
     (if mg_exit s \<noteq> None then None
      else (case e of MgPrintf i \<Rightarrow> Output_Printf i s | MgClose i \<Rightarrow> Output_close i s | MgPrint \<Rightarrow> main_print s))"

section \<open>main\<close>

record 're manifest_flags =
  mf_include :: "'re list"
  mf_exclude :: "'re list"
  mf_types :: "'re list"
  mf_after :: string
  mf_before :: string
  mf_when :: string
  mf_domain :: string
  mf_resolve :: bool
  mf_summary :: bool
  mf_paths :: "string list option list"

datatype manifest_result =
    Usage string              \<comment> \<open>the message, with exit code 2\<close>
  | BadTime string gerr
  | Exit2 string gerr
  | Ran "line mainsys"

definition manifest_main ::
  "(64 word \<Rightarrow> gerr \<Rightarrow> gerr) \<Rightarrow> (uuid \<Rightarrow> string) \<Rightarrow> bool \<Rightarrow> (string list \<Rightarrow> bool) \<Rightarrow> (string list \<Rightarrow> (manifest \<times> Info) + gerr) \<Rightarrow>
   now_lib \<Rightarrow> ('re \<Rightarrow> string \<Rightarrow> bool) \<Rightarrow> (string \<Rightarrow> string \<times> Domain \<times> gerr option) \<Rightarrow> Domain \<Rightarrow> gerr option \<Rightarrow> gerr option \<Rightarrow>
   string list \<Rightarrow> 're manifest_flags \<Rightarrow> manifest_result" where
  "manifest_main F S windows regular BufferedFile L MatchString resolve_domain no_config cpu mem args fl =
     (if length args < 2 then Usage ''No command specified.''
      else
        (case command_flags (args ! 1) (mf_summary fl) of
           None \<Rightarrow> Usage (''Unknown command '' @ CHR 0x22 # args ! 1 @ [CHR 0x22, CHR ''.''])
         | Some (listing, dump, summarize) \<Rightarrow>
             (if cpu \<noteq> None then Exit2 ''Unable to create cpu profile output file'' (the cpu)
              else if length (mf_paths fl) = 0 then Usage ''No paths specified.''
              else
                (case parseFilter L MatchString (mf_include fl) (mf_exclude fl) (mf_types fl) (mf_after fl) (mf_before fl) (mf_when fl) of
                   Inr (ExitUsage msg) \<Rightarrow> Usage msg
                 | Inr (ExitTime msg err) \<Rightarrow> BadTime msg err
                 | Inl flt \<Rightarrow>
                     (case (if mf_resolve fl then resolve_domain (mf_domain fl) else (mf_domain fl, no_config, None)) of
                        (_, _, Some err) \<Rightarrow> Exit2 ''Unable to retrieve Active Directory domain configuration'' err
                      | (_, config, None) \<Rightarrow>
                          Ran (main_begin mem
                            (map (\<lambda>path. run_path F S windows regular BufferedFile path flt listing dump summarize (Some config))
                              (mf_paths fl))))))))"

section \<open>The invariant\<close>

text \<open>
  A goroutine whose channel main has not come to has sent what waits there; of the current one,
  some lines are printed already; the channels before it are closed and empty.
\<close>

definition mg_inv :: "'l list list \<Rightarrow> 'l mainsys \<Rightarrow> bool" where
  "mg_inv lines s \<longleftrightarrow> length (mg_todo s) = length lines \<and> length (mg_queue s) = length lines \<and> length (mg_closed s) = length lines \<and>
     mg_at s \<le> length lines \<and>
     (\<forall>i < length lines. mg_closed s ! i \<longrightarrow> mg_todo s ! i = []) \<and>
     (\<forall>i < mg_at s. mg_closed s ! i \<and> mg_queue s ! i = []) \<and>
     (\<forall>i < length lines. mg_at s < i \<longrightarrow> mg_queue s ! i @ mg_todo s ! i = lines ! i) \<and>
     (\<exists>got. mg_printed s = concat (take (mg_at s) lines) @ got \<and>
        (if mg_at s < length lines then got @ mg_queue s ! mg_at s @ mg_todo s ! mg_at s = lines ! mg_at s else got = []))"

lemma mg_invI:
  assumes "length (mg_todo s) = length lines" "length (mg_queue s) = length lines" "length (mg_closed s) = length lines"
    "mg_at s \<le> length lines" "\<And>i. i < length lines \<Longrightarrow> mg_closed s ! i \<Longrightarrow> mg_todo s ! i = []"
    "\<And>i. i < mg_at s \<Longrightarrow> mg_closed s ! i \<and> mg_queue s ! i = []"
    "\<And>i. i < length lines \<Longrightarrow> mg_at s < i \<Longrightarrow> mg_queue s ! i @ mg_todo s ! i = lines ! i"
    "mg_printed s = concat (take (mg_at s) lines) @ got"
    "if mg_at s < length lines then got @ mg_queue s ! mg_at s @ mg_todo s ! mg_at s = lines ! mg_at s else got = []"
  shows "mg_inv lines s"
  using assms unfolding mg_inv_def by blast

lemma mg_inv_begin: "mg_inv lines (main_begin mem lines)"
  by (auto simp: mg_inv_def main_begin_def)

lemma mg_invD:
  assumes "mg_inv lines s"
  shows "length (mg_todo s) = length lines" "length (mg_queue s) = length lines" "length (mg_closed s) = length lines"
    "mg_at s \<le> length lines" "i < length lines \<Longrightarrow> mg_closed s ! i \<Longrightarrow> mg_todo s ! i = []"
    "i < mg_at s \<Longrightarrow> mg_closed s ! i" "i < mg_at s \<Longrightarrow> mg_queue s ! i = []"
    "i < length lines \<Longrightarrow> mg_at s < i \<Longrightarrow> mg_queue s ! i @ mg_todo s ! i = lines ! i"
  using assms unfolding mg_inv_def by blast+

lemma inv_Printf:
  assumes "mg_inv lines s" "Output_Printf i s = Some t"
  shows "mg_inv lines t"
proof -
  note inv = mg_invD [OF assms(1)]
  obtain l rest where l: "i < length lines" "mg_todo s ! i = l # rest"
    and t: "t = s\<lparr>mg_todo := (mg_todo s)[i := rest], mg_queue := (mg_queue s)[i := mg_queue s ! i @ [l]]\<rparr>"
    using assms(2) inv(1) by (auto simp: Output_Printf_def split: if_splits list.splits)
  have i: "\<not> mg_closed s ! i" "mg_at s \<le> i"
    using inv(5) [of i] inv(6) [of i] l(1,2) by (auto simp: not_less [symmetric])
  obtain got where got: "mg_printed s = concat (take (mg_at s) lines) @ got"
    "got @ mg_queue s ! mg_at s @ mg_todo s ! mg_at s = lines ! mg_at s" using assms(1) l(1) i(2) by (auto simp: mg_inv_def)
  show ?thesis
  proof (rule mg_invI [where got = got])
    fix j assume j: "j < length lines" "mg_closed t ! j"
    then show "mg_todo t ! j = []" using inv(5) [of j] i(1) by (cases "j = i") (simp_all add: t)
  next
    fix j assume j: "j < mg_at t"
    then show "mg_closed t ! j \<and> mg_queue t ! j = []" using inv(6) [of j] inv(7) [of j] i(2) by (simp add: t)
  next
    fix j assume j: "j < length lines" "mg_at t < j"
    then show "mg_queue t ! j @ mg_todo t ! j = lines ! j"
      using inv(8) [of j] l inv(1,2) by (cases "j = i") (simp_all add: t)
  next
    show "if mg_at t < length lines then got @ mg_queue t ! mg_at t @ mg_todo t ! mg_at t = lines ! mg_at t else got = []"
      using got l(1,2) i(2) inv(1,2) by (cases "mg_at s = i") (simp_all add: t)
  qed (use inv got in \<open>simp_all add: t\<close>)
qed

lemma inv_close:
  assumes "mg_inv lines s" "Output_close i s = Some t"
  shows "mg_inv lines t"
proof -
  note inv = mg_invD [OF assms(1)]
  have c: "i < length lines" "mg_todo s ! i = []" and t: "t = s\<lparr>mg_closed := (mg_closed s)[i := True]\<rparr>"
    using assms(2) inv(1) by (simp_all add: Output_close_def split: if_splits)
  have closed: "mg_closed t ! j \<longleftrightarrow> j = i \<or> mg_closed s ! j" if "j < length lines" for j
    using that inv(3) c(1) by (auto simp: t nth_list_update)
  obtain got where got: "mg_printed s = concat (take (mg_at s) lines) @ got"
    "if mg_at s < length lines then got @ mg_queue s ! mg_at s @ mg_todo s ! mg_at s = lines ! mg_at s else got = []"
    using assms(1) by (auto simp: mg_inv_def)
  show ?thesis
  proof (rule mg_invI [where got = got])
    fix j assume "j < length lines" "mg_closed t ! j"
    then show "mg_todo t ! j = []" using closed [of j] inv(5) [of j] c by (auto simp: t)
  next
    fix j assume j: "j < mg_at t"
    then have "j < mg_at s" "j < length lines" using inv(4) by (simp_all add: t)
    then show "mg_closed t ! j \<and> mg_queue t ! j = []" using closed [of j] inv(6,7) [of j] by (simp add: t)
  next
    fix j assume "j < length lines" "mg_at t < j"
    then show "mg_queue t ! j @ mg_todo t ! j = lines ! j" using inv(8) [of j] by (simp add: t)
  next
    show "if mg_at t < length lines then got @ mg_queue t ! mg_at t @ mg_todo t ! mg_at t = lines ! mg_at t else got = []"
      using got(2) by (simp add: t)
  qed (use inv(1-4) got(1) in \<open>simp_all add: t\<close>)
qed

lemma inv_print:
  assumes "mg_inv lines s" "main_print s = Some t"
  shows "mg_inv lines t"
proof -
  have lt: "mg_at s < length lines" using assms by (auto simp: main_print_def mg_inv_def split: if_splits)
  obtain got where got: "mg_printed s = concat (take (mg_at s) lines) @ got"
    "got @ mg_queue s ! mg_at s @ mg_todo s ! mg_at s = lines ! mg_at s" using assms(1) lt by (auto simp: mg_inv_def)
  show ?thesis
  proof (cases "mg_queue s ! mg_at s")
    case (Cons l q)
    then have t: "t = s\<lparr>mg_queue := (mg_queue s)[mg_at s := q], mg_printed := mg_printed s @ [l]\<rparr>"
      using assms lt by (auto simp: main_print_def split: if_splits)
    note inv = mg_invD [OF assms(1)]
    show ?thesis
    proof (rule mg_invI [where got = "got @ [l]"])
      fix j assume "j < mg_at t"
      then show "mg_closed t ! j \<and> mg_queue t ! j = []" using inv(6) [of j] inv(7) [of j] by (simp add: t)
    next
      fix j assume "j < length lines" "mg_at t < j"
      then show "mg_queue t ! j @ mg_todo t ! j = lines ! j" using inv(8) [of j] by (simp add: t)
    next
      fix j assume "j < length lines" "mg_closed t ! j"
      then show "mg_todo t ! j = []" using inv(5) [of j] by (simp add: t)
    next
      show "if mg_at t < length lines then (got @ [l]) @ mg_queue t ! mg_at t @ mg_todo t ! mg_at t = lines ! mg_at t else got @ [l] = []"
        using got Cons lt inv(2) by (simp add: t)
    qed (use inv got in \<open>simp_all add: t\<close>)
  next
    case Nil
    with assms(2) have c: "mg_closed s ! mg_at s"
      and t: "t = (if mg_at s = 0 \<and> mg_mem s \<noteq> None then s\<lparr>mg_exit := Some 2\<rparr> else s\<lparr>mg_at := Suc (mg_at s)\<rparr>)"
      by (simp_all only: main_print_def list.case option.inject split: if_splits) simp_all
    show ?thesis
    proof (cases "mg_at s = 0 \<and> mg_mem s \<noteq> None")
      case True
      then have "t = s\<lparr>mg_exit := Some 2\<rparr>" using t by simp
      then have "mg_inv lines t = mg_inv lines s" by (simp add: mg_inv_def)
      with assms(1) show ?thesis by simp
    next
      case False
      have td: "mg_todo s ! mg_at s = []" using assms(1) lt c by (simp add: mg_inv_def)
      have p: "mg_printed s = concat (take (Suc (mg_at s)) lines)"
        using got Nil lt td by (simp add: take_Suc_conv_app_nth)
      have b: "\<forall>i < Suc (mg_at s). mg_closed s ! i \<and> mg_queue s ! i = []"
        using assms(1) c Nil by (auto simp: mg_inv_def less_Suc_eq)
      have e: "mg_queue s ! Suc (mg_at s) @ mg_todo s ! Suc (mg_at s) = lines ! Suc (mg_at s)" if "Suc (mg_at s) < length lines"
        using assms(1) that by (simp add: mg_inv_def)
      have t': "t = s\<lparr>mg_at := Suc (mg_at s)\<rparr>" by (simp only: t False if_False)
      show ?thesis using assms(1) lt p b e by (simp add: t' mg_inv_def)
    qed
  qed
qed

lemma mg_inv_step: "mg_inv lines s \<Longrightarrow> manifest_step e s = Some t \<Longrightarrow> mg_inv lines t"
  by (auto simp: manifest_step_def split: if_splits main_event.splits intro: inv_Printf inv_close inv_print)

definition mg_init :: "'l list list \<Rightarrow> 'l mainsys \<Rightarrow> bool" where
  "mg_init lines s \<longleftrightarrow> (\<exists>mem. s = main_begin mem lines)"

interpretation main_machine: inductive_invariant manifest_step "mg_init lines" "mg_inv lines" for lines :: "'l list list"
  by unfold_locales (auto simp: mg_init_def mg_inv_begin intro: mg_inv_step)

section \<open>The number of steps\<close>

text \<open>The steps that are left: one to send and one to print a line, one for each close and one for each channel.\<close>

definition steps_left :: "'l mainsys \<Rightarrow> nat" where
  "steps_left s = (\<Sum>l \<leftarrow> mg_todo s. 2 * length l) + (\<Sum>q \<leftarrow> mg_queue s. length q) + (\<Sum>c \<leftarrow> mg_closed s. if c then 0 else 1) +
     (length (mg_todo s) - mg_at s)"

lemma sum_update:
  fixes f :: "'a \<Rightarrow> nat"
  assumes "k < length xs"
  shows "(\<Sum>x \<leftarrow> xs[k := y]. f x) + f (xs ! k) = (\<Sum>x \<leftarrow> xs. f x) + f y"
proof -
  have "f (xs ! k) \<le> (\<Sum>x \<leftarrow> xs. f x)" using elem_le_sum_list [of k "map f xs"] assms by simp
  with assms show ?thesis by (simp add: map_update sum_list_update)
qed

lemma step_counts:
  assumes "mg_inv lines s" "manifest_step e s = Some t" "mg_exit t = None"
  shows "Suc (steps_left t) = steps_left s"
proof -
  have len: "length (mg_todo s) = length lines" "length (mg_queue s) = length lines" "length (mg_closed s) = length lines"
    using assms(1) by (simp_all add: mg_inv_def)
  show ?thesis
  proof (cases e)
    case (MgPrintf i)
    then obtain l rest where l: "i < length lines" "mg_todo s ! i = l # rest"
      "t = s\<lparr>mg_todo := (mg_todo s)[i := rest], mg_queue := (mg_queue s)[i := mg_queue s ! i @ [l]]\<rparr>"
      using assms len by (auto simp: manifest_step_def Output_Printf_def split: if_splits list.splits)
    with len show ?thesis
      using sum_update [of i "mg_todo s" "\<lambda>l. 2 * length l" rest] sum_update [of i "mg_queue s" length "mg_queue s ! i @ [l]"]
      by (simp add: steps_left_def)
  next
    case (MgClose i)
    then have "i < length lines" "\<not> mg_closed s ! i" "t = s\<lparr>mg_closed := (mg_closed s)[i := True]\<rparr>"
      using assms len by (auto simp: manifest_step_def Output_close_def split: if_splits)
    with len show ?thesis
      using sum_update [of i "mg_closed s" "\<lambda>c. if c then 0 else 1" True] by (simp add: steps_left_def)
  next
    case MgPrint
    then have p: "main_print s = Some t" "mg_at s < length lines"
      using assms len by (auto simp: manifest_step_def main_print_def split: if_splits)
    show ?thesis
    proof (cases "mg_queue s ! mg_at s")
      case (Cons l q)
      then have "t = s\<lparr>mg_queue := (mg_queue s)[mg_at s := q], mg_printed := mg_printed s @ [l]\<rparr>"
        using p len by (simp add: main_print_def)
      with len p(2) Cons show ?thesis
        using sum_update [of "mg_at s" "mg_queue s" length q] by (simp add: steps_left_def)
    next
      case Nil
      then have "t = s\<lparr>mg_at := Suc (mg_at s)\<rparr>" using p assms(3) len by (auto simp: main_print_def split: if_splits)
      with len p(2) show ?thesis by (simp add: steps_left_def)
    qed
  qed
qed

lemma steps_left_begin: "steps_left (main_begin mem lines) = 2 * length (concat lines) + 2 * length lines"
  by (induction lines) (simp_all add: steps_left_def main_begin_def)

text \<open>As long as main has a channel to read, something can be done: no channel is waited for in vain.\<close>

lemma main_progress:
  assumes "mg_inv lines s" "mg_exit s = None" "mg_at s < length lines"
  shows "\<exists>e. manifest_step e s \<noteq> None"
proof -
  note inv = mg_invD [OF assms(1)]
  let ?i = "mg_at s"
  consider "mg_queue s ! ?i \<noteq> []" | "mg_queue s ! ?i = []" "mg_closed s ! ?i"
    | "mg_queue s ! ?i = []" "\<not> mg_closed s ! ?i" "mg_todo s ! ?i = []"
    | "mg_queue s ! ?i = []" "mg_todo s ! ?i \<noteq> []" by blast
  then show ?thesis
  proof cases
    case 1
    then have "manifest_step MgPrint s \<noteq> None"
      using assms(2,3) inv(1) by (cases "mg_queue s ! ?i") (simp_all add: manifest_step_def main_print_def)
    then show ?thesis ..
  next
    case 2
    then have "manifest_step MgPrint s \<noteq> None" using assms(2,3) inv(1) by (simp add: manifest_step_def main_print_def)
    then show ?thesis ..
  next
    case 3
    then have "manifest_step (MgClose ?i) s \<noteq> None" using assms(2,3) inv(1) by (simp add: manifest_step_def Output_close_def)
    then show ?thesis ..
  next
    case 4
    then have "manifest_step (MgPrintf ?i) s \<noteq> None"
      using assms(2,3) inv(1) by (cases "mg_todo s ! ?i") (simp_all add: manifest_step_def Output_Printf_def bufferSize_def)
    then show ?thesis ..
  qed
qed

lemma main_finished:
  assumes "mg_inv lines s" "mg_at s = length lines"
  shows "mg_printed s = concat lines" "steps_left s = 0"
proof -
  note inv = mg_invD [OF assms(1)]
  show "mg_printed s = concat lines" using assms by (auto simp: mg_inv_def)
  have all: "mg_closed s ! i" "mg_queue s ! i = []" "mg_todo s ! i = []" if "i < length lines" for i
    using inv(5) [of i] inv(6) [of i] inv(7) [of i] that assms(2) by simp_all
  have "(\<Sum>l \<leftarrow> mg_todo s. 2 * length l) = 0" using all inv(1) by (auto simp: sum_list_eq_0_iff in_set_conv_nth)
  moreover have "(\<Sum>q \<leftarrow> mg_queue s. length q) = 0" using all inv(2) by (auto simp: sum_list_eq_0_iff in_set_conv_nth)
  moreover have "(\<Sum>c \<leftarrow> mg_closed s. if c then 0 else 1) = (0::nat)" using all inv(3) by (auto simp: sum_list_eq_0_iff in_set_conv_nth)
  ultimately show "steps_left s = 0" using inv(1) assms(2) by (simp add: steps_left_def)
qed

lemma step_mem: "manifest_step e s = Some t \<Longrightarrow> mg_mem s = None \<Longrightarrow> mg_mem t = None \<and> mg_exit t = None"
  by (cases e) (auto simp: manifest_step_def Output_Printf_def Output_close_def main_print_def split: if_splits list.splits)

lemma run_counts:
  assumes "mg_inv lines s" "mg_mem s = None" "run manifest_step s es = Some t"
  shows "steps_left s = length es + steps_left t \<and> mg_inv lines t \<and> mg_mem t = None"
  using assms
proof (induction es arbitrary: s)
  case (Cons e es)
  then obtain u where u: "manifest_step e s = Some u" "run manifest_step u es = Some t" by (auto split: option.splits)
  have "mg_inv lines u" "mg_mem u = None" "mg_exit u = None"
    using mg_inv_step [OF Cons.prems(1) u(1)] step_mem [OF u(1) Cons.prems(2)] by simp_all
  with Cons.IH [OF _ _ u(2)] step_counts [OF Cons.prems(1) u(1)] show ?case by simp
qed simp

lemma run_exit: "mg_exit s = None \<Longrightarrow> mg_mem s = None \<Longrightarrow> run manifest_step s es = Some t \<Longrightarrow> mg_exit t = None"
proof (induction es arbitrary: s)
  case (Cons e es)
  then obtain u where u: "manifest_step e s = Some u" "run manifest_step u es = Some t" by (auto split: option.splits)
  with Cons.IH [OF _ _ u(2)] step_mem [OF u(1)] Cons.prems show ?case by simp
qed simp

text \<open>A run of main without a memory profile that cannot go on has come to the end of the last channel.\<close>

lemma main_stuck:
  assumes "run manifest_step (main_begin None lines) es = Some s" "\<forall>e. manifest_step e s = None"
  shows "mg_at s = length lines" "mg_inv lines s"
proof -
  have b: "mg_mem (main_begin None lines) = None" "mg_exit (main_begin None lines) = None" by (simp_all add: main_begin_def)
  show inv: "mg_inv lines s" using run_counts [OF mg_inv_begin b(1) assms(1)] by simp
  show "mg_at s = length lines"
    using main_progress [OF inv run_exit [OF b(2,1) assms(1)]] mg_invD(4) [OF inv] assms(2) by force
qed

section \<open>What the tool prints\<close>



text \<open>A command line with two paths that have no manifest, of which the second is read first.\<close>

definition two_flags :: "nat manifest_flags" where
  "two_flags = \<lparr>mf_include = [], mf_exclude = [], mf_types = [], mf_after = [], mf_before = [], mf_when = [], mf_domain = [],
     mf_resolve = False, mf_summary = False, mf_paths = [None, None]\<rparr>"

definition two_schedule :: "main_event list" where
  "two_schedule = [MgPrintf 1, MgClose 1, MgPrintf 0, MgPrint, MgClose 0, MgPrint, MgPrint, MgPrint]"

definition two_done :: "line mainsys" where
  "two_done = \<lparr>mg_todo = [[], []], mg_queue = [[], []], mg_closed = [True, True], mg_at = 2,
     mg_printed = [LNotFound None, LNotFound None], mg_mem = None, mg_exit = None\<rparr>"

abbreviation two_lines :: "line list list" where "two_lines \<equiv> [[LNotFound None], [LNotFound None]]"

lemmas mg_run_simps = manifest_step_def Output_Printf_def Output_close_def main_print_def main_begin_def bufferSize_def

lemma two_run: "run manifest_step (main_begin None two_lines) two_schedule = Some two_done"
  by (simp add: two_schedule_def mg_run_simps two_done_def)

lemma two_stuck: "\<forall>e. manifest_step e two_done = None"
  by (auto simp: mg_run_simps two_done_def less_Suc_eq split: main_event.split)

lemma two_main:
  "manifest_main F S True (\<lambda>_. False) (\<lambda>_. Inr ErrEOF) nl0 (\<lambda>_ _. True) (\<lambda>d. (d, d0, None))
     d0 None None [''dfsrmanifest'', ''list''] two_flags = Ran (main_begin None two_lines)"
  by (simp add: manifest_main_def two_flags_def command_flags_def ToLower_def lower_char_def parseFilter_def regex_filters_def
      run_path_def Find_def)



end
