(* ===== verification/Element.thy ===== *)
theory Element imports ManifestCmd "HOL-Library.Monad_Syntax" begin

text \<open>
  The decoding of one element of a manifest (manifest/resource.go, time.go, type.go), over what
  encoding/xml does with a struct: the children of the element are looked at in order; a child
  whose local name is that of a field is decoded into the field, over what an earlier child of
  that name left there, and any other child is skipped. A string or number is decoded from the text
  directly in its element. An element whose UnmarshalXML returns before its end is an error.

  The children of an element are trees; \<open>Bad\<close> stands for the place at which the input ends or is
  not XML, which the decoder reports from there on. Attributes, comments and processing
  instructions are looked at by no decoder of the package and are left out of the trees.
  Package uuid is a parameter, as are the abbreviations of time zones with their offsets.
\<close>

section \<open>time.Parse with TimeFormat (time.go)\<close>

text \<open>
  The layout ''MST 2006:1:2-15:4:5'': a zone, a space, a year of four digits, then numbers of one or two
  digits. A date is what was read, before it becomes an instant.
\<close>

record date =
  da_Year :: nat
  da_Month :: nat
  da_Day :: nat
  da_Hour :: nat
  da_Min :: nat
  da_Sec :: nat
  da_Nsec :: nat

text \<open>
  The abbreviation of a zone other than UTC at the start of a string has a length; its offset in seconds
  at a wall-clock time is that of the local zone, or 0 when the abbreviation is not known there. The error is
  a ParseError, which quotes the value.
\<close>

record time_lib =
  tl_zone :: "string \<Rightarrow> nat option"
  tl_offset :: "string \<Rightarrow> int \<Rightarrow> int"
  tl_error :: "string \<Rightarrow> gerr"

definition leap :: "nat \<Rightarrow> bool" where
  "leap y \<longleftrightarrow> y mod 4 = 0 \<and> (y mod 100 \<noteq> 0 \<or> y mod 400 = 0)"

definition daysIn :: "nat \<Rightarrow> nat \<Rightarrow> nat" where
  "daysIn m y = (if m = 2 \<and> leap y then 29 else [31, 28, 31, 30, 31, 30, 31, 31, 30, 31, 30, 31] ! (m - 1))"

text \<open>The days before a year, counted from January 1 of year 1, and the instant of a date in UTC.\<close>

definition days_before_year :: "nat \<Rightarrow> int" where
  "days_before_year y = (let p = int y - 1 in 365 * p + p div 4 - p div 100 + p div 400)"

definition date_seconds :: "date \<Rightarrow> int" where
  "date_seconds d =
     (days_before_year (da_Year d) + int (\<Sum>m \<leftarrow> [1..<da_Month d]. daysIn m (da_Year d)) + int (da_Day d) - 1) * 86400 +
     int (da_Hour d) * 3600 + int (da_Min d) * 60 + int (da_Sec d)"

definition date_instant :: "date \<Rightarrow> time" where
  "date_instant d = date_seconds d * Second + int (da_Nsec d)"

text \<open>A number of one or two digits, the year, the zone, and the literal parts of the layout.\<close>

definition getnum :: "string \<Rightarrow> (nat \<times> string) option" where
  "getnum s =
     (case s of
        [] \<Rightarrow> None
      | c # s \<Rightarrow>
          (case digit_val c of
             None \<Rightarrow> None
           | Some a \<Rightarrow>
               (case s of
                  [] \<Rightarrow> Some (a, [])
                | c' # s' \<Rightarrow> (case digit_val c' of None \<Rightarrow> Some (a, s) | Some b \<Rightarrow> Some (a * 10 + b, s')))))"

definition getnum_in :: "nat \<Rightarrow> nat \<Rightarrow> string \<Rightarrow> (nat \<times> string) option" where
  "getnum_in lo hi s = do { (n, s) \<leftarrow> getnum s; if lo \<le> n \<and> n \<le> hi then Some (n, s) else None }"

definition getyear :: "string \<Rightarrow> (nat \<times> string) option" where
  "getyear s = (if length s < 4 then None else do { y \<leftarrow> parse_digits 0 (take 4 s); Some (y, drop 4 s) })"

definition getzone :: "time_lib \<Rightarrow> string \<Rightarrow> (string option \<times> string) option" where
  "getzone L s =
     (if take 3 s = ''UTC'' then Some (None, drop 3 s)
      else do { n \<leftarrow> tl_zone L s; Some (Some (take n s), drop n s) })"

definition skip_space :: "string \<Rightarrow> string option" where
  "skip_space s = (if s \<noteq> [] \<and> hd s \<noteq> CHR '' '' then None else Some (dropWhile (\<lambda>c. c = CHR '' '') s))"

definition skip_char :: "char \<Rightarrow> string \<Rightarrow> string option" where
  "skip_char c s = (if s \<noteq> [] \<and> hd s = c then Some (tl s) else None)"

text \<open>A fraction of a second may follow although the layout has none; digits after the ninth do not count.\<close>

definition getfraction :: "string \<Rightarrow> nat \<times> string" where
  "getfraction s =
     (let ds = takeWhile (\<lambda>c. digit_val c \<noteq> None) (tl s); n = min 9 (length ds)
      in if s \<noteq> [] \<and> hd s \<in> {CHR ''.'', CHR '',''} \<and> ds \<noteq> [] then
           ((case parse_digits 0 (take n ds) of None \<Rightarrow> 0 | Some v \<Rightarrow> v * 10 ^ (9 - n)), drop (length ds) (tl s))
         else (0, s))"

definition parse_date :: "string \<Rightarrow> date option" where
  "parse_date s = do {
     (y, s) \<leftarrow> getyear s; s \<leftarrow> skip_char (CHR '':'') s;
     (mo, s) \<leftarrow> getnum_in 1 12 s; s \<leftarrow> skip_char (CHR '':'') s;
     (d, s) \<leftarrow> getnum s; s \<leftarrow> skip_char (CHR ''-'') s;
     (h, s) \<leftarrow> getnum_in 0 23 s; s \<leftarrow> skip_char (CHR '':'') s;
     (mi, s) \<leftarrow> getnum_in 0 59 s; s \<leftarrow> skip_char (CHR '':'') s;
     (se, s) \<leftarrow> getnum_in 0 59 s;
     (let (ns, s) = getfraction s
      in if s = [] \<and> 1 \<le> d \<and> d \<le> daysIn mo y
         then Some \<lparr>da_Year = y, da_Month = mo, da_Day = d, da_Hour = h, da_Min = mi, da_Sec = se, da_Nsec = ns\<rparr>
         else None) }"

definition time_Parse :: "time_lib \<Rightarrow> string \<Rightarrow> time + gerr" where
  "time_Parse L value =
     (case do { (z, s) \<leftarrow> getzone L value; s \<leftarrow> skip_space s; d \<leftarrow> parse_date s; Some (z, d) } of
        None \<Rightarrow> Inr (tl_error L value)
      | Some (None, d) \<Rightarrow> Inl (date_instant d)
      | Some (Some z, d) \<Rightarrow> Inl (date_instant d - tl_offset L z (date_seconds d) * Second))"

section \<open>Trees\<close>

datatype xml = El string "xml list" | Text string | Bad gerr

text \<open>What Skip meets inside an element, and the text that is directly in it.\<close>

fun first_bad :: "xml \<Rightarrow> gerr option" and first_bads :: "xml list \<Rightarrow> gerr option" where
  "first_bad (El n ks) = first_bads ks"
| "first_bad (Text s) = None"
| "first_bad (Bad e) = Some e"
| "first_bads [] = None"
| "first_bads (k # ks) = (case first_bad k of Some e \<Rightarrow> Some e | None \<Rightarrow> first_bads ks)"

fun text_of :: "xml list \<Rightarrow> string" where
  "text_of [] = []"
| "text_of (Text s # ks) = s @ text_of ks"
| "text_of (k # ks) = text_of ks"

definition decode_string :: "xml list \<Rightarrow> string + gerr" where
  "decode_string ks = (case first_bads ks of Some e \<Rightarrow> Inr e | None \<Rightarrow> Inl (text_of ks))"

text \<open>Integers: strings.TrimSpace on ASCII, and strconv.ParseInt in base 10 with 64 bits. No text is 0.\<close>

definition is_space :: "char \<Rightarrow> bool" where
  "is_space c \<longleftrightarrow> (of_char c :: nat) \<in> {9, 10, 11, 12, 13, 32}"

definition TrimSpace :: "string \<Rightarrow> string" where
  "TrimSpace s = rev (dropWhile is_space (rev (dropWhile is_space s)))"

definition ParseInt64 :: "string \<Rightarrow> int option" where
  "ParseInt64 s =
     (let (neg, ds) = (case s of c # t \<Rightarrow> if c = CHR ''+'' then (False, t) else if c = CHR ''-'' then (True, t) else (False, s)
                       | [] \<Rightarrow> (False, []))
      in if ds = [] then None
         else do { n \<leftarrow> parse_digits 0 ds;
                   if neg then (if n \<le> 2 ^ 63 then Some (- int n) else None) else (if n < 2 ^ 63 then Some (int n) else None) })"

text \<open>ParseInt fails with a NumError, which quotes its argument.\<close>

definition NumError :: "string \<Rightarrow> gerr" where
  "NumError s = ErrOther 20 (''strconv.ParseInt: parsing '' @ s)"

definition decode_int :: "xml list \<Rightarrow> 64 word + gerr" where
  "decode_int ks =
     (case decode_string ks of
        Inr e \<Rightarrow> Inr e
      | Inl s \<Rightarrow>
          (if s = [] then Inl 0
           else case ParseInt64 (TrimSpace s) of None \<Rightarrow> Inr (NumError (TrimSpace s)) | Some i \<Rightarrow> Inl (word_of_int i)))"

section \<open>UnmarshalXML of the values\<close>

text \<open>
  The error of DecodeElement is dropped; what is left of the element then makes encoding/xml report that
  it was not consumed, unless UnmarshalXML itself returns an error.
\<close>

definition not_consumed :: "string \<Rightarrow> gerr" where
  "not_consumed name = ErrOther 21 (''xml: UnmarshalXML did not consume entire '' @ name @ '' element'')"

definition unmarshalInterface :: "string \<Rightarrow> xml list \<Rightarrow> 'a \<times> gerr option \<Rightarrow> 'a \<times> gerr option" where
  "unmarshalInterface name ks result =
     (case result of
        (v, Some e) \<Rightarrow> (v, Some e)
      | (v, None) \<Rightarrow> (v, if first_bads ks = None then None else Some (not_consumed name)))"

definition Time_UnmarshalXML :: "time_lib \<Rightarrow> xml list \<Rightarrow> time \<times> gerr option" where
  "Time_UnmarshalXML L ks =
     (let v = (case decode_string ks of Inl s \<Rightarrow> s | Inr e \<Rightarrow> [])
      in case time_Parse L v of Inl t \<Rightarrow> (t, None) | Inr e \<Rightarrow> (time_zero, Some e))"

definition Time_UnmarshalXMLAttr :: "time_lib \<Rightarrow> string \<Rightarrow> time \<times> gerr option" where
  "Time_UnmarshalXMLAttr L v = (case time_Parse L v of Inl t \<Rightarrow> (t, None) | Inr e \<Rightarrow> (time_zero, Some e))"

text \<open>A type is the local name of the last element in it that the decoder gets to.\<close>

fun last_name :: "string \<Rightarrow> xml list \<Rightarrow> string" where
  "last_name n [] = n"
| "last_name n (El m ks # rest) = (if first_bads ks = None then last_name m rest else m)"
| "last_name n (Text s # rest) = last_name n rest"
| "last_name n (Bad e # rest) = n"

definition Type_UnmarshalXML :: "xml list \<Rightarrow> string \<times> gerr option" where
  "Type_UnmarshalXML ks = (last_name [] ks, None)"

section \<open>UnmarshalXML of a resource (resource.go)\<close>

text \<open>The raw resource: the embedded fields are those of the resource itself.\<close>

record rawResource =
  rw_resource :: Resource
  rw_PartnerGUID :: string
  rw_Type :: string
  rw_Time :: time

definition set_string :: "(string \<Rightarrow> rawResource \<Rightarrow> rawResource) \<Rightarrow> xml list \<Rightarrow> rawResource \<Rightarrow> rawResource \<times> gerr option" where
  "set_string upd ks raw = (case decode_string ks of Inl s \<Rightarrow> (upd s raw, None) | Inr e \<Rightarrow> (raw, Some e))"

definition set_int :: "(64 word \<Rightarrow> rawResource \<Rightarrow> rawResource) \<Rightarrow> xml list \<Rightarrow> rawResource \<Rightarrow> rawResource \<times> gerr option" where
  "set_int upd ks raw = (case decode_int ks of Inl i \<Rightarrow> (upd i raw, None) | Inr e \<Rightarrow> (raw, Some e))"

definition on_resource :: "(Resource \<Rightarrow> Resource) \<Rightarrow> rawResource \<Rightarrow> rawResource" where
  "on_resource f raw = raw\<lparr>rw_resource := f (rw_resource raw)\<rparr>"

definition decode_field :: "time_lib \<Rightarrow> string \<Rightarrow> xml list \<Rightarrow> rawResource \<Rightarrow> rawResource \<times> gerr option" where
  "decode_field L name ks raw =
     (if name = ''Path'' then set_string (\<lambda>s. on_resource (\<lambda>r. r\<lparr>re_Path := s\<rparr>)) ks raw
      else if name = ''Uid'' then set_string (\<lambda>s. on_resource (\<lambda>r. r\<lparr>re_UID := s\<rparr>)) ks raw
      else if name = ''Gvsn'' then set_string (\<lambda>s. on_resource (\<lambda>r. r\<lparr>re_GVSN := s\<rparr>)) ks raw
      else if name = ''Attributes'' then set_string (\<lambda>s. on_resource (\<lambda>r. r\<lparr>re_Attributes := s\<rparr>)) ks raw
      else if name = ''NewName'' then set_string (\<lambda>s. on_resource (\<lambda>r. r\<lparr>re_NewName := s\<rparr>)) ks raw
      else if name = ''Files'' then set_int (\<lambda>i. on_resource (\<lambda>r. r\<lparr>re_Files := i\<rparr>)) ks raw
      else if name = ''Size'' then set_int (\<lambda>i. on_resource (\<lambda>r. r\<lparr>re_Size := i\<rparr>)) ks raw
      else if name = ''PartnerGuid'' then set_string (\<lambda>s raw. raw\<lparr>rw_PartnerGUID := s\<rparr>) ks raw
      else if name = ''Type'' then
        (case unmarshalInterface name ks (Type_UnmarshalXML ks) of (t, err) \<Rightarrow> (raw\<lparr>rw_Type := t\<rparr>, err))
      else if name = ''Time'' then
        (case unmarshalInterface name ks (Time_UnmarshalXML L ks) of (t, err) \<Rightarrow> (raw\<lparr>rw_Time := t\<rparr>, err))
      else (raw, first_bads ks))"

text \<open>The loop over the children: the result, and whether the end of the element was reached.\<close>

fun decode_children :: "time_lib \<Rightarrow> xml list \<Rightarrow> rawResource \<Rightarrow> rawResource \<times> bool" where
  "decode_children L [] raw = (raw, True)"
| "decode_children L (Text s # rest) raw = decode_children L rest raw"
| "decode_children L (Bad e # rest) raw = (raw, False)"
| "decode_children L (El name ks # rest) raw =
     (case decode_field L name ks raw of
        (raw, None) \<Rightarrow> decode_children L rest raw
      | (raw, Some e) \<Rightarrow> (raw, False))"

definition Resource_UnmarshalXML ::
  "time_lib \<Rightarrow> (string \<Rightarrow> uuid + gerr) \<Rightarrow> xml list \<Rightarrow> Resource \<Rightarrow> (Resource \<times> gerr option) \<times> bool" where
  "Resource_UnmarshalXML L uuid_Parse ks r =
     (let raw = \<lparr>rw_resource = r, rw_PartnerGUID = [], rw_Type = [], rw_Time = time_zero\<rparr>;
          (raw, consumed) = decode_children L ks raw;
          r = (rw_resource raw)\<lparr>re_Time := rw_Time raw, re_Type := rw_Type raw\<rparr>
      in (if rw_PartnerGUID raw \<noteq> [] then
            (case uuid_Parse (rw_PartnerGUID raw) of
               Inl g \<Rightarrow> (r\<lparr>re_PartnerGUID := g\<rparr>, None)
             | Inr e \<Rightarrow> (r\<lparr>re_PartnerGUID := 0\<rparr>, Some e))
          else (r, None), consumed))"

text \<open>DecodeElement of Decoder.Read, on the zero value that Read returns.\<close>

definition decode_resource :: "time_lib \<Rightarrow> (string \<Rightarrow> uuid + gerr) \<Rightarrow> xml list \<Rightarrow> Resource + gerr" where
  "decode_resource L uuid_Parse ks =
     (case Resource_UnmarshalXML L uuid_Parse ks Resource_zero of
        ((r, Some e), consumed) \<Rightarrow> Inr e
      | ((r, None), consumed) \<Rightarrow> if consumed then Inl r else Inr (not_consumed resourceElement))"

section \<open>Well-typed elements\<close>

text \<open>
  The type of an element, without an order of the children: every child is XML throughout, the
  numbers are integers of 64 bits, or empty, the times follow the layout, and the partner, which
  is the last one given, is an identifier, or empty.
\<close>

definition child_ok :: "time_lib \<Rightarrow> string \<Rightarrow> xml list \<Rightarrow> bool" where
  "child_ok L name ks \<longleftrightarrow> first_bads ks = None \<and>
     (name \<in> {''Files'', ''Size''} \<longrightarrow> text_of ks = [] \<or> ParseInt64 (TrimSpace (text_of ks)) \<noteq> None) \<and>
     (name = ''Time'' \<longrightarrow> isl (time_Parse L (text_of ks)))"

fun node_ok :: "time_lib \<Rightarrow> xml \<Rightarrow> bool" where
  "node_ok L (El name ks) = child_ok L name ks"
| "node_ok L (Text s) = True"
| "node_ok L (Bad e) = False"

definition last_field :: "string \<Rightarrow> xml list \<Rightarrow> xml list option" where
  "last_field name ks = fold (\<lambda>k acc. case k of El n cs \<Rightarrow> if n = name then Some cs else acc | _ \<Rightarrow> acc) ks None"

definition field_text :: "string \<Rightarrow> xml list \<Rightarrow> string" where
  "field_text name ks = (case last_field name ks of None \<Rightarrow> [] | Some cs \<Rightarrow> text_of cs)"

definition well_typed :: "time_lib \<Rightarrow> (string \<Rightarrow> uuid + gerr) \<Rightarrow> xml list \<Rightarrow> bool" where
  "well_typed L U ks \<longleftrightarrow> list_all (node_ok L) ks \<and>
     (field_text ''PartnerGuid'' ks = [] \<or> isl (U (field_text ''PartnerGuid'' ks)))"

text \<open>The value of a well-typed element, field by field.\<close>

definition int_value :: "string \<Rightarrow> 64 word" where
  "int_value s = (if s = [] then 0 else word_of_int (the (ParseInt64 (TrimSpace s))))"

fun element_names :: "xml list \<Rightarrow> string list" where
  "element_names [] = []"
| "element_names (El n ks # rest) = n # element_names rest"
| "element_names (k # rest) = element_names rest"

definition type_name :: "xml list \<Rightarrow> string" where
  "type_name ks = (if element_names ks = [] then [] else last (element_names ks))"

definition resource_of :: "time_lib \<Rightarrow> (string \<Rightarrow> uuid + gerr) \<Rightarrow> xml list \<Rightarrow> Resource" where
  "resource_of L U ks =
     \<lparr>re_Path = field_text ''Path'' ks, re_UID = field_text ''Uid'' ks, re_GVSN = field_text ''Gvsn'' ks,
      re_Attributes = field_text ''Attributes'' ks, re_NewName = field_text ''NewName'' ks,
      re_Files = int_value (field_text ''Files'' ks), re_Size = int_value (field_text ''Size'' ks),
      re_PartnerGUID = (if field_text ''PartnerGuid'' ks = [] then 0 else projl (U (field_text ''PartnerGuid'' ks))),
      re_PartnerHost = [], re_PartnerDN = [],
      re_Type = (case last_field ''Type'' ks of None \<Rightarrow> [] | Some cs \<Rightarrow> type_name cs),
      re_Time = (case last_field ''Time'' ks of None \<Rightarrow> time_zero | Some cs \<Rightarrow> projl (time_Parse L (text_of cs)))\<rparr>"

lemma last_name_names: "first_bads ks = None \<Longrightarrow> last_name n ks = (if element_names ks = [] then n else last (element_names ks))"
  by (induction n ks rule: last_name.induct) (auto split: option.splits)

lemma last_field_snoc:
  "last_field name (ks @ [k]) = (case k of El n cs \<Rightarrow> if n = name then Some cs else last_field name ks | _ \<Rightarrow> last_field name ks)"
  by (simp add: last_field_def split: xml.split)

text \<open>What a child that is decoded does to the raw resource.\<close>

definition put_field :: "time_lib \<Rightarrow> string \<Rightarrow> xml list \<Rightarrow> rawResource \<Rightarrow> rawResource" where
  "put_field L name ks raw = fst (decode_field L name ks raw)"

fun put_node :: "time_lib \<Rightarrow> xml \<Rightarrow> rawResource \<Rightarrow> rawResource" where
  "put_node L (El name ks) raw = put_field L name ks raw"
| "put_node L k raw = raw"

lemma decode_field_ok: "snd (decode_field L name ks raw) = None \<longleftrightarrow> child_ok L name ks"
  by (auto simp: decode_field_def child_ok_def set_string_def set_int_def decode_int_def decode_string_def unmarshalInterface_def
      Type_UnmarshalXML_def Time_UnmarshalXML_def Let_def isl_def split: option.splits sum.splits if_splits prod.splits)

lemma decode_children_ok:
  "(snd (decode_children L ks raw) \<longleftrightarrow> list_all (node_ok L) ks) \<and>
   (list_all (node_ok L) ks \<longrightarrow> fst (decode_children L ks raw) = fold (put_node L) ks raw)"
proof (induction L ks raw rule: decode_children.induct)
  case (4 L name ks rest raw)
  obtain raw' err where d: "decode_field L name ks raw = (raw', err)" by fastforce
  then have ok: "err = None \<longleftrightarrow> child_ok L name ks" using decode_field_ok [of L name ks raw] by simp
  show ?case
  proof (cases err)
    case None
    with 4 [OF d [symmetric] None] d ok show ?thesis by (simp add: put_field_def)
  qed (use d ok in simp)
qed simp_all

text \<open>A field of the result is what its last child says.\<close>

lemma fold_field:
  assumes "list_all (node_ok L) ks"
    and "\<And>cs raw. child_ok L name cs \<Longrightarrow> g (put_field L name cs raw) = val cs"
    and "\<And>n cs raw. n \<noteq> name \<Longrightarrow> g (put_field L n cs raw) = g raw"
  shows "g (fold (put_node L) ks raw) = (case last_field name ks of None \<Rightarrow> g raw | Some cs \<Rightarrow> val cs)"
  using assms(1)
proof (induction ks rule: rev_induct)
  case Nil
  then show ?case by (simp add: last_field_def)
next
  case (snoc k ks)
  then show ?case
    by (cases k) (auto simp: last_field_snoc assms(2,3))
qed

lemmas put_simps = put_field_def decode_field_def set_string_def set_int_def decode_string_def on_resource_def child_ok_def

lemma put_string:
  assumes "child_ok L name cs"
  shows "name = ''Path'' \<Longrightarrow> re_Path (rw_resource (put_field L name cs raw)) = text_of cs"
    "name = ''Uid'' \<Longrightarrow> re_UID (rw_resource (put_field L name cs raw)) = text_of cs"
    "name = ''Gvsn'' \<Longrightarrow> re_GVSN (rw_resource (put_field L name cs raw)) = text_of cs"
    "name = ''Attributes'' \<Longrightarrow> re_Attributes (rw_resource (put_field L name cs raw)) = text_of cs"
    "name = ''NewName'' \<Longrightarrow> re_NewName (rw_resource (put_field L name cs raw)) = text_of cs"
    "name = ''PartnerGuid'' \<Longrightarrow> rw_PartnerGUID (put_field L name cs raw) = text_of cs"
  using assms by (simp_all add: put_simps)

lemma put_value:
  assumes "child_ok L name cs"
  shows "name = ''Files'' \<Longrightarrow> re_Files (rw_resource (put_field L name cs raw)) = int_value (text_of cs)"
    "name = ''Size'' \<Longrightarrow> re_Size (rw_resource (put_field L name cs raw)) = int_value (text_of cs)"
    "name = ''Type'' \<Longrightarrow> rw_Type (put_field L name cs raw) = type_name cs"
    "name = ''Time'' \<Longrightarrow> rw_Time (put_field L name cs raw) = projl (time_Parse L (text_of cs))"
  using assms
  by (auto simp: put_simps decode_int_def int_value_def type_name_def unmarshalInterface_def Type_UnmarshalXML_def
      Time_UnmarshalXML_def last_name_names isl_def)

lemma put_other:
  "n \<noteq> ''Path'' \<Longrightarrow> re_Path (rw_resource (put_field L n cs raw)) = re_Path (rw_resource raw)"
  "n \<noteq> ''Uid'' \<Longrightarrow> re_UID (rw_resource (put_field L n cs raw)) = re_UID (rw_resource raw)"
  "n \<noteq> ''Gvsn'' \<Longrightarrow> re_GVSN (rw_resource (put_field L n cs raw)) = re_GVSN (rw_resource raw)"
  "n \<noteq> ''Attributes'' \<Longrightarrow> re_Attributes (rw_resource (put_field L n cs raw)) = re_Attributes (rw_resource raw)"
  "n \<noteq> ''NewName'' \<Longrightarrow> re_NewName (rw_resource (put_field L n cs raw)) = re_NewName (rw_resource raw)"
  "n \<noteq> ''Files'' \<Longrightarrow> re_Files (rw_resource (put_field L n cs raw)) = re_Files (rw_resource raw)"
  "n \<noteq> ''Size'' \<Longrightarrow> re_Size (rw_resource (put_field L n cs raw)) = re_Size (rw_resource raw)"
  "n \<noteq> ''PartnerGuid'' \<Longrightarrow> rw_PartnerGUID (put_field L n cs raw) = rw_PartnerGUID raw"
  "n \<noteq> ''Type'' \<Longrightarrow> rw_Type (put_field L n cs raw) = rw_Type raw"
  "n \<noteq> ''Time'' \<Longrightarrow> rw_Time (put_field L n cs raw) = rw_Time raw"
  by (simp_all add: put_simps split: option.splits sum.splits prod.splits)

lemma put_never:
  "re_PartnerHost (rw_resource (fold (put_node L) ks raw)) = re_PartnerHost (rw_resource raw)"
  "re_PartnerDN (rw_resource (fold (put_node L) ks raw)) = re_PartnerDN (rw_resource raw)"
  "re_PartnerGUID (rw_resource (fold (put_node L) ks raw)) = re_PartnerGUID (rw_resource raw)"
proof -
  have p: "re_PartnerHost (rw_resource (put_field L n cs raw)) = re_PartnerHost (rw_resource raw)"
    "re_PartnerDN (rw_resource (put_field L n cs raw)) = re_PartnerDN (rw_resource raw)"
    "re_PartnerGUID (rw_resource (put_field L n cs raw)) = re_PartnerGUID (rw_resource raw)" for n cs raw
    by (simp_all add: put_simps split: option.splits sum.splits prod.splits)
  have n: "re_PartnerHost (rw_resource (put_node L k raw)) = re_PartnerHost (rw_resource raw)"
    "re_PartnerDN (rw_resource (put_node L k raw)) = re_PartnerDN (rw_resource raw)"
    "re_PartnerGUID (rw_resource (put_node L k raw)) = re_PartnerGUID (rw_resource raw)" for k raw
    by (cases k; simp add: p)+
  show "re_PartnerHost (rw_resource (fold (put_node L) ks raw)) = re_PartnerHost (rw_resource raw)"
    "re_PartnerDN (rw_resource (fold (put_node L) ks raw)) = re_PartnerDN (rw_resource raw)"
    "re_PartnerGUID (rw_resource (fold (put_node L) ks raw)) = re_PartnerGUID (rw_resource raw)"
    by (induction ks arbitrary: raw) (simp_all add: n)
qed

abbreviation raw_zero :: rawResource where
  "raw_zero \<equiv> \<lparr>rw_resource = Resource_zero, rw_PartnerGUID = [], rw_Type = [], rw_Time = time_zero\<rparr>"

lemma fold_fields:
  assumes "list_all (node_ok L) ks"
  shows "re_Path (rw_resource (fold (put_node L) ks raw_zero)) = field_text ''Path'' ks"
    "re_UID (rw_resource (fold (put_node L) ks raw_zero)) = field_text ''Uid'' ks"
    "re_GVSN (rw_resource (fold (put_node L) ks raw_zero)) = field_text ''Gvsn'' ks"
    "re_Attributes (rw_resource (fold (put_node L) ks raw_zero)) = field_text ''Attributes'' ks"
    "re_NewName (rw_resource (fold (put_node L) ks raw_zero)) = field_text ''NewName'' ks"
    "rw_PartnerGUID (fold (put_node L) ks raw_zero) = field_text ''PartnerGuid'' ks"
    "re_Files (rw_resource (fold (put_node L) ks raw_zero)) = int_value (field_text ''Files'' ks)"
    "re_Size (rw_resource (fold (put_node L) ks raw_zero)) = int_value (field_text ''Size'' ks)"
    "rw_Type (fold (put_node L) ks raw_zero) = (case last_field ''Type'' ks of None \<Rightarrow> [] | Some cs \<Rightarrow> type_name cs)"
    "rw_Time (fold (put_node L) ks raw_zero) =
      (case last_field ''Time'' ks of None \<Rightarrow> time_zero | Some cs \<Rightarrow> projl (time_Parse L (text_of cs)))"
proof -
  have i: "int_value (field_text n ks) = (case last_field n ks of None \<Rightarrow> 0 | Some cs \<Rightarrow> int_value (text_of cs))" for n
    by (simp add: field_text_def int_value_def split: option.split)
  note f = fold_field [OF assms]
  show "re_Path (rw_resource (fold (put_node L) ks raw_zero)) = field_text ''Path'' ks"
    by (subst f [where g = "\<lambda>raw. re_Path (rw_resource raw)" and name = "''Path''" and val = text_of])
      (simp_all add: put_string put_other field_text_def Resource_zero_def split: option.split)
  show "re_UID (rw_resource (fold (put_node L) ks raw_zero)) = field_text ''Uid'' ks"
    by (subst f [where g = "\<lambda>raw. re_UID (rw_resource raw)" and name = "''Uid''" and val = text_of])
      (simp_all add: put_string put_other field_text_def Resource_zero_def split: option.split)
  show "re_GVSN (rw_resource (fold (put_node L) ks raw_zero)) = field_text ''Gvsn'' ks"
    by (subst f [where g = "\<lambda>raw. re_GVSN (rw_resource raw)" and name = "''Gvsn''" and val = text_of])
      (simp_all add: put_string put_other field_text_def Resource_zero_def split: option.split)
  show "re_Attributes (rw_resource (fold (put_node L) ks raw_zero)) = field_text ''Attributes'' ks"
    by (subst f [where g = "\<lambda>raw. re_Attributes (rw_resource raw)" and name = "''Attributes''" and val = text_of])
      (simp_all add: put_string put_other field_text_def Resource_zero_def split: option.split)
  show "re_NewName (rw_resource (fold (put_node L) ks raw_zero)) = field_text ''NewName'' ks"
    by (subst f [where g = "\<lambda>raw. re_NewName (rw_resource raw)" and name = "''NewName''" and val = text_of])
      (simp_all add: put_string put_other field_text_def Resource_zero_def split: option.split)
  show "rw_PartnerGUID (fold (put_node L) ks raw_zero) = field_text ''PartnerGuid'' ks"
    by (subst f [where g = rw_PartnerGUID and name = "''PartnerGuid''" and val = text_of])
      (simp_all add: put_string put_other field_text_def split: option.split)
  show "re_Files (rw_resource (fold (put_node L) ks raw_zero)) = int_value (field_text ''Files'' ks)"
    by (subst f [where g = "\<lambda>raw. re_Files (rw_resource raw)" and name = "''Files''" and val = "\<lambda>cs. int_value (text_of cs)"])
      (simp_all add: put_value put_other i Resource_zero_def split: option.split)
  show "re_Size (rw_resource (fold (put_node L) ks raw_zero)) = int_value (field_text ''Size'' ks)"
    by (subst f [where g = "\<lambda>raw. re_Size (rw_resource raw)" and name = "''Size''" and val = "\<lambda>cs. int_value (text_of cs)"])
      (simp_all add: put_value put_other i Resource_zero_def split: option.split)
  show "rw_Type (fold (put_node L) ks raw_zero) = (case last_field ''Type'' ks of None \<Rightarrow> [] | Some cs \<Rightarrow> type_name cs)"
    by (subst f [where g = rw_Type and name = "''Type''" and val = type_name]) (simp_all add: put_value put_other split: option.split)
  show "rw_Time (fold (put_node L) ks raw_zero) =
      (case last_field ''Time'' ks of None \<Rightarrow> time_zero | Some cs \<Rightarrow> projl (time_Parse L (text_of cs)))"
    by (subst f [where g = rw_Time and name = "''Time''" and val = "\<lambda>cs. projl (time_Parse L (text_of cs))"])
      (simp_all add: put_value put_other split: option.split)
qed

lemma put_all:
  assumes "list_all (node_ok L) ks"
  shows "(rw_resource (fold (put_node L) ks raw_zero))\<lparr>re_Time := rw_Time (fold (put_node L) ks raw_zero),
      re_Type := rw_Type (fold (put_node L) ks raw_zero),
      re_PartnerGUID := (if field_text ''PartnerGuid'' ks = [] then 0 else projl (U (field_text ''PartnerGuid'' ks)))\<rparr> =
    resource_of L U ks"
  using fold_fields [OF assms] put_never [of L ks raw_zero] by (simp add: resource_of_def Resource_zero_def)

lemma decode_exact:
  "case decode_resource L uuid_Parse ks of
     Inl r \<Rightarrow> well_typed L uuid_Parse ks \<and> r = resource_of L uuid_Parse ks
   | Inr e \<Rightarrow> \<not> well_typed L uuid_Parse ks"
proof (cases "list_all (node_ok L) ks")
  case True
  let ?raw = "fold (put_node L) ks raw_zero"
  have d: "decode_children L ks raw_zero = (?raw, True)"
    using decode_children_ok [of L ks raw_zero] True by (metis prod.collapse)
  note f = fold_fields(6) [OF True] put_never(3) [of L ks raw_zero] put_all [OF True, of uuid_Parse]
  show ?thesis
  proof (cases "field_text ''PartnerGuid'' ks = []")
    case e: True
    have "(rw_resource ?raw)\<lparr>re_Time := rw_Time ?raw, re_Type := rw_Type ?raw\<rparr> = resource_of L uuid_Parse ks"
      using f(3) f(2) e by (cases "rw_resource ?raw") (simp add: Resource_zero_def)
    with d f(1) e True show ?thesis by (simp add: decode_resource_def Resource_UnmarshalXML_def well_typed_def)
  next
    case False
    with d f(1,3) True show ?thesis
      by (cases "uuid_Parse (field_text ''PartnerGuid'' ks)")
        (simp_all add: decode_resource_def Resource_UnmarshalXML_def well_typed_def)
  qed
next
  case False
  then obtain raw where "decode_children L ks raw_zero = (raw, False)"
    using decode_children_ok [of L ks raw_zero] by (metis prod.collapse)
  with False show ?thesis
    by (auto simp: decode_resource_def Resource_UnmarshalXML_def well_typed_def Let_def split: sum.splits if_splits)
qed

text \<open>
  Why an element is not well typed is lost with the error of DecodeElement: the error of Read says only that
  the element was not consumed, or it is that of the partner's identifier.
\<close>

lemma cause_lost:
  assumes "\<not> list_all (node_ok L) ks"
  shows "decode_resource L uuid_Parse ks = Inr (not_consumed resourceElement) \<or>
    (\<exists>g e. uuid_Parse g = Inr e \<and> decode_resource L uuid_Parse ks = Inr e)"
proof -
  obtain raw where "decode_children L ks raw_zero = (raw, False)"
    using decode_children_ok [of L ks raw_zero] assms by (metis prod.collapse)
  then show ?thesis
    by (cases "uuid_Parse (rw_PartnerGUID raw)") (auto simp: decode_resource_def Resource_UnmarshalXML_def Let_def)
qed

text \<open>
  C23. An element becomes a resource exactly when it is well typed, and then the resource has the
  values of its children, the last one of a name where there are several, in whatever order they come:
  no element that is broken, has a number out of range, an unknown time or a partner that is not an
  identifier is ever returned as a resource, although the code drops the error of DecodeElement.
\<close>

theorem decoded_well_typed:
  "case decode_resource L uuid_Parse ks of
     Inl r \<Rightarrow> well_typed L uuid_Parse ks \<and> r = resource_of L uuid_Parse ks
   | Inr e \<Rightarrow> \<not> well_typed L uuid_Parse ks"
  by (rule decode_exact)

section \<open>Writing an element\<close>

text \<open>What the replication service writes: the layout with numbers that are not padded.\<close>

definition year4 :: "nat \<Rightarrow> string" where
  "year4 y = [char_of (48 + y div 1000), char_of (48 + y div 100 mod 10), char_of (48 + y div 10 mod 10), char_of (48 + y mod 10)]"

definition write_date :: "date \<Rightarrow> string" where
  "write_date d = year4 (da_Year d) @ CHR '':'' # show_nat (da_Month d) @ CHR '':'' # show_nat (da_Day d) @ CHR ''-'' #
     show_nat (da_Hour d) @ CHR '':'' # show_nat (da_Min d) @ CHR '':'' # show_nat (da_Sec d)"

definition valid_date :: "date \<Rightarrow> bool" where
  "valid_date d \<longleftrightarrow> da_Year d < 10000 \<and> 1 \<le> da_Month d \<and> da_Month d \<le> 12 \<and> 1 \<le> da_Day d \<and>
     da_Day d \<le> daysIn (da_Month d) (da_Year d) \<and> da_Hour d < 24 \<and> da_Min d < 60 \<and> da_Sec d < 60 \<and> da_Nsec d = 0"

definition show_int :: "int \<Rightarrow> string" where
  "show_int i = (if i < 0 then CHR ''-'' # show_nat (nat (- i)) else show_nat (nat i))"

definition write_resource :: "(uuid \<Rightarrow> string) \<Rightarrow> string \<Rightarrow> date \<Rightarrow> Resource \<Rightarrow> xml list" where
  "write_resource uuid_String zone d r =
     [El ''Path'' [Text (re_Path r)], El ''Uid'' [Text (re_UID r)], El ''Gvsn'' [Text (re_GVSN r)],
      El ''PartnerGuid'' [Text (uuid_String (re_PartnerGUID r))], El ''Attributes'' [Text (re_Attributes r)],
      El ''NewName'' [Text (re_NewName r)], El ''Time'' [Text (zone @ CHR '' '' # write_date d)],
      El ''Type'' [El (re_Type r) []], El ''Files'' [Text (show_int (sint (re_Files r)))],
      El ''Size'' [Text (show_int (sint (re_Size r)))]]"

lemma getnum_show:
  assumes "n < 100" "rest = [] \<or> digit_val (hd rest) = None"
  shows "getnum (show_nat n @ rest) = Some (n, rest)"
proof (cases "n < 10")
  case True
  with assms show ?thesis
    by (cases rest) (simp_all add: show_nat.simps [of n] getnum_def digit_val_digit)
next
  case False
  then have "n div 10 < 10" using assms(1) by simp
  with False show ?thesis
    by (simp add: show_nat.simps [of n] show_nat.simps [of "n div 10"] getnum_def digit_val_digit)
qed

lemma getnum_in_show:
  assumes "lo \<le> n" "n \<le> hi" "n < 100" "rest = [] \<or> digit_val (hd rest) = None"
  shows "getnum_in lo hi (show_nat n @ rest) = Some (n, rest)"
  using getnum_show [OF assms(3,4)] assms(1,2) by (simp add: getnum_in_def)

lemma getyear_year4:
  assumes "y < 10000"
  shows "getyear (year4 y @ rest) = Some (y, rest)"
proof -
  have "y div 1000 = y div 100 div 10" "y div 100 = y div 10 div 10" by (simp_all add: div_mult2_eq [symmetric])
  then have a: "y div 1000 * 10 + y div 100 mod 10 = y div 100" and b: "y div 100 * 10 + y div 10 mod 10 = y div 10"
    by (metis div_mult_mod_eq)+
  have c: "y div 10 * 10 + y mod 10 = y" by simp
  have lt: "y div 1000 < 10" using assms by simp
  show ?thesis
    by (simp add: getyear_def year4_def digit_val_digit lt a b c)
qed

lemma literals: "digit_val (CHR '':'') = None" "digit_val (CHR ''-'') = None"
  by (simp_all add: digit_val_def)

lemma parse_date_write:
  assumes "valid_date d"
  shows "parse_date (write_date d) = Some d"
proof -
  have v: "da_Year d < 10000" "1 \<le> da_Month d" "da_Month d \<le> 12" "1 \<le> da_Day d" "da_Day d \<le> daysIn (da_Month d) (da_Year d)"
    "da_Hour d \<le> 23" "da_Min d \<le> 59" "da_Sec d \<le> 59" "da_Nsec d = 0" using assms by (simp_all add: valid_date_def)
  have "da_Day d < 100"
  proof -
    have "da_Month d - 1 < length [31, 28, 31, 30, 31, 30, 31, 31, 30, 31, 30, 31::nat]" using v(3) by simp
    from nth_mem [OF this] have "[31, 28, 31, 30, 31, 30, 31, 31, 30, 31, 30, 31::nat] ! (da_Month d - 1) < 100" by auto
    with v(5) show ?thesis by (simp add: daysIn_def split: if_splits)
  qed
  have n: "getnum (show_nat (da_Day d) @ CHR ''-'' # s) = Some (da_Day d, CHR ''-'' # s)" for s
    using \<open>da_Day d < 100\<close> by (simp add: getnum_show literals)
  have g: "getnum_in 1 12 (show_nat (da_Month d) @ CHR '':'' # s) = Some (da_Month d, CHR '':'' # s)"
    "getnum_in 0 23 (show_nat (da_Hour d) @ CHR '':'' # s) = Some (da_Hour d, CHR '':'' # s)"
    "getnum_in 0 59 (show_nat (da_Min d) @ CHR '':'' # s) = Some (da_Min d, CHR '':'' # s)"
    "getnum_in 0 59 (show_nat (da_Sec d)) = Some (da_Sec d, [])" for s
    using v getnum_in_show [of 0 "da_Sec d" 59 "[]"] by (simp_all add: getnum_in_show literals)
  show ?thesis
    using v by (simp add: parse_date_def write_date_def getyear_year4 skip_char_def n g [simplified] getfraction_def)
qed

text \<open>The offset of a zone: none for UTC, the one of the library for an abbreviation that it knows.\<close>

definition zone_offset :: "time_lib \<Rightarrow> string \<Rightarrow> date \<Rightarrow> int" where
  "zone_offset L zone d = (if zone = ''UTC'' then 0 else tl_offset L zone (date_seconds d))"

definition known_zone :: "time_lib \<Rightarrow> string \<Rightarrow> bool" where
  "known_zone L zone \<longleftrightarrow> zone = ''UTC'' \<or>
     take 3 (zone @ '' '') \<noteq> ''UTC'' \<and> (\<forall>s. tl_zone L (zone @ CHR '' '' # s) = Some (length zone))"

lemma getzone_known:
  assumes "known_zone L zone"
  shows "getzone L (zone @ CHR '' '' # s) = Some (if zone = ''UTC'' then None else Some zone, CHR '' '' # s)"
proof (cases "zone = ''UTC''")
  case False
  have "take 3 (zone @ CHR '' '' # s) = ''UTC'' \<longleftrightarrow> take 3 (zone @ '' '') = ''UTC''"
    by (cases zone; cases "tl zone"; cases "tl (tl zone)") auto
  with False assms show ?thesis by (simp add: getzone_def known_zone_def)
qed (simp add: getzone_def)

lemma write_date_start: "skip_space (CHR '' '' # write_date d) = Some (write_date d)" if "da_Year d < 10000"
proof -
  have "digit_val (char_of (48 + da_Year d div 1000)) \<noteq> None" using that by (simp add: digit_val_digit)
  moreover have "digit_val (CHR '' '') = None" by (simp add: digit_val_def)
  ultimately have "char_of (48 + da_Year d div 1000) \<noteq> CHR '' ''" by metis
  then show ?thesis by (simp add: skip_space_def write_date_def year4_def)
qed

lemma time_Parse_write:
  assumes "valid_date d" "known_zone L zone"
  shows "time_Parse L (zone @ CHR '' '' # write_date d) = Inl (date_instant d - zone_offset L zone d * Second)"
  using assms write_date_start [of d]
  by (simp add: time_Parse_def getzone_known parse_date_write zone_offset_def valid_date_def)

lemma show_nat_digits: "c \<in> set (show_nat n) \<Longrightarrow> digit_val c \<noteq> None"
  by (induction n rule: show_nat.induct) (subst (asm) (2) show_nat.simps, auto simp: digit_val_digit split: if_splits)

lemma digit_no_space: "digit_val c \<noteq> None \<Longrightarrow> \<not> is_space c \<and> c \<noteq> CHR ''+'' \<and> c \<noteq> CHR ''-''"
  by (auto simp: digit_val_def is_space_def split: if_splits)

lemma TrimSpace_id: "\<forall>c \<in> set s. \<not> is_space c \<Longrightarrow> TrimSpace s = s"
proof -
  have d: "\<forall>c \<in> set t. \<not> is_space c \<Longrightarrow> dropWhile is_space t = t" for t by (cases t) simp_all
  then show "\<forall>c \<in> set s. \<not> is_space c \<Longrightarrow> TrimSpace s = s" using d [of "rev s"] by (simp add: TrimSpace_def)
qed

lemma parse_show_int:
  assumes "- (2 ^ 63) \<le> i" "i < 2 ^ 63"
  shows "ParseInt64 (TrimSpace (show_int i)) = Some i"
proof -
  have "\<forall>c \<in> set (show_int i). \<not> is_space c"
    using show_nat_digits digit_no_space by (auto simp: show_int_def is_space_def split: if_splits)
  then have t: "TrimSpace (show_int i) = show_int i" by (rule TrimSpace_id)
  show ?thesis
  proof (cases "i < 0")
    case True
    then show ?thesis using assms(1) by (simp add: t) (simp add: show_int_def ParseInt64_def show_nat_nonempty parse_show nat_le_iff)
  next
    case False
    obtain c s where c: "show_nat (nat i) = c # s" using show_nat_nonempty by (cases "show_nat (nat i)") auto
    have "c \<noteq> CHR ''+'' \<and> c \<noteq> CHR ''-''" using digit_no_space show_nat_digits [of c "nat i"] c by simp
    moreover have "parse_digits 0 (c # s) = Some (nat i)" using parse_show [of "nat i"] c by simp
    ultimately show ?thesis
      using False assms(2) c by (simp only: t) (simp add: show_int_def ParseInt64_def nat_less_iff del: parse_digits.simps)
  qed
qed

lemma show_int_nonempty: "show_int i \<noteq> []"
  by (simp add: show_int_def show_nat_nonempty)

lemma int_value_show: "int_value (show_int (sint (w :: 64 word))) = w" "ParseInt64 (TrimSpace (show_int (sint (w :: 64 word)))) \<noteq> None"
  using parse_show_int [of "sint w"] sint_range_size [of w] by (simp_all add: int_value_def show_int_nonempty word_size)


section \<open>A manifest as a document\<close>

text \<open>
  The tokens of a document up to the place where it is broken, and the stream that Decoder reads: a
  resource element outside any other comes with what it decodes to. What is read after a failure is left open
  (\<open>after\<close>); the cursors stop there.
\<close>

fun node_tokens :: "xml \<Rightarrow> token list" and doc_tokens :: "xml list \<Rightarrow> token list" where
  "node_tokens (El n ks) = TStart n # doc_tokens ks @ (if first_bads ks = None then [TOther] else [])"
| "node_tokens (Text s) = [TOther]"
| "node_tokens (Bad e) = []"
| "doc_tokens [] = []"
| "doc_tokens (k # ks) = node_tokens k @ (if first_bad k = None then doc_tokens ks else [])"

fun node_items :: "time_lib \<Rightarrow> (string \<Rightarrow> uuid + gerr) \<Rightarrow> (xml list \<Rightarrow> item list) \<Rightarrow> xml \<Rightarrow> item list"
  and doc_items :: "time_lib \<Rightarrow> (string \<Rightarrow> uuid + gerr) \<Rightarrow> (xml list \<Rightarrow> item list) \<Rightarrow> xml list \<Rightarrow> item list" where
  "node_items L U after (El n ks) =
     (if n = resourceElement
      then [ResourceEl (doc_tokens ks @ (if first_bads ks = None then [TOther] else []))
             (case decode_resource L U ks of Inl r \<Rightarrow> Inl r | Inr e \<Rightarrow> Inr (e, after ks))]
      else Tok (TStart n) # doc_items L U after ks @ (if first_bads ks = None then [Tok TOther] else []))"
| "node_items L U after (Text s) = [Tok TOther]"
| "node_items L U after (Bad e) = []"
| "doc_items L U after [] = []"
| "doc_items L U after (k # ks) = node_items L U after k @ (if first_bad k = None then doc_items L U after ks else [])"

definition doc_end :: "xml list \<Rightarrow> gerr" where
  "doc_end doc = (case first_bads doc of None \<Rightarrow> ErrEOF | Some e \<Rightarrow> e)"

text \<open>The resource elements of a document, outermost and in order.\<close>

fun outer :: "xml \<Rightarrow> xml list list" and outers :: "xml list \<Rightarrow> xml list list" where
  "outer (El n ks) = (if n = resourceElement then [ks] else outers ks)"
| "outer (Text s) = []"
| "outer (Bad e) = []"
| "outers [] = []"
| "outers (k # ks) = outer k @ (if first_bad k = None then outers ks else [])"

fun outcomes :: "item list \<Rightarrow> (Resource + gerr) list" where
  "outcomes [] = []"
| "outcomes (Tok t # rest) = outcomes rest"
| "outcomes (ResourceEl ts out # rest) = (case out of Inl r \<Rightarrow> Inl r | Inr (e, _) \<Rightarrow> Inr e) # outcomes rest"

lemma outcomes_append: "outcomes (xs @ ys) = outcomes xs @ outcomes ys"
  by (induction xs rule: outcomes.induct) simp_all

lemma doc_outcomes:
  "outcomes (node_items L U after k) = map (decode_resource L U) (outer k)"
  "outcomes (doc_items L U after ks) = map (decode_resource L U) (outers ks)"
  by (induction k and ks rule: outer_outers.induct) (simp_all add: outcomes_append split: sum.split)

text \<open>The tokens that Count sees do not depend on what the elements decode to.\<close>

lemma tokens_append: "tokens (xs @ ys) = tokens xs @ tokens ys"
  by (induction xs rule: tokens.induct) simp_all

lemma doc_items_tokens:
  "tokens (node_items L U after k) = node_tokens k"
  "tokens (doc_items L U after ks) = doc_tokens ks"
  by (induction k and ks rule: outer_outers.induct) (simp_all add: tokens_append)

lemma decode_outcomes:
  "decode_all F items e n =
    (let good = takeWhile isl (outcomes items)
     in (map projl good,
         if length good = length (outcomes items) then e
         else F (n + of_nat (Suc (length good))) (projr (outcomes items ! length good))))"
proof (induction F items e n rule: decode_all.induct)
  case (3 F ts out rest e n)
  show ?case
  proof (cases out)
    case (Inl r)
    with 3 [OF Inl] show ?thesis by (simp add: Let_def add.assoc)
  next
    case (Inr x)
    then show ?thesis by (cases x) simp
  qed
qed (simp_all add: Let_def)

lemma takeWhile_decode:
  "takeWhile isl (map (decode_resource L U) css) = map (\<lambda>cs. Inl (resource_of L U cs)) (takeWhile (well_typed L U) css)"
proof (induction css)
  case (Cons cs css)
  then show ?case using decode_exact [of L U cs] by (auto split: sum.splits)
qed simp

lemma document_read:
  "decode_all F (doc_items L U after doc) (doc_end doc) 0 =
    (let good = takeWhile (well_typed L U) (outers doc)
     in (map (resource_of L U) good,
         if length good = length (outers doc) then doc_end doc
         else F (of_nat (Suc (length good))) (projr (decode_resource L U (outers doc ! length good)))))"
proof -
  let ?good = "takeWhile (well_typed L U) (outers doc)"
  have "length ?good \<noteq> length (outers doc) \<Longrightarrow> length ?good < length (outers doc)"
    using length_takeWhile_le [of "well_typed L U" "outers doc"] by simp
  then show ?thesis by (simp add: decode_outcomes doc_outcomes takeWhile_decode Let_def comp_def)
qed

text \<open>
  C25. The tool's view of a whole document: End goes over the resource elements that are not
  inside another one, in their order, and the statistics are those of the values of these elements and of
  the ones that match, if all are well typed and the document is XML to its end. Otherwise Stats fails,
  with the number and the error of the first element that is not well typed, or with the error of the
  XML decoder; no record is counted twice, left out or made up.
\<close>

theorem document_exact:
  assumes "\<And>n e. Errorf n e \<noteq> ErrEOF" "first_bads doc \<noteq> Some ErrEOF"
  shows "Manifest_Stats Errorf S flt (Inl (doc_items L uuid_Parse after doc, doc_end doc)) =
    (let css = outers doc;
         good = takeWhile (well_typed L uuid_Parse) css;
         rs = map (resource_of L uuid_Parse) good
     in if length good < length css then
          (Stats_zero, Stats_zero,
           Some (Errorf (of_nat (Suc (length good))) (projr (decode_resource L uuid_Parse (css ! length good)))))
        else case first_bads doc of
               Some e \<Rightarrow> (Stats_zero, Stats_zero, Some e)
             | None \<Rightarrow> (stats_of (filter (Match flt) rs), stats_of rs, None))"
proof -
  have e: "doc_end doc = ErrEOF \<longleftrightarrow> first_bads doc = None" using assms(2) by (auto simp: doc_end_def split: option.split)
  have l: "length (takeWhile (well_typed L uuid_Parse) (outers doc)) < length (outers doc) \<longleftrightarrow>
      length (takeWhile (well_typed L uuid_Parse) (outers doc)) \<noteq> length (outers doc)"
    using length_takeWhile_le [of "well_typed L uuid_Parse" "outers doc"] by linarith
  obtain rs err where d: "decode_all Errorf (doc_items L uuid_Parse after doc) (doc_end doc) 0 = (rs, err)" by fastforce
  have st: "Manifest_Stats Errorf S flt (Inl (doc_items L uuid_Parse after doc, doc_end doc)) =
      (if err = ErrEOF then (stats_of (filter (Match flt) rs), stats_of rs, None) else (Stats_zero, Stats_zero, Some err))"
    using stream_exact [where F = Errorf and items = "doc_items L uuid_Parse after doc" and e = "doc_end doc" and S = S and flt = flt] d
    by simp
  let ?good = "takeWhile (well_typed L uuid_Parse) (outers doc)"
  have r: "rs = map (resource_of L uuid_Parse) ?good"
    "err = (if length ?good = length (outers doc) then doc_end doc
      else Errorf (of_nat (Suc (length ?good))) (projr (decode_resource L uuid_Parse (outers doc ! length ?good))))"
    using document_read [of Errorf L uuid_Parse after doc] d by (simp_all add: Let_def)
  show ?thesis
  proof (cases "length ?good = length (outers doc)")
    case True
    then show ?thesis using st r e by (cases "first_bads doc") (simp_all add: Let_def doc_end_def)
  next
    case False
    then show ?thesis using st r(2) l assms(1) by (simp add: Let_def)
  qed
qed

section \<open>Sources (source.go, manifest.go)\<close>

text \<open>
  The file system of the moment: the results of os.Stat, os.Open and ioutil.ReadFile, a content being the stream that
  it decodes to. A manifest is its source.
\<close>

record file_system =
  fs_Stat :: "string list \<Rightarrow> Info + gerr"
  fs_Open :: "string list \<Rightarrow> (item list \<times> gerr) + gerr"
  fs_ReadFile :: "string list \<Rightarrow> (item list \<times> gerr) + gerr"

datatype source = fileSource "string list" | bufferedSource "item list \<times> gerr" Info

definition fileSource_Reader :: "file_system \<Rightarrow> string list \<Rightarrow> manifest" where
  "fileSource_Reader fs path = fs_Open fs path"

definition fileSource_Info :: "file_system \<Rightarrow> string list \<Rightarrow> Info \<times> gerr option" where
  "fileSource_Info fs path =
     (case fs_Stat fs path of
        Inr e \<Rightarrow> (\<lparr>in_Modified = time_zero, in_Size = 0\<rparr>, Some e)
      | Inl fi \<Rightarrow> (\<lparr>in_Modified = in_Modified fi, in_Size = in_Size fi\<rparr>, None))"

definition bufferedSource_Reader :: "item list \<times> gerr \<Rightarrow> manifest" where
  "bufferedSource_Reader content = Inl content"

definition bufferedSource_Info :: "Info \<Rightarrow> Info \<times> gerr option" where
  "bufferedSource_Info info = (info, None)"

definition source_Reader :: "file_system \<Rightarrow> source \<Rightarrow> manifest" where
  "source_Reader fs s =
     (case s of fileSource path \<Rightarrow> fileSource_Reader fs path | bufferedSource content info \<Rightarrow> bufferedSource_Reader content)"

definition source_Info :: "file_system \<Rightarrow> source \<Rightarrow> Info \<times> gerr option" where
  "source_Info fs s =
     (case s of fileSource path \<Rightarrow> fileSource_Info fs path | bufferedSource content info \<Rightarrow> bufferedSource_Info info)"

definition manifest_New :: "source \<Rightarrow> source" where "manifest_New s = s"

definition manifest_File :: "string list \<Rightarrow> source" where "manifest_File path = manifest_New (fileSource path)"

definition BufferedFile :: "file_system \<Rightarrow> string list \<Rightarrow> source + gerr" where
  "BufferedFile fs path =
     (case fs_Stat fs path of
        Inr err \<Rightarrow> Inr err
      | Inl fi \<Rightarrow>
          (case fs_ReadFile fs path of
             Inr err \<Rightarrow> Inr err
           | Inl content \<Rightarrow> Inl (manifest_New (bufferedSource content \<lparr>in_Modified = in_Modified fi, in_Size = in_Size fi\<rparr>))))"

definition Manifest_Info :: "file_system \<Rightarrow> source \<Rightarrow> Info \<times> gerr option" where
  "Manifest_Info fs m = source_Info fs m"

text \<open>
  A buffered manifest answers for ever like the file did when it was read, whatever becomes of the file
  (\<open>fs'\<close>); its size and its records are those of one moment only if the file does not change between
  Stat and ReadFile.
\<close>

lemma buffered_snapshot:
  assumes "BufferedFile fs path = Inl m" "fs_ReadFile fs path = fs_Open fs path"
  shows "source_Reader fs' m = source_Reader fs (manifest_File path) \<and> Manifest_Info fs' m = Manifest_Info fs (manifest_File path)"
  using assms
  by (auto simp: BufferedFile_def manifest_New_def manifest_File_def source_Reader_def Manifest_Info_def source_Info_def
      fileSource_Reader_def fileSource_Info_def bufferedSource_Reader_def bufferedSource_Info_def
      split: sum.splits)

lemma buffered_fails_like_file:
  "BufferedFile fs path = Inr e \<Longrightarrow> fs_Stat fs path = Inr e \<or> fs_ReadFile fs path = Inr e"
  by (auto simp: BufferedFile_def split: sum.splits)

section \<open>The summary of statistics (stats.go)\<close>

text \<open>%6d and %8s fill up with spaces on the left; the time in RFC 3339 and the size in words are parameters.\<close>

definition pad_left :: "nat \<Rightarrow> string \<Rightarrow> string" where
  "pad_left n s = replicate (n - length s) (CHR '' '') @ s"

definition Stats_Summary :: "(time \<Rightarrow> string) \<Rightarrow> (64 word \<Rightarrow> string) \<Rightarrow> Stats \<Rightarrow> string" where
  "Stats_Summary RFC3339 ByteSize s =
     (let first = RFC3339 (st_First s); last_time = RFC3339 (st_Last s)
      in ''Entries: '' @ pad_left 6 (show_int (sint (st_Entries s))) @ '', Size: '' @ pad_left 8 (ByteSize (st_Size s)) @
         '', First: '' @ first @ '', Last: '' @ last_time)"

section \<open>Witnesses\<close>

definition tl0 :: time_lib where
  "tl0 = \<lparr>tl_zone = (\<lambda>s. if take 4 s = ''GMT '' then Some 3 else None), tl_offset = (\<lambda>_ _. 0), tl_error = (\<lambda>_. ErrOther 22 [])\<rparr>"

definition date0 :: date where
  "date0 = \<lparr>da_Year = 2017, da_Month = 2, da_Day = 28, da_Hour = 7, da_Min = 5, da_Sec = 30, da_Nsec = 0\<rparr>"

definition res0 :: Resource where
  "res0 = \<lparr>re_Path = ''a'', re_UID = ''u'', re_GVSN = [], re_Attributes = [], re_NewName = ''b'', re_Files = 0, re_Size = 7,
     re_PartnerGUID = 5, re_PartnerHost = [], re_PartnerDN = [], re_Type = ''Conflict'', re_Time = date_instant date0\<rparr>"

lemma date0_valid: "valid_date date0"
  by (simp add: valid_date_def date0_def daysIn_def)

lemma gmt_known: "known_zone tl0 ''GMT''"
  by (simp add: known_zone_def tl0_def)


theorem document_exact_witness:
  "Manifest_Stats (\<lambda>n e. ErrOther (unat n) (Error e)) (\<lambda>_. []) None
     (Inl (doc_items tl0 (\<lambda>s. Inl 5) (\<lambda>_. [])
        [El ''Manifest'' [El ''Resource'' [El ''Size'' [Text ''7'']], El ''Resource'' [El ''Files'' [Text ''x'']]]], ErrEOF)) =
   (Stats_zero, Stats_zero, Some (ErrOther 2 (Error (not_consumed ''Resource''))))"
proof -
  let ?doc = "[El ''Manifest'' [El ''Resource'' [El ''Size'' [Text ''7'']], El ''Resource'' [El ''Files'' [Text ''x'']]]]"
  have v: "ParseInt64 (TrimSpace ''7'') = Some 7" "ParseInt64 (TrimSpace ''x'') = None"
    by (simp_all add: ParseInt64_def TrimSpace_def is_space_def digit_val_def)
  have w: "well_typed tl0 (\<lambda>s. Inl 5) [El ''Size'' [Text ''7'']]" "\<not> well_typed tl0 (\<lambda>s. Inl 5) [El ''Files'' [Text ''x'']]"
    by (simp_all add: well_typed_def child_ok_def v field_text_def last_field_def)
  have d: "decode_resource tl0 (\<lambda>s. Inl 5) [El ''Files'' [Text ''x'']] = Inr (not_consumed ''Resource'')"
    by (simp add: decode_resource_def Resource_UnmarshalXML_def decode_field_def set_int_def decode_int_def decode_string_def v
        resourceElement_def)
  show ?thesis
    using document_exact [where Errorf = "\<lambda>n e. ErrOther (unat n) (Error e)" and doc = ?doc and S = "\<lambda>_. []" and flt = None
      and L = tl0 and uuid_Parse = "\<lambda>s. Inl 5" and after = "\<lambda>_. []"]
    by (simp add: doc_end_def resourceElement_def w d)
qed

end
