(* ===== verification/DirectoryCmds.thy ===== *)
theory DirectoryCmds imports Dfsrconfig begin

text \<open>
  The small users of the configuration client: fetch.go of dfsrconfig, the lookup of the domain of the
  computer that three tools repeat (cmd/rglist, cmd/backlog/utility.go, cmd/dfsrmanifest/resolve_windows.go), and
  the lister of replication groups (cmd/rglist). A printed line is a value with the arguments of its Printf.
\<close>

section \<open>fetch.go\<close>

text \<open>The two queries of Domain are those of the new client.\<close>

definition fetch_Domain ::
  "(config_client \<Rightarrow> NamingContext \<times> gerr option) \<Rightarrow> (config_client \<Rightarrow> Group list \<times> gerr option) \<Rightarrow> time \<times> time \<Rightarrow> string \<Rightarrow>
   Domain \<times> gerr option" where
  "fetch_Domain nc groups clock domain = (let c = cfg_NewClient domain in cfg_Domain (nc c) (groups c) clock)"

section \<open>The domain of the computer\<close>

definition backlog_dnc :: "'o adsi \<Rightarrow> ('o, string \<times> gerr option) prog" where
  "backlog_dnc A =
     (case ad_Open A ''LDAP://RootDSE'' of
        Inr e \<Rightarrow> Done ([], Some e)
      | Inl rootDSE \<Rightarrow> using_handle (HObject rootDSE) (Done (ob_AttrString A rootDSE ''rootDomainNamingContext'')))"

definition manifest_dnc :: "'o adsi \<Rightarrow> ('o, string \<times> gerr option) prog" where
  "manifest_dnc A =
     (case ad_Open A ''LDAP://RootDSE'' of
        Inr e \<Rightarrow> Done ([], Some e)
      | Inl rootDSE \<Rightarrow> using_handle (HObject rootDSE) (Done (ob_AttrString A rootDSE ''rootDomainNamingContext'')))"

definition rootDNC :: "'o adsi \<Rightarrow> ('o, string \<times> gerr option) prog" where
  "rootDNC A =
     (case ad_Open A ''LDAP://RootDSE'' of
        Inr err \<Rightarrow> Done ([], Some err)
      | Inl rootDSE \<Rightarrow> using_handle (HObject rootDSE) (Done (ob_AttrString A rootDSE ''rootDomainNamingContext'')))"

text \<open>The four copies are one function.\<close>

lemma dnc_copies: "backlog_dnc A = cfg_dnc A" "manifest_dnc A = cfg_dnc A" "rootDNC A = cfg_dnc A"
  by (simp_all add: backlog_dnc_def manifest_dnc_def rootDNC_def cfg_dnc_def LDAP_def)

section \<open>The lister (rglist.go)\<close>

datatype listing =
    LsDomain string uuid string duration
  | LsGroup nat string uuid duration
  | LsFolder string uuid
  | LsMember string uuid string string
  | LsConnection string string uuid string
  | LsDuration duration

definition list_connection :: "Connection \<Rightarrow> listing" where
  "list_connection conn =
     (let enabledMark = (if cn_Enabled conn then ''x'' else '' '')
      in LsConnection enabledMark (cn_Name conn) (cn_ID conn) (co_Host (cn_Computer conn)))"

definition list_member :: "Member \<Rightarrow> listing list" where
  "list_member m =
     (let info = m_MemberInfo m
      in LsMember (mi_Name info) (mi_ID info) (co_Host (mi_Computer info)) (ls_Version (mi_Settings info)) #
         map list_connection (m_Connections m))"

definition list_group :: "nat \<Rightarrow> Group \<Rightarrow> listing list" where
  "list_group i g =
     LsGroup i (g_Name g) (g_ID g) (g_ConfigDuration g) # map (\<lambda>f. LsFolder (f_Name f) (f_ID f)) (g_Folders g) @
     concat (map list_member (g_Members g))"

fun list_groups :: "nat \<Rightarrow> Group list \<Rightarrow> listing list" where
  "list_groups i [] = []"
| "list_groups i (g # gs) = list_group i g @ list_groups (Suc i) gs"

definition list_domain :: "Domain \<Rightarrow> listing list" where
  "list_domain d =
     (let nc = d_NamingContext d
      in LsDomain (nc_Description nc) (nc_ID nc) (nc_DN nc) (d_ConfigDuration d) # list_groups 0 (d_Groups d) @
         [LsDuration (d_ConfigDuration d)])"

text \<open>main: the lines, or the error of log.Fatal. The domain may be given as an argument.\<close>

definition rglist_main ::
  "gerr option \<Rightarrow> string \<Rightarrow> string \<times> gerr option \<Rightarrow> (string \<Rightarrow> Domain \<times> gerr option) \<Rightarrow> listing list + gerr" where
  "rglist_main client_err arg dnc Domain_of =
     (case client_err of
        Some err \<Rightarrow> Inr err
      | None \<Rightarrow>
          (case (if arg = [] then dnc else (arg, None)) of
             (_, Some dncErr) \<Rightarrow> Inr dncErr
           | (domain, None) \<Rightarrow>
               (case Domain_of domain of
                  (_, Some err) \<Rightarrow> Inr err
                | (d, None) \<Rightarrow> Inl (list_domain d))))"

text \<open>
  Everything is listed: reading a listing back gives the groups with their numbers, and in each its
  folders, members and connections, in the order of the configuration.
\<close>

definition listed_connections :: "listing list \<Rightarrow> (string \<times> uuid) list" where
  "listed_connections ls = concat (map (\<lambda>l. case l of LsConnection e n i h \<Rightarrow> [(n, i)] | _ \<Rightarrow> []) ls)"

definition listed_members :: "listing list \<Rightarrow> (string \<times> uuid) list" where
  "listed_members ls = concat (map (\<lambda>l. case l of LsMember n i h v \<Rightarrow> [(n, i)] | _ \<Rightarrow> []) ls)"

definition listed_groups :: "listing list \<Rightarrow> (nat \<times> string \<times> uuid) list" where
  "listed_groups ls = concat (map (\<lambda>l. case l of LsGroup k n i d \<Rightarrow> [(k, n, i)] | _ \<Rightarrow> []) ls)"

definition listed_folders :: "listing list \<Rightarrow> (string \<times> uuid) list" where
  "listed_folders ls = concat (map (\<lambda>l. case l of LsFolder n i \<Rightarrow> [(n, i)] | _ \<Rightarrow> []) ls)"

lemmas listed_defs = listed_connections_def listed_members_def listed_groups_def listed_folders_def

lemma listed_member:
  "listed_connections (list_member m) = map (\<lambda>c. (cn_Name c, cn_ID c)) (m_Connections m)"
  "listed_members (list_member m) = [(mi_Name (m_MemberInfo m), mi_ID (m_MemberInfo m))]"
  "listed_groups (list_member m) = []" "listed_folders (list_member m) = []"
  by (simp_all add: listed_defs list_member_def list_connection_def Let_def comp_def)

lemma listed_append:
  "listed_connections (xs @ ys) = listed_connections xs @ listed_connections ys"
  "listed_members (xs @ ys) = listed_members xs @ listed_members ys"
  "listed_groups (xs @ ys) = listed_groups xs @ listed_groups ys"
  "listed_folders (xs @ ys) = listed_folders xs @ listed_folders ys"
  by (simp_all add: listed_defs)

lemma listed_members_of:
  "listed_connections (concat (map list_member ms)) = map (\<lambda>c. (cn_Name c, cn_ID c)) (concat (map m_Connections ms))"
  "listed_members (concat (map list_member ms)) = map (\<lambda>m. (mi_Name (m_MemberInfo m), mi_ID (m_MemberInfo m))) ms"
  "listed_groups (concat (map list_member ms)) = []" "listed_folders (concat (map list_member ms)) = []"
  by (induction ms) (simp_all add: listed_append listed_member, simp_all add: listed_defs)

lemma listed_group:
  "listed_connections (list_group i g) = map (\<lambda>c. (cn_Name c, cn_ID c)) (concat (map m_Connections (g_Members g)))"
  "listed_members (list_group i g) = map (\<lambda>m. (mi_Name (m_MemberInfo m), mi_ID (m_MemberInfo m))) (g_Members g)"
  "listed_groups (list_group i g) = [(i, g_Name g, g_ID g)]"
  "listed_folders (list_group i g) = map (\<lambda>f. (f_Name f, f_ID f)) (g_Folders g)"
proof -
  have h: "list_group i g = [LsGroup i (g_Name g) (g_ID g) (g_ConfigDuration g)] @ map (\<lambda>f. LsFolder (f_Name f) (f_ID f)) (g_Folders g) @
      concat (map list_member (g_Members g))" by (simp add: list_group_def)
  show "listed_connections (list_group i g) = map (\<lambda>c. (cn_Name c, cn_ID c)) (concat (map m_Connections (g_Members g)))"
    "listed_members (list_group i g) = map (\<lambda>m. (mi_Name (m_MemberInfo m), mi_ID (m_MemberInfo m))) (g_Members g)"
    "listed_groups (list_group i g) = [(i, g_Name g, g_ID g)]"
    "listed_folders (list_group i g) = map (\<lambda>f. (f_Name f, f_ID f)) (g_Folders g)"
    unfolding h listed_append listed_members_of by (simp_all add: listed_defs comp_def)
qed

lemma listed_groups_of:
  "listed_connections (list_groups i gs) = map (\<lambda>c. (cn_Name c, cn_ID c)) (concat (map m_Connections (concat (map g_Members gs))))"
  "listed_members (list_groups i gs) = map (\<lambda>m. (mi_Name (m_MemberInfo m), mi_ID (m_MemberInfo m))) (concat (map g_Members gs))"
  "listed_groups (list_groups i gs) = map (\<lambda>(k, g). (k, g_Name g, g_ID g)) (enumerate i gs)"
  "listed_folders (list_groups i gs) = map (\<lambda>f. (f_Name f, f_ID f)) (concat (map g_Folders gs))"
  by (induction gs arbitrary: i) (simp_all add: listed_append listed_group, simp_all add: listed_defs)

lemma rglist_complete:
  assumes "rglist_main client_err arg dnc Domain_of = Inl ls"
  shows "\<exists>d domain. Domain_of domain = (d, None) \<and> domain = (if arg = [] then fst dnc else arg) \<and>
    listed_groups ls = map (\<lambda>(k, g). (k, g_Name g, g_ID g)) (enumerate 0 (d_Groups d)) \<and>
    listed_folders ls = map (\<lambda>f. (f_Name f, f_ID f)) (concat (map g_Folders (d_Groups d))) \<and>
    listed_members ls = map (\<lambda>m. (mi_Name (m_MemberInfo m), mi_ID (m_MemberInfo m))) (concat (map g_Members (d_Groups d))) \<and>
    listed_connections ls = map (\<lambda>c. (cn_Name c, cn_ID c)) (concat (map m_Connections (concat (map g_Members (d_Groups d)))))"
proof -
  obtain d domain where d: "Domain_of domain = (d, None)" "domain = (if arg = [] then fst dnc else arg)" "ls = list_domain d"
    using assms by (auto simp: rglist_main_def split: option.splits prod.splits if_splits)
  let ?nc = "d_NamingContext d"
  have l: "ls = [LsDomain (nc_Description ?nc) (nc_ID ?nc) (nc_DN ?nc) (d_ConfigDuration d)] @ list_groups 0 (d_Groups d) @
      [LsDuration (d_ConfigDuration d)]" by (simp add: d(3) list_domain_def Let_def)
  have "listed_groups ls = map (\<lambda>(k, g). (k, g_Name g, g_ID g)) (enumerate 0 (d_Groups d))"
    "listed_folders ls = map (\<lambda>f. (f_Name f, f_ID f)) (concat (map g_Folders (d_Groups d)))"
    "listed_members ls = map (\<lambda>m. (mi_Name (m_MemberInfo m), mi_ID (m_MemberInfo m))) (concat (map g_Members (d_Groups d)))"
    "listed_connections ls = map (\<lambda>c. (cn_Name c, cn_ID c)) (concat (map m_Connections (concat (map g_Members (d_Groups d)))))"
    unfolding l listed_append listed_groups_of by (simp_all add: listed_defs)
  with d(1,2) show ?thesis by blast
qed

end
