(* ===== verification/ServiceConfig.thy ===== *)
theory ServiceConfig imports Prelude begin

text \<open>
  The configuration of the Windows service (svc/dfsrmonitor: settings.go, environment.go, constants.go,
  manage.go): its settings as command line arguments, the analysis of the installation path, and
  the control of an installed service.

  The package flag of the standard library is modelled as far as the code uses it. The
  conversions of bindflag and of package time, the functions of path/filepath on Windows and the
  service control manager are parameters.
\<close>

section \<open>Package flag\<close>

text \<open>
  A flag set gives for a name whether the flag is boolean, and how it is set. Parsing stops at the
  first argument that is not a flag.
\<close>

type_synonym 's flagset = "(string \<times> bool \<times> (string \<Rightarrow> 's \<Rightarrow> 's + gerr)) list"

definition flag_set :: "string \<Rightarrow> (string \<Rightarrow> 's \<Rightarrow> 's + gerr) \<Rightarrow> string \<Rightarrow> 's \<Rightarrow> 's + gerr" where
  "flag_set name set_value v s =
     (case set_value v s of
        Inl s \<Rightarrow> Inl s
      | Inr e \<Rightarrow> Inr (ErrOther 40 (''invalid value '' @ v @ '' for flag -'' @ name @ '': '' @ Error e)))"

fun flag_Parse :: "'s flagset \<Rightarrow> string list \<Rightarrow> 's \<Rightarrow> 's \<times> gerr option" where
  "flag_Parse fs [] s = (s, None)"
| "flag_Parse fs (a # args) s =
     (if length a < 2 \<or> hd a \<noteq> CHR ''-'' then (s, None)
      else
        (let name = tl a; name = (if hd name = CHR ''-'' then tl name else name)
         in if name = [] then (s, None)
            else if hd name = CHR ''-'' \<or> hd name = CHR ''='' then (s, Some (ErrOther 41 (''bad flag syntax: '' @ a)))
            else
              (let key = takeWhile (\<lambda>c. c \<noteq> CHR ''='') name; rest = dropWhile (\<lambda>c. c \<noteq> CHR ''='') name
               in case map_of fs key of
                    None \<Rightarrow> (s, Some (ErrOther 42 (''flag provided but not defined: -'' @ key)))
                  | Some (True, set_value) \<Rightarrow>
                      (case flag_set key set_value (if rest = [] then ''true'' else tl rest) s of
                         Inl s \<Rightarrow> flag_Parse fs args s
                       | Inr e \<Rightarrow> (s, Some e))
                  | Some (False, set_value) \<Rightarrow>
                      (if rest \<noteq> [] then
                         (case flag_set key set_value (tl rest) s of Inl s \<Rightarrow> flag_Parse fs args s | Inr e \<Rightarrow> (s, Some e))
                       else
                         (case args of
                            [] \<Rightarrow> (s, Some (ErrOther 43 (''flag needs an argument: -'' @ key)))
                          | v # args \<Rightarrow>
                              (case flag_set key set_value v s of Inl s \<Rightarrow> flag_Parse fs args s | Inr e \<Rightarrow> (s, Some e)))))))"

section \<open>Settings (settings.go)\<close>

record Settings =
  se_Domain :: string
  se_ConfigPollingInterval :: duration
  se_ConfigPollingTimeout :: duration
  se_BacklogPollingInterval :: duration
  se_BacklogPollingTimeout :: duration
  se_VectorCacheDuration :: duration
  se_Limit :: "64 word"
  se_StatHatKey :: string
  se_StatHatFormat :: string

definition DefaultSettings :: Settings where
  "DefaultSettings = \<lparr>se_Domain = [], se_ConfigPollingInterval = 15 * Minute, se_ConfigPollingTimeout = 2 * Minute,
     se_BacklogPollingInterval = 5 * Minute, se_BacklogPollingTimeout = 5 * Minute, se_VectorCacheDuration = 30 * Second,
     se_Limit = 1, se_StatHatKey = [], se_StatHatFormat = []\<rparr>"

text \<open>The conversions: bindflag's, and String of time.Duration.\<close>

record bindlib =
  bl_String :: "string \<Rightarrow> string + gerr"
  bl_Duration :: "string \<Rightarrow> duration + gerr"
  bl_Uint :: "string \<Rightarrow> 64 word + gerr"
  bl_Bool :: "string \<Rightarrow> bool + gerr"
  du_String :: "duration \<Rightarrow> string"

definition store :: "(string \<Rightarrow> 'v + gerr) \<Rightarrow> ('v \<Rightarrow> 's \<Rightarrow> 's) \<Rightarrow> string \<Rightarrow> 's \<Rightarrow> 's + gerr" where
  "store conv put v s = (case conv v of Inl x \<Rightarrow> Inl (put x s) | Inr e \<Rightarrow> Inr e)"

definition Settings_Bind :: "bindlib \<Rightarrow> Settings flagset" where
  "Settings_Bind L =
     [(''domain'', False, store (bl_String L) (\<lambda>v s. s\<lparr>se_Domain := v\<rparr>)),
      (''cpi'', False, store (bl_Duration L) (\<lambda>v s. s\<lparr>se_ConfigPollingInterval := v\<rparr>)),
      (''cpt'', False, store (bl_Duration L) (\<lambda>v s. s\<lparr>se_ConfigPollingTimeout := v\<rparr>)),
      (''bpi'', False, store (bl_Duration L) (\<lambda>v s. s\<lparr>se_BacklogPollingInterval := v\<rparr>)),
      (''bpt'', False, store (bl_Duration L) (\<lambda>v s. s\<lparr>se_BacklogPollingTimeout := v\<rparr>)),
      (''cache'', False, store (bl_Duration L) (\<lambda>v s. s\<lparr>se_VectorCacheDuration := v\<rparr>)),
      (''limit'', False, store (bl_Uint L) (\<lambda>v s. s\<lparr>se_Limit := v\<rparr>)),
      (''shk'', False, store (bl_String L) (\<lambda>v s. s\<lparr>se_StatHatKey := v\<rparr>)),
      (''shf'', False, store (bl_String L) (\<lambda>v s. s\<lparr>se_StatHatFormat := v\<rparr>))]"

definition Settings_Parse :: "bindlib \<Rightarrow> string list \<Rightarrow> Settings \<Rightarrow> Settings \<times> gerr option" where
  "Settings_Parse L args s = flag_Parse (Settings_Bind L) args s"

definition makeArg :: "string \<Rightarrow> string \<Rightarrow> string" where
  "makeArg name v = ''-'' @ name @ ''='' @ v"

definition Settings_Args :: "bindlib \<Rightarrow> Settings \<Rightarrow> string list" where
  "Settings_Args L s =
     (if se_Domain s \<noteq> [] then [makeArg ''domain'' (se_Domain s)] else []) @
     (if se_ConfigPollingInterval s \<noteq> 0 then [makeArg ''cpi'' (du_String L (se_ConfigPollingInterval s))] else []) @
     (if se_ConfigPollingTimeout s \<noteq> 0 then [makeArg ''cpt'' (du_String L (se_ConfigPollingTimeout s))] else []) @
     (if se_BacklogPollingInterval s \<noteq> 0 then [makeArg ''bpi'' (du_String L (se_BacklogPollingInterval s))] else []) @
     (if se_BacklogPollingTimeout s \<noteq> 0 then [makeArg ''bpt'' (du_String L (se_BacklogPollingTimeout s))] else []) @
     (if se_VectorCacheDuration s \<noteq> 0 then [makeArg ''cache'' (du_String L (se_VectorCacheDuration s))] else []) @
     (if se_Limit s \<noteq> 0 then [makeArg ''limit'' (show_nat (unat (se_Limit s)))] else []) @
     (if se_StatHatKey s \<noteq> [] then [makeArg ''shk'' (se_StatHatKey s)] else []) @
     (if se_StatHatFormat s \<noteq> [] then [makeArg ''shf'' (se_StatHatFormat s)] else [])"

section \<open>Environment (environment.go)\<close>

record Environment =
  en_ServiceName :: string
  en_DisplayName :: string
  en_Description :: string
  en_IsInteractive :: bool
  en_IsDebug :: bool
  en_Account :: string
  en_Password :: string
  en_ExePath :: string
  en_InstallInPlace :: bool
  en_InstallPath :: string
  en_InstallDir :: string
  en_ProgramFiles :: string
  en_Settings :: Settings

definition environment0 :: Environment where
  "environment0 = \<lparr>en_ServiceName = ''dfsrmonitor'', en_DisplayName = ''DFSR Monitor'',
     en_Description = ''Monitors DFSR backlog counts'', en_IsInteractive = False, en_IsDebug = False, en_Account = [],
     en_Password = [], en_ExePath = [], en_InstallInPlace = False, en_InstallPath = [], en_InstallDir = [],
     en_ProgramFiles = [], en_Settings = DefaultSettings\<rparr>"

text \<open>A flag of the settings as a flag of the environment that contains them.\<close>

definition lift_flag ::
  "string \<times> bool \<times> (string \<Rightarrow> Settings \<Rightarrow> Settings + gerr) \<Rightarrow> string \<times> bool \<times> (string \<Rightarrow> Environment \<Rightarrow> Environment + gerr)" where
  "lift_flag f = (case f of (name, b, put) \<Rightarrow>
     (name, b, \<lambda>v e. case put v (en_Settings e) of Inl s \<Rightarrow> Inl (e\<lparr>en_Settings := s\<rparr>) | Inr err \<Rightarrow> Inr err))"

definition Environment_Bind :: "bindlib \<Rightarrow> Environment flagset" where
  "Environment_Bind L =
     [(''name'', False, store (bl_String L) (\<lambda>v e. e\<lparr>en_DisplayName := v\<rparr>)),
      (''desc'', False, store (bl_String L) (\<lambda>v e. e\<lparr>en_Description := v\<rparr>)),
      (''account'', False, store (bl_String L) (\<lambda>v e. e\<lparr>en_Account := v\<rparr>)),
      (''password'', False, store (bl_String L) (\<lambda>v e. e\<lparr>en_Password := v\<rparr>)),
      (''inplace'', True, store (bl_Bool L) (\<lambda>v e. e\<lparr>en_InstallInPlace := v\<rparr>)),
      (''path'', False, store (bl_String L) (\<lambda>v e. e\<lparr>en_InstallPath := v\<rparr>))] @ map lift_flag (Settings_Bind L)"

definition Environment_Parse :: "bindlib \<Rightarrow> string list \<Rightarrow> Environment \<Rightarrow> Environment \<times> gerr option" where
  "Environment_Parse L args e = flag_Parse (Environment_Bind L) args e"

text \<open>Detect: the results of exePath and programFilesDir; the error of the latter comes first.\<close>

definition Environment_Detect ::
  "string \<times> gerr option \<Rightarrow> string \<times> gerr option \<Rightarrow> Environment \<Rightarrow> Environment \<times> gerr option" where
  "Environment_Detect exe programs e =
     (e\<lparr>en_ExePath := fst exe, en_ProgramFiles := fst programs\<rparr>,
      if snd programs \<noteq> None then snd programs else snd exe)"

record filepath =
  fp_Clean :: "string \<Rightarrow> string"
  fp_Join :: "string \<Rightarrow> string \<Rightarrow> string"
  fp_Ext :: "string \<Rightarrow> string"
  fp_File :: "string \<Rightarrow> string"
  fp_Dir :: "string \<Rightarrow> string"

definition Environment_Analyze :: "filepath \<Rightarrow> Environment \<Rightarrow> Environment" where
  "Environment_Analyze F e =
     (let e = (if en_InstallInPlace e then e\<lparr>en_InstallPath := en_ExePath e\<rparr> else e);
          e = (if en_InstallPath e \<noteq> [] then e\<lparr>en_InstallPath := fp_Clean F (en_InstallPath e)\<rparr> else e);
          e = (if en_InstallPath e = [] \<and> en_ProgramFiles e \<noteq> []
               then (if en_DisplayName e \<noteq> [] then e\<lparr>en_InstallPath := fp_Join F (en_ProgramFiles e) (en_DisplayName e)\<rparr>
                     else e\<lparr>en_InstallPath := fp_Join F (en_ProgramFiles e) (en_ServiceName e)\<rparr>)
               else e);
          e = (if en_InstallPath e \<noteq> [] \<and> fp_Ext F (en_InstallPath e) = []
               then e\<lparr>en_InstallPath := fp_Join F (en_InstallPath e) (fp_File F (en_ExePath e))\<rparr> else e);
          e = (if en_InstallPath e = [] then e\<lparr>en_InstallPath := en_ExePath e\<rparr> else e)
      in e\<lparr>en_InstallDir := fp_Dir F (en_InstallPath e)\<rparr>)"

definition Environment_Validate :: "Environment \<Rightarrow> gerr option" where
  "Environment_Validate e =
     (if Contains (en_InstallPath e) [CHR 0x22] then Some (ErrOther 51 ''installation path contains quotation marks'')
      else if en_ServiceName e = [] then Some (ErrOther 52 ''unable to determine service name'')
      else if en_ExePath e = [] then Some (ErrOther 53 ''unable to determine executable path'')
      else if en_InstallPath e = [] then Some (ErrOther 54 ''unable to determine installation path'')
      else if en_InstallDir e = [] then Some (ErrOther 55 ''unable to determine installation directory'')
      else None)"

section \<open>Control of the service (manage.go)\<close>

text \<open>
  The loop of controlService: each pass reads the clock and, 300 ms later, asks for the state of the
  service. The list has the readings and the answers; None means that they are not enough for the loop to
  end.
\<close>

fun control_loop :: "nat \<Rightarrow> time \<Rightarrow> nat \<Rightarrow> (time \<times> (nat + gerr)) list \<Rightarrow> gerr option option" where
  "control_loop goal deadline state passes =
     (if state = goal then Some None
      else (case passes of
              [] \<Rightarrow> None
            | (now, answer) # passes \<Rightarrow>
                (if Before deadline now
                 then Some (Some (ErrOther 60 (''Timeout waiting for service to go to state='' @ show_nat goal)))
                 else (case answer of
                         Inr e \<Rightarrow> Some (Some (ErrOther 61 (''Could not retrieve service status: '' @ Error e)))
                       | Inl state \<Rightarrow> control_loop goal deadline state passes))))"

declare control_loop.simps [simp del]

lemma control_loop_here [simp]: "control_loop goal d goal ps = Some None"
  by (subst control_loop.simps) simp

lemma control_loop_short [simp]: "state \<noteq> goal \<Longrightarrow> control_loop goal d state [] = None"
  by (subst control_loop.simps) simp

lemma control_loop_pass: "state \<noteq> goal \<Longrightarrow> control_loop goal d state ((now, answer) # ps) =
    (if Before d now then Some (Some (ErrOther 60 (''Timeout waiting for service to go to state='' @ show_nat goal)))
     else (case answer of
             Inr e \<Rightarrow> Some (Some (ErrOther 61 (''Could not retrieve service status: '' @ Error e)))
           | Inl state \<Rightarrow> control_loop goal d state ps))"
  by (subst control_loop.simps) simp

definition controlService ::
  "gerr option \<Rightarrow> gerr option \<Rightarrow> nat + gerr \<Rightarrow> time \<Rightarrow> (time \<times> (nat + gerr)) list \<Rightarrow> nat \<Rightarrow> nat \<Rightarrow> gerr option option" where
  "controlService connect_err open_err status start passes c goal =
     (case connect_err of
        Some e \<Rightarrow> Some (Some e)
      | None \<Rightarrow>
          (case open_err of
             Some e \<Rightarrow> Some (Some (ErrOther 62 (''Could not access service: '' @ Error e)))
           | None \<Rightarrow>
               (case status of
                  Inr e \<Rightarrow> Some (Some (ErrOther 63 (''Could not send control='' @ show_nat c @ '': '' @ Error e)))
                | Inl state \<Rightarrow> control_loop goal (TimeAdd start (10 * Second)) state passes)))"

section \<open>Arguments are read back\<close>

lemma parse_makeArg:
  assumes "name \<noteq> []" "hd name \<noteq> CHR ''-''" "CHR ''='' \<notin> set name" "map_of fs name = Some (False, store conv put)" "conv v = Inl x"
  shows "flag_Parse fs (makeArg name v # args) s = flag_Parse fs args (put x s)"
proof -
  obtain c n where n: "name = c # n" using assms(1) by (cases name) auto
  have t: "takeWhile (\<lambda>c. c \<noteq> CHR ''='') (name @ CHR ''='' # v) = name" "dropWhile (\<lambda>c. c \<noteq> CHR ''='') (name @ CHR ''='' # v) = CHR ''='' # v"
    using assms(3) by (induction name) auto
  have "c \<noteq> CHR ''-''" "c \<noteq> CHR ''=''" using assms(2,3) n by auto
  with t assms(4,5) show ?thesis
    by (simp add: makeArg_def n flag_set_def store_def)
qed

text \<open>What Parse makes of the arguments of \<open>s\<close>: the fields of \<open>s\<close> that are not zero.\<close>

definition overlay :: "Settings \<Rightarrow> Settings \<Rightarrow> Settings" where
  "overlay s d = \<lparr>
     se_Domain = (if se_Domain s = [] then se_Domain d else se_Domain s),
     se_ConfigPollingInterval = (if se_ConfigPollingInterval s = 0 then se_ConfigPollingInterval d else se_ConfigPollingInterval s),
     se_ConfigPollingTimeout = (if se_ConfigPollingTimeout s = 0 then se_ConfigPollingTimeout d else se_ConfigPollingTimeout s),
     se_BacklogPollingInterval = (if se_BacklogPollingInterval s = 0 then se_BacklogPollingInterval d else se_BacklogPollingInterval s),
     se_BacklogPollingTimeout = (if se_BacklogPollingTimeout s = 0 then se_BacklogPollingTimeout d else se_BacklogPollingTimeout s),
     se_VectorCacheDuration = (if se_VectorCacheDuration s = 0 then se_VectorCacheDuration d else se_VectorCacheDuration s),
     se_Limit = (if se_Limit s = 0 then se_Limit d else se_Limit s),
     se_StatHatKey = (if se_StatHatKey s = [] then se_StatHatKey d else se_StatHatKey s),
     se_StatHatFormat = (if se_StatHatFormat s = [] then se_StatHatFormat d else se_StatHatFormat s)\<rparr>"

definition faithful :: "bindlib \<Rightarrow> bool" where
  "faithful L \<longleftrightarrow> (\<forall>v. bl_String L v = Inl v) \<and> (\<forall>d. bl_Duration L (du_String L d) = Inl d) \<and>
     (\<forall>n. bl_Uint L (show_nat (unat n)) = Inl n)"

lemma optional_arg:
  assumes "name \<noteq> []" "hd name \<noteq> CHR ''-''" "CHR ''='' \<notin> set name" "map_of fs name = Some (False, store conv put)" "conv v = Inl x"
  shows "flag_Parse fs ((if b then [makeArg name v] else []) @ args) s = flag_Parse fs args (if b then put x s else s)"
  using parse_makeArg [OF assms] by simp

lemma optional_last:
  assumes "name \<noteq> []" "hd name \<noteq> CHR ''-''" "CHR ''='' \<notin> set name" "map_of fs name = Some (False, store conv put)" "conv v = Inl x"
  shows "flag_Parse fs (if b then [makeArg name v] else []) s = (if b then put x s else s, None)"
  using optional_arg [OF assms, of b "[]" s] by simp

lemma args_overlay:
  assumes "faithful L"
  shows "Settings_Parse L (Settings_Args L s) d = (overlay s d, None)"
proof -
  have b: "map_of (Settings_Bind L) ''domain'' = Some (False, store (bl_String L) (\<lambda>v s. s\<lparr>se_Domain := v\<rparr>))"
    "map_of (Settings_Bind L) ''cpi'' = Some (False, store (bl_Duration L) (\<lambda>v s. s\<lparr>se_ConfigPollingInterval := v\<rparr>))"
    "map_of (Settings_Bind L) ''cpt'' = Some (False, store (bl_Duration L) (\<lambda>v s. s\<lparr>se_ConfigPollingTimeout := v\<rparr>))"
    "map_of (Settings_Bind L) ''bpi'' = Some (False, store (bl_Duration L) (\<lambda>v s. s\<lparr>se_BacklogPollingInterval := v\<rparr>))"
    "map_of (Settings_Bind L) ''bpt'' = Some (False, store (bl_Duration L) (\<lambda>v s. s\<lparr>se_BacklogPollingTimeout := v\<rparr>))"
    "map_of (Settings_Bind L) ''cache'' = Some (False, store (bl_Duration L) (\<lambda>v s. s\<lparr>se_VectorCacheDuration := v\<rparr>))"
    "map_of (Settings_Bind L) ''limit'' = Some (False, store (bl_Uint L) (\<lambda>v s. s\<lparr>se_Limit := v\<rparr>))"
    "map_of (Settings_Bind L) ''shk'' = Some (False, store (bl_String L) (\<lambda>v s. s\<lparr>se_StatHatKey := v\<rparr>))"
    "map_of (Settings_Bind L) ''shf'' = Some (False, store (bl_String L) (\<lambda>v s. s\<lparr>se_StatHatFormat := v\<rparr>))"
    by (simp_all add: Settings_Bind_def)
  have c: "bl_String L v = Inl v" "bl_Duration L (du_String L t) = Inl t" "bl_Uint L (show_nat (unat n)) = Inl n" for v t n
    using assms by (simp_all add: faithful_def)
  have "flag_Parse (Settings_Bind L) (Settings_Args L s) d = (overlay s d, None)"
    unfolding Settings_Args_def
    by (simp only: append_assoc optional_arg [OF _ _ _ b(1) c(1)] optional_arg [OF _ _ _ b(2) c(2)] optional_arg [OF _ _ _ b(3) c(2)]
        optional_arg [OF _ _ _ b(4) c(2)] optional_arg [OF _ _ _ b(5) c(2)] optional_arg [OF _ _ _ b(6) c(2)]
        optional_arg [OF _ _ _ b(7) c(3)] optional_arg [OF _ _ _ b(8) c(1)] optional_last [OF _ _ _ b(9) c(1)]
        list.sel list.simps char.inject set_simps insert_iff empty_iff simp_thms) (simp add: overlay_def)
  then show ?thesis by (simp add: Settings_Parse_def)
qed

section \<open>Analysis\<close>

text \<open>What package filepath documents: a cleaned path, a directory and a join of two names are never empty.\<close>

definition never_empty :: "filepath \<Rightarrow> bool" where
  "never_empty F \<longleftrightarrow> (\<forall>p. fp_Clean F p \<noteq> []) \<and> (\<forall>p. fp_Dir F p \<noteq> []) \<and> (\<forall>p q. p \<noteq> [] \<longrightarrow> fp_Join F p q \<noteq> [])"

lemma analyze_paths:
  assumes "never_empty F" "en_ExePath e \<noteq> []"
  shows "en_InstallPath (Environment_Analyze F e) \<noteq> []" "en_InstallDir (Environment_Analyze F e) = fp_Dir F (en_InstallPath (Environment_Analyze F e))"
    "en_ExePath (Environment_Analyze F e) = en_ExePath e" "en_ServiceName (Environment_Analyze F e) = en_ServiceName e"
    "en_Settings (Environment_Analyze F e) = en_Settings e"
  using assms by (simp_all add: Environment_Analyze_def never_empty_def Let_def)

section \<open>Properties\<close>

text \<open>
  C34. An installed service gets back the settings that the installer had: parsing the arguments that
  Args makes, on top of the defaults, gives every field that is not zero, and the default for
  the others; so nothing is lost exactly if no field is zero whose default is not. This supposes
  that durations and numbers are read back as they are printed.
\<close>

theorem settings_roundtrip:
  assumes "faithful L"
  shows "Settings_Parse L (Settings_Args L s) DefaultSettings = (overlay s DefaultSettings, None) \<and>
    (overlay s DefaultSettings = s \<longleftrightarrow>
      se_ConfigPollingInterval s \<noteq> 0 \<and> se_ConfigPollingTimeout s \<noteq> 0 \<and> se_BacklogPollingInterval s \<noteq> 0 \<and>
      se_BacklogPollingTimeout s \<noteq> 0 \<and> se_VectorCacheDuration s \<noteq> 0 \<and> se_Limit s \<noteq> 0)"
proof -
  have "overlay s DefaultSettings = s \<longleftrightarrow>
      se_ConfigPollingInterval s \<noteq> 0 \<and> se_ConfigPollingTimeout s \<noteq> 0 \<and> se_BacklogPollingInterval s \<noteq> 0 \<and>
      se_BacklogPollingTimeout s \<noteq> 0 \<and> se_VectorCacheDuration s \<noteq> 0 \<and> se_Limit s \<noteq> 0"
    by (cases s) (auto simp: overlay_def DefaultSettings_def)
  with args_overlay [OF assms] show ?thesis by blast
qed

text \<open>A library with unary durations, for the witness.\<close>

definition unary :: bindlib where
  "unary = \<lparr>bl_String = Inl,
     bl_Duration = (\<lambda>s. Inl (if HasPrefix s ''-'' then - int (length s - 1) else int (length s))),
     bl_Uint = (\<lambda>s. Inl (of_nat (fold (\<lambda>c n. n * 10 + (of_char c - 48)) s 0))), bl_Bool = (\<lambda>s. Inl (s = ''true'')),
     du_String = (\<lambda>d. if d < 0 then CHR ''-'' # replicate (nat (- d)) CHR ''s'' else replicate (nat d) CHR ''s'')\<rparr>"

lemma show_nat_value: "fold (\<lambda>c n. n * 10 + (of_char c - 48)) (show_nat n) 0 = n"
proof (induction n rule: show_nat.induct)
  case (1 n)
  show ?case
  proof (cases "n < 10")
    case True
    then show ?thesis by (simp add: show_nat.simps [of n])
  next
    case False
    with 1 have "fold (\<lambda>c n. n * 10 + (of_char c - 48)) (show_nat (n div 10)) 0 = n div 10" by simp
    with False show ?thesis by (simp add: show_nat.simps [of n])
  qed
qed

lemma unary_faithful: "faithful unary"
proof -
  have "HasPrefix (replicate n CHR ''s'') ''-'' = False" for n by (cases n) simp_all
  then show ?thesis by (simp add: faithful_def unary_def show_nat_value)
qed

theorem settings_roundtrip_witness:
  "Settings_Parse unary (Settings_Args unary (DefaultSettings\<lparr>se_Domain := ''x'', se_VectorCacheDuration := 7, se_Limit := 3\<rparr>)) DefaultSettings =
     (DefaultSettings\<lparr>se_Domain := ''x'', se_VectorCacheDuration := 7, se_Limit := 3\<rparr>, None)"
  using settings_roundtrip [OF unary_faithful, of "DefaultSettings\<lparr>se_Domain := ''x'', se_VectorCacheDuration := 7, se_Limit := 3\<rparr>"]
  by (simp add: DefaultSettings_def)

text \<open>A limit of zero (no limit) or a cache duration of zero (no cache) does not survive the installation.\<close>

lemma zero_settings_lost:
  assumes "faithful L"
  shows "fst (Settings_Parse L (Settings_Args L (DefaultSettings\<lparr>se_Limit := 0, se_VectorCacheDuration := 0\<rparr>)) DefaultSettings) = DefaultSettings"
  by (simp add: args_overlay [OF assms] overlay_def DefaultSettings_def)

text \<open>
  Analyze leaves nothing for Validate to object to but a quotation mark in the path: with the path of
  the executable detected and a service name, whatever flags were given, the installation path
  and directory are there, the directory is that of the path, and the settings are untouched.
\<close>

theorem analyze_validates:
  assumes "never_empty F" "en_ExePath e \<noteq> []" "en_ServiceName e \<noteq> []"
  shows "Environment_Validate (Environment_Analyze F e) =
      (if Contains (en_InstallPath (Environment_Analyze F e)) [CHR 0x22] then Some (ErrOther 51 ''installation path contains quotation marks'') else None) \<and>
    en_InstallDir (Environment_Analyze F e) = fp_Dir F (en_InstallPath (Environment_Analyze F e)) \<and>
    en_InstallPath (Environment_Analyze F e) \<noteq> [] \<and> en_Settings (Environment_Analyze F e) = en_Settings e"
  using analyze_paths [OF assms(1,2)] assms by (simp add: Environment_Validate_def never_empty_def)

definition flat :: filepath where
  "flat = \<lparr>fp_Clean = (\<lambda>p. if p = [] then ''.'' else p), fp_Join = (\<lambda>p q. if q = [] then p else p @ CHR 0x5C # q),
     fp_Ext = (\<lambda>p. dropWhile (\<lambda>c. c \<noteq> CHR ''.'') p), fp_File = (\<lambda>p. p), fp_Dir = (\<lambda>p. CHR ''.'' # p)\<rparr>"

theorem analyze_validates_witness:
  "Environment_Validate (Environment_Analyze flat (environment0\<lparr>en_ExePath := ''m.exe'', en_ProgramFiles := ''p''\<rparr>)) = None \<and>
   en_InstallPath (Environment_Analyze flat (environment0\<lparr>en_ExePath := ''m.exe'', en_ProgramFiles := ''p''\<rparr>)) =
     ''p'' @ CHR 0x5C # ''DFSR Monitor'' @ CHR 0x5C # ''m.exe''"
proof -
  let ?e = "environment0\<lparr>en_ExePath := ''m.exe'', en_ProgramFiles := ''p''\<rparr>"
  have n: "never_empty flat" by (simp add: never_empty_def flat_def)
  have p: "en_InstallPath (Environment_Analyze flat ?e) = ''p'' @ CHR 0x5C # ''DFSR Monitor'' @ CHR 0x5C # ''m.exe''"
    by (simp add: Environment_Analyze_def environment0_def flat_def Let_def)
  have "\<not> Contains (''p'' @ CHR 0x5C # ''DFSR Monitor'' @ CHR 0x5C # ''m.exe'') [CHR 0x22]" by code_simp
  with analyze_validates [OF n, of ?e] p show ?thesis by (simp add: environment0_def)
qed

text \<open>
  controlService comes to an end: if the clock never stands still for longer than the pause of a
  pass, 35 passes are enough, and it returns no error only when the service has reached the state
  that was asked for.
\<close>

theorem control_ends:
  assumes "35 \<le> length passes" "\<forall>i < length passes. start + int i * 300000000 \<le> fst (passes ! i)"
  shows "\<exists>r. control_loop goal (TimeAdd start (10 * Second)) state passes = Some r \<and>
    (r = None \<longrightarrow> state = goal \<or> (\<exists>p \<in> set passes. snd p = Inl goal))"
proof -
  have late: "\<exists>r. control_loop goal d state ps = Some r" if "\<exists>p \<in> set ps. d < fst p" for d state ps
    using that
  proof (induction ps arbitrary: state)
    case (Cons p ps)
    then show ?case
      by (cases "state = goal"; cases p) (auto simp: control_loop_pass split: sum.split)
  qed simp
  have reached: "control_loop goal d state ps = Some None \<Longrightarrow> state = goal \<or> (\<exists>p \<in> set ps. snd p = Inl goal)" for d state ps
  proof (induction ps arbitrary: state)
    case Nil
    then show ?case by (cases "state = goal") simp_all
  next
    case (Cons p ps)
    then show ?case
      by (cases "state = goal"; cases p) (auto simp: control_loop_pass split: if_splits sum.splits)
  qed
  have "start + int 34 * 300000000 \<le> fst (passes ! 34)"
    using assms(1) by (intro assms(2) [rule_format]) simp
  then have "TimeAdd start (10 * Second) < fst (passes ! 34)" by simp
  moreover have "passes ! 34 \<in> set passes" using assms(1) by simp
  ultimately obtain r where "control_loop goal (TimeAdd start (10 * Second)) state passes = Some r" using late by blast
  with reached show ?thesis by blast
qed

theorem control_ends_witness:
  "\<exists>r. control_loop 4 (TimeAdd 5 (10 * Second)) 3 (map (\<lambda>i. (5 + int i * 300000000, Inl 3)) [0..<35]) = Some r \<and> r \<noteq> None"
  using control_ends [of "map (\<lambda>i. (5 + int i * 300000000, Inl 3)) [0..<35]" 5 4 3] by auto

end
