(* ===== verification/ServiceInstall.thy ===== *)
theory ServiceInstall imports ServiceConfig begin

text \<open>
  Installation of the Windows service and its commands (svc/dfsrmonitor: install.go, main.go, utility.go, startService of
  manage.go, and the settings that Execute of service.go begins with).

  The state is what these commands change: the registered services, the sources of the event log, the
  files, and the handles that are open. Errors of the system are the answers of a record.
  OpenService fails for a service that does not exist, CreateService for one that does, the
  event log refuses a source that it has and cannot remove one that it has not. File names are
  compared without case, as Windows does.
\<close>

section \<open>State\<close>

record service_entry =
  sv_path :: string
  sv_args :: "string list"
  sv_automatic :: bool
  sv_display :: string
  sv_description :: string
  sv_account :: string
  sv_password :: string

record scm =
  sm_services :: "string \<Rightarrow> service_entry option"
  sm_sources :: "string set"
  sm_disk :: "string \<Rightarrow> string option"
  sm_dirs :: "string set"
  sm_grants :: "(string \<times> string) set"
  sm_started :: "(string \<times> string list) list"
  sm_managers :: nat
  sm_handles :: nat
  sm_files :: nat

record scm_answers =
  an_connect :: "gerr option"
  an_open :: "gerr option"
  an_mkdir :: "gerr option"
  an_src :: "gerr option"
  an_dst :: "gerr option"
  an_copy :: "(nat \<times> gerr) option"      \<comment> \<open>the bytes written before the error\<close>
  an_flush :: "gerr option"
  an_grant :: "gerr option"
  an_create :: "gerr option"
  an_source :: "gerr option"
  an_delete :: "gerr option"
  an_unsource :: "gerr option"
  an_start :: "gerr option"

definition quoted :: "string \<Rightarrow> string" where
  "quoted s = CHR 0x22 # s @ [CHR 0x22]"

section \<open>Paths (utility.go)\<close>

text \<open>Stat tells for a path whether it is a directory.\<close>

definition checkPath :: "(string \<Rightarrow> bool + gerr) \<Rightarrow> string \<Rightarrow> gerr option" where
  "checkPath stat path =
     (case stat path of
        Inr e \<Rightarrow> Some e
      | Inl dir \<Rightarrow> (if dir then Some (ErrOther 70 (path @ '' is a directory'')) else None))"

definition exePath :: "filepath \<Rightarrow> (string \<Rightarrow> string + gerr) \<Rightarrow> (string \<Rightarrow> bool + gerr) \<Rightarrow> string \<Rightarrow> string \<times> gerr option" where
  "exePath F abs_path stat prog =
     (case abs_path prog of
        Inr e \<Rightarrow> ([], Some e)
      | Inl path \<Rightarrow>
          (case checkPath stat path of
             None \<Rightarrow> (path, None)
           | Some e \<Rightarrow>
               (if fp_Ext F path = [] then
                  (let path = path @ ''.exe''
                   in case checkPath stat path of None \<Rightarrow> (path, None) | Some e \<Rightarrow> ([], Some e))
                else ([], Some e))))"

definition programFilesDir :: "string \<Rightarrow> string \<times> gerr option" where
  "programFilesDir dir =
     (if length dir = 0 then ([], Some (ErrOther 71 ''Unable to determine ProgramFiles location'')) else (dir, None))"

definition cp :: "scm_answers \<Rightarrow> string \<Rightarrow> string \<Rightarrow> scm \<Rightarrow> scm \<times> gerr option" where
  "cp A src dst w =
     (if ToLower src = ToLower dst then (w, None)
      else (case (if an_src A = None \<and> sm_disk w (ToLower src) = None then Some (ErrOther 72 ''file does not exist'') else an_src A) of
              Some e \<Rightarrow> (w, Some e)
            | None \<Rightarrow>
                (let content = the (sm_disk w (ToLower src));
                     close_src = (\<lambda>w. w\<lparr>sm_files := sm_files w - 1\<rparr>);
                     w = w\<lparr>sm_files := Suc (sm_files w)\<rparr>
                 in case an_dst A of
                      Some e \<Rightarrow> (close_src w, Some e)
                    | None \<Rightarrow>
                        (let w = w\<lparr>sm_files := Suc (sm_files w)\<rparr>
                         in case an_copy A of
                              Some (n, e) \<Rightarrow>
                                (close_src (w\<lparr>sm_disk := (sm_disk w)(ToLower dst \<mapsto> take n content), sm_files := sm_files w - 1\<rparr>), Some e)
                            | None \<Rightarrow>
                                (close_src (w\<lparr>sm_disk := (sm_disk w)(ToLower dst \<mapsto> content), sm_files := sm_files w - 1\<rparr>), an_flush A)))))"

section \<open>The service control manager\<close>

definition OpenService :: "scm_answers \<Rightarrow> string \<Rightarrow> scm \<Rightarrow> scm + gerr" where
  "OpenService A name w =
     (case sm_services w name of
        None \<Rightarrow> Inr (ErrOther 73 ''The specified service does not exist as an installed service.'')
      | Some _ \<Rightarrow> (case an_open A of Some e \<Rightarrow> Inr e | None \<Rightarrow> Inl (w\<lparr>sm_handles := Suc (sm_handles w)\<rparr>)))"

definition CreateService :: "scm_answers \<Rightarrow> string \<Rightarrow> service_entry \<Rightarrow> scm \<Rightarrow> scm + gerr" where
  "CreateService A name entry w =
     (if sm_services w name \<noteq> None then Inr (ErrOther 74 ''The specified service already exists.'')
      else (case an_create A of
              Some e \<Rightarrow> Inr e
            | None \<Rightarrow> Inl (w\<lparr>sm_services := (sm_services w)(name \<mapsto> entry), sm_handles := Suc (sm_handles w)\<rparr>)))"

definition close_service :: "scm \<Rightarrow> scm" where
  "close_service w = w\<lparr>sm_handles := sm_handles w - 1\<rparr>"

definition Delete :: "scm_answers \<Rightarrow> string \<Rightarrow> scm \<Rightarrow> scm \<times> gerr option" where
  "Delete A name w =
     (case an_delete A of Some e \<Rightarrow> (w, Some e) | None \<Rightarrow> (w\<lparr>sm_services := (sm_services w)(name := None)\<rparr>, None))"

definition InstallAsEventCreate :: "scm_answers \<Rightarrow> string \<Rightarrow> scm \<Rightarrow> scm \<times> gerr option" where
  "InstallAsEventCreate A name w =
     (if name \<in> sm_sources w then (w, Some (ErrOther 75 (name @ '' registry key already exists'')))
      else (case an_source A of Some e \<Rightarrow> (w, Some e) | None \<Rightarrow> (w\<lparr>sm_sources := insert name (sm_sources w)\<rparr>, None)))"

definition eventlog_Remove :: "scm_answers \<Rightarrow> string \<Rightarrow> scm \<Rightarrow> scm \<times> gerr option" where
  "eventlog_Remove A name w =
     (if name \<notin> sm_sources w then (w, Some (ErrOther 76 ''The system cannot find the file specified.''))
      else (case an_unsource A of Some e \<Rightarrow> (w, Some e) | None \<Rightarrow> (w\<lparr>sm_sources := sm_sources w - {name}\<rparr>, None)))"

text \<open>mgr.Connect, and Disconnect at the end.\<close>

definition connected :: "(scm \<Rightarrow> scm \<times> gerr option) \<Rightarrow> scm \<Rightarrow> scm \<times> gerr option" where
  "connected body w =
     (case body (w\<lparr>sm_managers := Suc (sm_managers w)\<rparr>) of (w, r) \<Rightarrow> (w\<lparr>sm_managers := sm_managers w - 1\<rparr>, r))"

section \<open>Installation (install.go)\<close>

definition install_entry :: "bindlib \<Rightarrow> Environment \<Rightarrow> service_entry" where
  "install_entry L e =
     (let conf = \<lparr>sv_path = en_InstallPath e, sv_args = Settings_Args L (en_Settings e), sv_automatic = True,
                  sv_display = en_DisplayName e, sv_description = en_Description e, sv_account = [], sv_password = []\<rparr>;
          conf = (if en_Account e \<noteq> [] then conf\<lparr>sv_account := en_Account e\<rparr> else conf)
      in if en_Password e \<noteq> [] then conf\<lparr>sv_password := en_Password e\<rparr> else conf)"

definition install_create :: "scm_answers \<Rightarrow> bindlib \<Rightarrow> Environment \<Rightarrow> scm \<Rightarrow> scm \<times> gerr option" where
  "install_create A L e w =
     (case CreateService A (en_ServiceName e) (install_entry L e) w of
        Inr err \<Rightarrow> (w, Some (ErrOther 80 (''unable to create service '' @ en_ServiceName e @ '' using '' @
                      quoted (en_InstallPath e) @ '': '' @ Error err)))
      | Inl w \<Rightarrow>
          (case InstallAsEventCreate A (en_ServiceName e) w of
             (w, Some err) \<Rightarrow> (close_service (fst (Delete A (en_ServiceName e) w)),
                             Some (ErrOther 81 (''creation of event log source failed: '' @ Error err)))
           | (w, None) \<Rightarrow> (close_service w, None)))"

definition grant :: "scm_answers \<Rightarrow> string \<Rightarrow> string \<Rightarrow> scm \<Rightarrow> scm \<times> gerr option" where
  "grant A path account w =
     (case an_grant A of
        Some e \<Rightarrow> (w, Some e)
      | None \<Rightarrow> (w\<lparr>sm_grants := insert (ToLower path, account) (sm_grants w)\<rparr>, None))"

definition install_files :: "scm_answers \<Rightarrow> Environment \<Rightarrow> scm \<Rightarrow> scm \<times> gerr option" where
  "install_files A e w =
     (case an_mkdir A of
        Some err \<Rightarrow> (w, Some (ErrOther 82 (''unable to create installation directory '' @ quoted (en_InstallDir e) @ '': '' @ Error err)))
      | None \<Rightarrow>
          (case cp A (en_ExePath e) (en_InstallPath e) (w\<lparr>sm_dirs := insert (ToLower (en_InstallDir e)) (sm_dirs w)\<rparr>) of
             (w, Some err) \<Rightarrow> (w, Some (ErrOther 83 (''unable to copy '' @ quoted (en_ExePath e) @ '' to '' @
                               quoted (en_InstallPath e) @ '': '' @ Error err)))
           | (w, None) \<Rightarrow>
               (if en_Account e \<noteq> [] then
                  (case grant A (en_InstallDir e) (en_Account e) w of
                     (w, Some err) \<Rightarrow> (w, Some (ErrOther 84 (''unable to grant read and execute rights to '' @
                         quoted (en_Account e) @ '' for '' @ quoted (en_InstallDir e) @ '': '' @ Error err)))
                   | (w, None) \<Rightarrow> (w, None))
                else (w, None))))"

definition install_body :: "scm_answers \<Rightarrow> bindlib \<Rightarrow> Environment \<Rightarrow> scm \<Rightarrow> scm \<times> gerr option" where
  "install_body A L e w =
     (case OpenService A (en_ServiceName e) w of
        Inl w \<Rightarrow> (close_service w, Some (ErrOther 86 (''service '' @ quoted (en_ServiceName e) @ '' already exists'')))
      | Inr _ \<Rightarrow>
          (case Environment_Validate e of
             Some err \<Rightarrow> (w, Some (ErrOther 87 (''invalid configuration: '' @ Error err)))
           | None \<Rightarrow>
               (case install_files A e w of
                  (w, Some err) \<Rightarrow> (w, Some err)
                | (w, None) \<Rightarrow> install_create A L e w)))"

definition installService :: "scm_answers \<Rightarrow> bindlib \<Rightarrow> Environment \<Rightarrow> scm \<Rightarrow> scm \<times> gerr option" where
  "installService A L e w =
     (case an_connect A of
        Some err \<Rightarrow> (w, Some (ErrOther 85 (''Unable to connect to local service manager: '' @ Error err)))
      | None \<Rightarrow>
          connected (install_body A L e) w)"

definition removeService :: "scm_answers \<Rightarrow> Environment \<Rightarrow> scm \<Rightarrow> scm \<times> gerr option" where
  "removeService A e w =
     (case an_connect A of
        Some err \<Rightarrow> (w, Some err)
      | None \<Rightarrow>
          connected (\<lambda>w.
            case OpenService A (en_ServiceName e) w of
              Inr _ \<Rightarrow> (w, Some (ErrOther 88 (''service '' @ en_ServiceName e @ '' is not installed'')))
            | Inl w \<Rightarrow>
                (case Delete A (en_ServiceName e) w of
                   (w, Some err) \<Rightarrow> (close_service w, Some err)
                 | (w, None) \<Rightarrow>
                     (case eventlog_Remove A (en_ServiceName e) w of
                        (w, Some err) \<Rightarrow> (close_service w, Some (ErrOther 89 (''removal of event log source failed: '' @ Error err)))
                      | (w, None) \<Rightarrow> (close_service w, None)))) w)"

section \<open>Start (manage.go) and the settings of the service (service.go)\<close>

definition startService :: "scm_answers \<Rightarrow> Environment \<Rightarrow> scm \<Rightarrow> scm \<times> gerr option" where
  "startService A e w =
     (case an_connect A of
        Some err \<Rightarrow> (w, Some err)
      | None \<Rightarrow>
          connected (\<lambda>w.
            case OpenService A (en_ServiceName e) w of
              Inr err \<Rightarrow> (w, Some (ErrOther 62 (''Could not access service: '' @ Error err)))
            | Inl w \<Rightarrow>
                (case an_start A of
                   Some err \<Rightarrow> (close_service w, Some (ErrOther 90 (''Could not start service: '' @ Error err)))
                 | None \<Rightarrow>
                     (close_service (w\<lparr>sm_started := (en_ServiceName e, [''is'', ''manual-started'']) # sm_started w\<rparr>), None))) w)"

text \<open>
  Step 1 of Execute. Its arguments begin with the name of the service; those of the process, with
  the path of the executable. flag.ExitOnError ends the process: None.
\<close>

definition Execute_settings :: "bindlib \<Rightarrow> Environment \<Rightarrow> string list \<Rightarrow> string list \<Rightarrow> Settings option" where
  "Execute_settings L e args os_args =
     (let settings = en_Settings e;
          parse = (\<lambda>args. case Settings_Parse L args settings of (s, None) \<Rightarrow> Some s | (s, Some _) \<Rightarrow> None)
      in if \<not> en_IsInteractive e then
           (if 1 < length args then parse (tl args)
            else if 1 < length os_args then parse (tl os_args)
            else Some settings)
         else Some settings)"

section \<open>Commands (main.go)\<close>

datatype main_result =
    Exited nat
  | RunService Environment
  | Command string "gerr option"

text \<open>
  The controls stop, pause and continue are 1, 2 and 3; the states stopped, running and paused are 1, 4 and 7. The
  control of the service is a parameter: the result of controlService for a control and a state.
\<close>

definition service_main ::
  "scm_answers \<Rightarrow> bindlib \<Rightarrow> filepath \<Rightarrow> bool + gerr \<Rightarrow> string list \<Rightarrow> string \<times> gerr option \<Rightarrow> string \<times> gerr option \<Rightarrow>
     (nat \<Rightarrow> nat \<Rightarrow> gerr option) \<Rightarrow> scm \<Rightarrow> scm \<times> main_result" where
  "service_main A L F interactive os_args exe programs control w =
     (case interactive of
        Inr _ \<Rightarrow> (w, Exited 2)
      | Inl i \<Rightarrow>
          (let e = environment0\<lparr>en_IsInteractive := i\<rparr>
           in if \<not> i then (w, RunService e)
              else if length os_args < 2 then (w, Exited 2)
              else (case Environment_Parse L (drop 2 os_args) e of
                      (e, Some _) \<Rightarrow> (w, Exited 2)
                    | (e, None) \<Rightarrow>
                        (case Environment_Detect exe programs e of
                           (e, Some _) \<Rightarrow> (w, Exited 2)
                         | (e, None) \<Rightarrow>
                             (let e = Environment_Analyze F e; cmd = ToLower (os_args ! 1);
                                  ran = (\<lambda>(w, err). (w, Command cmd err))
                              in if cmd = ''debug'' then (w, RunService (e\<lparr>en_IsDebug := True\<rparr>))
                                 else if cmd = ''install'' then ran (installService A L e w)
                                 else if cmd = ''remove'' then ran (removeService A e w)
                                 else if cmd = ''start'' then ran (startService A e w)
                                 else if cmd = ''stop'' then ran (w, control 1 1)
                                 else if cmd = ''pause'' then ran (w, control 2 7)
                                 else if cmd = ''continue'' then ran (w, control 3 4)
                                 else (w, Exited 2))))))"

section \<open>Frames\<close>

text \<open>What the operations on files leave alone.\<close>

definition same_registry :: "scm \<Rightarrow> scm \<Rightarrow> bool" where
  "same_registry w v \<longleftrightarrow> sm_services v = sm_services w \<and> sm_sources v = sm_sources w \<and> sm_managers v = sm_managers w \<and>
     sm_handles v = sm_handles w \<and> sm_files v = sm_files w"

lemma cp_registry: "cp A src dst w = (v, r) \<Longrightarrow> same_registry w v"
  by (auto simp: cp_def same_registry_def Let_def split: if_splits option.splits)

lemma cp_copies: "cp A src dst w = (v, None) \<Longrightarrow> sm_disk v (ToLower dst) = sm_disk w (ToLower src)"
  by (auto simp: cp_def Let_def split: if_splits option.splits)

lemma install_files_registry: "install_files A e w = (v, r) \<Longrightarrow> same_registry w v"
  using cp_registry
  by (fastforce simp: install_files_def grant_def same_registry_def split: if_splits option.splits prod.splits)

lemma install_files_copies:
  "install_files A e w = (v, None) \<Longrightarrow> sm_disk v (ToLower (en_InstallPath e)) = sm_disk w (ToLower (en_ExePath e))"
  using cp_copies
  by (fastforce simp: install_files_def grant_def split: if_splits option.splits prod.splits)

definition registers :: "scm_answers \<Rightarrow> bindlib \<Rightarrow> Environment \<Rightarrow> scm \<Rightarrow> scm \<Rightarrow> gerr option \<Rightarrow> bool" where
  "registers A L e w v r \<longleftrightarrow>
     sm_handles v = sm_handles w \<and> sm_managers v = sm_managers w \<and> sm_files v = sm_files w \<and>
     (if r = None
      then sm_services w (en_ServiceName e) = None \<and> en_ServiceName e \<notin> sm_sources w \<and>
           sm_services v = (sm_services w)(en_ServiceName e \<mapsto> install_entry L e) \<and>
           sm_sources v = insert (en_ServiceName e) (sm_sources w)
      else sm_sources v = sm_sources w \<and> (an_delete A = None \<longrightarrow> sm_services v = sm_services w))"

lemma install_create_registers:
  "install_create A L e w = (v, r) \<Longrightarrow> registers A L e w v r \<and> (sm_disk v = sm_disk w)"
  by (auto simp: install_create_def registers_def CreateService_def InstallAsEventCreate_def Delete_def close_service_def
      split: if_splits option.splits)

lemma registers_early: "same_registry w v \<Longrightarrow> registers A L e w v (Some err)"
  by (simp add: registers_def same_registry_def)

lemma body_registers:
  assumes "install_body A L e w = (v, r)"
  shows "registers A L e w v r \<and> (r = None \<longrightarrow> Environment_Validate e = None \<and>
    sm_disk v (ToLower (en_InstallPath e)) = sm_disk w (ToLower (en_ExePath e)))"
proof (cases "OpenService A (en_ServiceName e) w")
  case (Inl u)
  then have "same_registry w (close_service u)"
    by (auto simp: OpenService_def close_service_def same_registry_def split: option.splits)
  with assms Inl registers_early show ?thesis by (auto simp: install_body_def)
next
  case (Inr x)
  note opened = this
  obtain u f where f: "install_files A e w = (u, f)" by (cases "install_files A e w")
  note u = install_files_registry [OF f]
  show ?thesis
  proof (cases "Environment_Validate e = None \<and> f = None")
    case True
    then have "install_create A L e u = (v, r)" using assms opened f by (simp add: install_body_def)
    from install_create_registers [OF this] u install_files_copies [of A e w u] f True show ?thesis
      by (auto simp: registers_def same_registry_def split: if_splits)
  next
    case False
    then show ?thesis using assms opened f u by (auto simp: install_body_def registers_def same_registry_def split: option.splits)
  qed
qed

lemma install_registers:
  assumes "installService A L e w = (v, r)"
  shows "registers A L e w v r"
    "r = None \<Longrightarrow> Environment_Validate e = None \<and> sm_disk v (ToLower (en_InstallPath e)) = sm_disk w (ToLower (en_ExePath e))"
proof -
  let ?w = "w\<lparr>sm_managers := Suc (sm_managers w)\<rparr>"
  obtain u x where b: "install_body A L e ?w = (u, x)" by (cases "install_body A L e ?w")
  from assms b body_registers [OF b] show "registers A L e w v r"
    by (auto simp: installService_def connected_def registers_def split: option.splits)
  assume "r = None"
  with assms b body_registers [OF b]
  show "Environment_Validate e = None \<and> sm_disk v (ToLower (en_InstallPath e)) = sm_disk w (ToLower (en_ExePath e))"
    by (auto simp: installService_def connected_def split: option.splits)
qed

section \<open>Properties\<close>


definition no_errors :: scm_answers where
  "no_errors = \<lparr>an_connect = None, an_open = None, an_mkdir = None, an_src = None, an_dst = None, an_copy = None, an_flush = None,
     an_grant = None, an_create = None, an_source = None, an_delete = None, an_unsource = None, an_start = None\<rparr>"

definition machine0 :: scm where
  "machine0 = \<lparr>sm_services = (\<lambda>_. None), sm_sources = {}, sm_disk = (\<lambda>_. None)(''m.exe'' \<mapsto> ''code''), sm_dirs = {}, sm_grants = {},
     sm_started = [], sm_managers = 0, sm_handles = 0, sm_files = 0\<rparr>"

definition sample :: Environment where
  "sample = environment0\<lparr>en_ExePath := ''m.exe'', en_InstallPath := ''p'' @ CHR 0x5C # ''m.exe'', en_InstallDir := ''p''\<rparr>"

lemma sample_valid: "Environment_Validate sample = None"
proof -
  have "\<not> Contains (''p'' @ CHR 0x5C # ''m.exe'') [CHR 0x22]" by code_simp
  then show ?thesis by (simp add: Environment_Validate_def sample_def environment0_def)
qed

text \<open>The file copied and the service created; and the creation of the event source refused.\<close>

lemma lower_paths: "ToLower ''m.exe'' = ''m.exe''" "ToLower (''p'' @ CHR 0x5C # ''m.exe'') = ''p'' @ CHR 0x5C # ''m.exe''"
  by code_simp+

lemma sample_installs: "\<exists>v. installService no_errors L sample machine0 = (v, None)"
  using sample_valid lower_paths
  by (simp add: installService_def install_body_def connected_def OpenService_def machine0_def install_files_def cp_def no_errors_def sample_def
      environment0_def install_create_def CreateService_def InstallAsEventCreate_def)


text \<open>
  Removal undoes an installation: with a working system removeService ends without error, the registered
  services and the event sources are those before the installation, and no handle stays open.
\<close>

theorem remove_undoes_install:
  assumes "installService A L e w = (v, None)" "an_connect B = None" "an_open B = None" "an_delete B = None" "an_unsource B = None"
  shows "\<exists>u. removeService B e v = (u, None) \<and> sm_services u = sm_services w \<and> sm_sources u = sm_sources w \<and>
    sm_handles u = sm_handles w \<and> sm_managers u = sm_managers w"
  using install_registers(1) [OF assms(1)] assms(2-)
  by (auto simp: registers_def removeService_def connected_def OpenService_def Delete_def eventlog_Remove_def close_service_def)

theorem remove_undoes_install_witness:
  "\<exists>v u. installService no_errors unary sample machine0 = (v, None) \<and> removeService no_errors sample v = (u, None) \<and>
     sm_services u = sm_services machine0 \<and> sm_sources u = {}"
proof -
  obtain v where v: "installService no_errors unary sample machine0 = (v, None)" using sample_installs by blast
  have "sm_sources machine0 = {}" by (simp add: machine0_def)
  with remove_undoes_install [OF v, of no_errors] v show ?thesis by (auto simp: no_errors_def)
qed

text \<open>
  When only the event source could not be removed, the service is gone and the source stays for good: a
  second removal finds no service, and an installation fails at the source.
\<close>

lemma half_removed_is_stuck:
  assumes "sm_services w (en_ServiceName e) = None" "en_ServiceName e \<in> sm_sources w"
  shows "snd (removeService A e w) \<noteq> None" "sm_sources (fst (removeService A e w)) = sm_sources w"
    "snd (installService A L e w) \<noteq> None"
proof -
  show "snd (removeService A e w) \<noteq> None" "sm_sources (fst (removeService A e w)) = sm_sources w"
    using assms by (simp_all add: removeService_def connected_def OpenService_def split: option.splits)
  obtain v r where i: "installService A L e w = (v, r)" by (cases "installService A L e w")
  with install_registers(1) [OF i] assms show "snd (installService A L e w) \<noteq> None" by (auto simp: registers_def split: if_splits)
qed

lemma failed_removal_half_removes:
  assumes "an_connect A = None" "an_open A = None" "an_delete A = None" "an_unsource A \<noteq> None"
    "sm_services w (en_ServiceName e) \<noteq> None" "en_ServiceName e \<in> sm_sources w"
  shows "sm_services (fst (removeService A e w)) (en_ServiceName e) = None"
    "en_ServiceName e \<in> sm_sources (fst (removeService A e w))" "snd (removeService A e w) \<noteq> None"
  using assms by (auto simp: removeService_def connected_def OpenService_def Delete_def eventlog_Remove_def close_service_def)

text \<open>
  Which settings an installed service runs with: started by Windows, whose only argument is the name
  of the service, it reads the command line it was registered with, so it has the settings of the
  installer up to the zero fields. Started by the command start, it has the defaults whatever was
  installed, because startService passes arguments of its own and Execute prefers them.
\<close>

theorem installed_settings:
  assumes "faithful L" "installService A L e w = (v, None)" "sm_services v (en_ServiceName e) = Some entry"
    "startService B e v = (u, None)"
  shows "Execute_settings L environment0 [en_ServiceName e] (sv_path entry # sv_args entry) = Some (overlay (en_Settings e) DefaultSettings) \<and>
    Execute_settings L environment0 (en_ServiceName e # snd (hd (sm_started u))) (sv_path entry # sv_args entry) = Some DefaultSettings"
proof -
  have entry: "sv_args entry = Settings_Args L (en_Settings e)"
    using install_registers(1) [OF assms(2)] assms(3) by (auto simp: registers_def install_entry_def Let_def)
  have d: "overlay s DefaultSettings = DefaultSettings" if "Settings_Args L s = []" for s
    using that by (simp add: Settings_Args_def overlay_def split: if_splits)
  have auto: "Execute_settings L environment0 [en_ServiceName e] (sv_path entry # sv_args entry) = Some (overlay (en_Settings e) DefaultSettings)"
  proof (cases "sv_args entry = []")
    case True
    with entry d show ?thesis by (simp add: Execute_settings_def environment0_def)
  next
    case False
    have "Settings_Parse L (sv_args entry) DefaultSettings = (overlay (en_Settings e) DefaultSettings, None)"
      using args_overlay [OF assms(1)] entry by simp
    with False show ?thesis by (simp add: Execute_settings_def environment0_def)
  qed
  have "hd (sm_started u) = (en_ServiceName e, [''is'', ''manual-started''])"
    using assms(4) by (auto simp: startService_def connected_def OpenService_def close_service_def split: option.splits)
  then have "Execute_settings L environment0 (en_ServiceName e # snd (hd (sm_started u))) (sv_path entry # sv_args entry) = Some DefaultSettings"
    by (simp add: Execute_settings_def environment0_def Settings_Parse_def)
  with auto show ?thesis ..
qed

definition sample_limited :: Environment where
  "sample_limited = sample\<lparr>en_Settings := DefaultSettings\<lparr>se_Limit := 9\<rparr>\<rparr>"

theorem installed_settings_witness:
  "\<exists>v u entry. installService no_errors unary sample_limited machine0 = (v, None) \<and>
     startService no_errors sample_limited v = (u, None) \<and> sm_services v ''dfsrmonitor'' = Some entry \<and>
     Execute_settings unary environment0 [''dfsrmonitor''] (sv_path entry # sv_args entry) = Some (DefaultSettings\<lparr>se_Limit := 9\<rparr>) \<and>
     Execute_settings unary environment0 (''dfsrmonitor'' # snd (hd (sm_started u))) (sv_path entry # sv_args entry) = Some DefaultSettings"
proof -
  have n: "en_ServiceName sample_limited = ''dfsrmonitor''" "en_Settings sample_limited = DefaultSettings\<lparr>se_Limit := 9\<rparr>"
    by (simp_all add: sample_limited_def sample_def environment0_def)
  have "Environment_Validate sample_limited = None"
    using sample_valid by (simp add: Environment_Validate_def sample_limited_def split: if_splits)
  then obtain v where v: "installService no_errors unary sample_limited machine0 = (v, None)"
    using lower_paths
    by (simp add: installService_def install_body_def connected_def OpenService_def machine0_def install_files_def cp_def no_errors_def
        sample_limited_def sample_def environment0_def install_create_def CreateService_def InstallAsEventCreate_def)
  let ?entry = "install_entry unary sample_limited"
  have e: "sm_services v ''dfsrmonitor'' = Some ?entry" using install_registers(1) [OF v] n by (simp add: registers_def)
  then obtain u where u: "startService no_errors sample_limited v = (u, None)"
    using n by (simp add: startService_def connected_def OpenService_def no_errors_def)
  from installed_settings [OF unary_faithful v _ u, of ?entry] v u e n show ?thesis
    by (auto simp: overlay_def DefaultSettings_def)
qed

end
