(* ===== verification/Service.thy ===== *)
theory Service imports Monitor ServiceInstall begin

text \<open>
  The Windows service (svc/dfsrmonitor/service.go): the loop of Execute over the monitor, and the log of
  an update.

  The machine is that of the monitor (theory Monitor) with the goroutine of Execute: the requests
  that it takes from Windows, the goroutines it starts for Close, Stop and Start, and the first
  channel of the broadcaster, which only Execute reads. A status that it sends to Windows is
  taken at once. A goroutine waits in the list of calls until it takes the mutex of the monitor.
\<close>

section \<open>State\<close>

datatype request =
    Interrogate nat      \<comment> \<open>with the current status\<close>
  | ReqStop
  | ReqShutdown
  | ReqPause
  | ReqContinue
  | ReqOther nat

datatype status = StartPending | Running | StopPending | Paused | Current nat

datatype call_task = TaskClose | TaskStop | TaskStart

datatype exec_pc =
    XUpdate              \<comment> \<open>before mon.Update()\<close>
  | XUpdating            \<comment> \<open>inside it\<close>
  | XLoop
  | XDeferred            \<comment> \<open>before the deferred mon.Close() and cfg.Close()\<close>
  | XReturned

record xsys =
  x_mon :: msys
  x_pc :: exec_pc
  x_tasks :: "call_task list"
  x_status :: "status list"
  x_log :: "request list"
  x_watched :: "nat list"

section \<open>Execute\<close>

text \<open>
  runService: what the event log gets, given the errors of opening it and of Run. A service whose event log cannot
  be opened ends without a word.
\<close>

datatype log_event = LogInfo string | LogError string gerr | LogClose

definition runService :: "gerr option \<Rightarrow> gerr option \<Rightarrow> Environment \<Rightarrow> log_event list" where
  "runService open_err run_err env =
     (if \<not> en_IsDebug env \<and> open_err \<noteq> None then []
      else LogInfo (''Starting '' @ en_ServiceName env @ '' service.'') #
           (case run_err of
              Some err \<Rightarrow> [LogError (''Failed to start '' @ en_ServiceName env @ '' service'') err, LogClose]
            | None \<Rightarrow> [LogInfo (''Stopped '' @ en_ServiceName env @ '' service.''), LogClose]))"

lemma runService_silent: "\<not> en_IsDebug env \<Longrightarrow> runService (Some e) run_err env = []"
  by (simp add: runService_def)

text \<open>
  Up to the loop: the results of Start and WaitReady of the configuration monitor, then the
  monitor with the channel of the service, that of the consumer if there is one, and its first
  poller. The left result is the machine; the right one the result of Execute.
\<close>

definition Execute_listen :: "nat \<Rightarrow> msys \<Rightarrow> msys" where
  "Execute_listen chanSize m =
     (case bc_Listen (int chanSize) (ms_bc m) of Some (ch, b) \<Rightarrow> m\<lparr>ms_bc := b\<rparr> | None \<Rightarrow> m)"

definition Execute_begin :: "Settings \<Rightarrow> gerr option \<Rightarrow> gerr option \<Rightarrow> xsys + (bool \<times> nat)" where
  "Execute_begin settings cfg_start cfg_ready =
     (if cfg_start \<noteq> None then Inr (True, 2)
      else if cfg_ready \<noteq> None then Inr (True, 2)
      else
        (let mon = msys_new (se_BacklogPollingInterval settings) (se_BacklogPollingTimeout settings)
                     (se_VectorCacheDuration settings) (unat (se_Limit settings));
             mon = Execute_listen 16 mon;
             mon = (if se_StatHatKey settings \<noteq> [] then Execute_listen 16 mon else mon)
         in case Monitor_Start mon of
              Some (None, mon) \<Rightarrow>
                Inl \<lparr>x_mon = mon, x_pc = XUpdate, x_tasks = [], x_status = [StartPending, Running], x_log = [], x_watched = []\<rparr>
            | _ \<Rightarrow> Inr (True, 1)))"

definition x_init :: "xsys \<Rightarrow> bool" where
  "x_init s \<longleftrightarrow> (\<exists>settings. Execute_begin settings None None = Inl s)"

text \<open>mon.Update(), which returns at once if it has no pulse to send.\<close>

definition Execute_update :: "xsys \<Rightarrow> xsys option" where
  "Execute_update s =
     (if x_pc s = XUpdate
      then map_option (\<lambda>m. s\<lparr>x_mon := m, x_pc := (if ms_holder m = MoFree then XLoop else XUpdating)\<rparr>) (Monitor_Update (x_mon s))
      else None)"

fun Execute_request :: "request \<Rightarrow> xsys \<Rightarrow> xsys" where
  "Execute_request (Interrogate c) s = s\<lparr>x_status := x_status s @ [Current c, Current c]\<rparr>"
| "Execute_request ReqStop s = s\<lparr>x_status := x_status s @ [StopPending], x_tasks := x_tasks s @ [TaskClose]\<rparr>"
| "Execute_request ReqShutdown s = s\<lparr>x_status := x_status s @ [StopPending], x_tasks := x_tasks s @ [TaskClose]\<rparr>"
| "Execute_request ReqPause s = s\<lparr>x_status := x_status s @ [Paused], x_tasks := x_tasks s @ [TaskStop]\<rparr>"
| "Execute_request ReqContinue s = s\<lparr>x_status := x_status s @ [Running], x_tasks := x_tasks s @ [TaskStart]\<rparr>"
| "Execute_request (ReqOther n) s = s"

definition Execute_select :: "request \<Rightarrow> xsys \<Rightarrow> xsys option" where
  "Execute_select r s =
     (if x_pc s = XLoop then Some (let t = Execute_request r s in t\<lparr>x_log := x_log t @ [r]\<rparr>) else None)"

text \<open>The receive from monChan; every update goes to a goroutine of watchUpdate.\<close>

definition monChan :: "xsys \<Rightarrow> bchan" where
  "monChan s = br_chans (ms_bc (x_mon s)) ! 0"

definition Execute_receive :: "xsys \<Rightarrow> xsys option" where
  "Execute_receive s =
     (if x_pc s = XLoop then
        (case bch_queue (monChan s) of
           u # q \<Rightarrow> map_option (\<lambda>m. s\<lparr>x_mon := m, x_watched := x_watched s @ [u]\<rparr>) (monitor_bc (BrReceive 0) (x_mon s))
         | [] \<Rightarrow> (if bch_closed (monChan s) then Some (s\<lparr>x_pc := XDeferred\<rparr>) else None))
      else None)"

definition Execute_deferred :: "xsys \<Rightarrow> xsys option" where
  "Execute_deferred s =
     (if x_pc s = XDeferred then map_option (\<lambda>m. s\<lparr>x_mon := m, x_pc := XReturned\<rparr>) (Monitor_Close (x_mon s)) else None)"

text \<open>A goroutine makes its call.\<close>

fun task_call :: "call_task \<Rightarrow> msys \<Rightarrow> msys option" where
  "task_call TaskClose m = Monitor_Close m"
| "task_call TaskStop m = Monitor_Stop m"
| "task_call TaskStart m = map_option snd (Monitor_Start m)"

definition Execute_task :: "nat \<Rightarrow> xsys \<Rightarrow> xsys option" where
  "Execute_task i s =
     (if i < length (x_tasks s)
      then map_option (\<lambda>m. s\<lparr>x_mon := m, x_tasks := take i (x_tasks s) @ drop (Suc i) (x_tasks s)\<rparr>) (task_call (x_tasks s ! i) (x_mon s))
      else None)"

text \<open>The goroutines of the monitor; the other listener may be there to receive.\<close>

fun background :: "monitor_event \<Rightarrow> bool" where
  "background MoClosed = True"
| "background MoRest = True"
| "background MoUpdated = True"
| "background (MoPoller p e) = True"
| "background (MoBroadcast p j n) = True"
| "background (MoChannels BrDeliver) = True"
| "background (MoChannels (BrReceive c)) = (c \<noteq> 0)"
| "background _ = False"

definition Execute_monitor :: "monitor_event \<Rightarrow> xsys \<Rightarrow> xsys option" where
  "Execute_monitor e s =
     (if background e
      then map_option (\<lambda>m. s\<lparr>x_mon := m, x_pc := (if e = MoUpdated then XLoop else x_pc s)\<rparr>) (monitor_step e (x_mon s))
      else None)"

datatype x_event =
    XCallUpdate
  | XRequest request
  | XReceive
  | XReturn
  | XTask nat
  | XMonitor monitor_event

fun x_step :: "x_event \<Rightarrow> xsys \<Rightarrow> xsys option" where
  "x_step XCallUpdate s = Execute_update s"
| "x_step (XRequest r) s = Execute_select r s"
| "x_step XReceive s = Execute_receive s"
| "x_step XReturn s = Execute_deferred s"
| "x_step (XTask i) s = Execute_task i s"
| "x_step (XMonitor e) s = Execute_monitor e s"

section \<open>The log of an update\<close>

definition isCancellationErr :: "gerr \<Rightarrow> bool" where
  "isCancellationErr e \<longleftrightarrow> e = ErrCanceled \<or> e = ErrDeadlineExceeded"

text \<open>A line has the number of the backlog and the size of the update, group, hosts, and the error or the sum.\<close>

datatype watch_line =
    Warned nat nat string string string gerr
  | Informed nat nat string string string "64 word"

fun watch_loop :: "nat \<Rightarrow> nat \<Rightarrow> Backlog list \<Rightarrow> watch_line list" where
  "watch_loop i n [] = []"
| "watch_loop i n (b # bs) =
     (let i = i + 1
      in case b_Err b of
           Some e \<Rightarrow>
             (if \<not> isCancellationErr e then [Warned i n (g_Name (b_Group b)) (b_From b) (b_To b) e] else []) @ watch_loop i n bs
         | None \<Rightarrow>
             (if \<not> Backlog_IsZero b then [Informed i n (g_Name (b_Group b)) (b_From b) (b_To b) (Backlog_Sum b)] else []) @
             watch_loop i n bs)"

definition watchUpdate :: "nat \<Rightarrow> Backlog list \<Rightarrow> watch_line list" where
  "watchUpdate n bs = watch_loop 0 n bs"

section \<open>What the events leave alone\<close>

lemma fold_close_chans: "length (br_chans (fold close_chan ls b)) = length (br_chans b)"
  by (induction ls arbitrary: b) (simp_all add: close_chan_def)

definition same_channels :: "bsys \<Rightarrow> bsys \<Rightarrow> bool" where
  "same_channels b c \<longleftrightarrow> br_bc c = br_bc b \<and> length (br_chans c) = length (br_chans b)"

lemma same_channels_refl [simp]: "same_channels b b"
  by (simp add: same_channels_def)

lemma sent_to_channels [simp]: "same_channels b (sent_to c rest us n d) = same_channels b d"
  by (simp add: same_channels_def sent_to_def Let_def)

lemma broadcast_channels:
  assumes "broadcast_step e b = Some c" "e = BrDeliver \<or> (\<exists>i. e = BrReceive i) \<or> (\<exists>n. e = BrBroadcast n)"
  shows "same_channels b c"
  using assms
  by (auto simp: broadcast_step_def bc_deliver_def bc_receive_def bc_Broadcast_def Let_def split: if_splits option.splits list.splits prod.splits)
    (auto simp: same_channels_def)

lemma close_channels:
  "broadcast_step BrClose b = Some c \<Longrightarrow> bc_closed (br_bc c) \<and> length (br_chans c) = length (br_chans b)"
  using fold_close_chans close_frame by (auto simp: broadcast_step_def bc_Close_def Let_def set_listeners_def split: if_splits)

lemma background_frame:
  assumes "background e" "monitor_step e s = Some t"
  shows "mo_closed (ms_m t) = mo_closed (ms_m s)" "length (br_chans (ms_bc t)) = length (br_chans (ms_bc s))"
    "if e = MoRest then bc_closed (br_bc (ms_bc t)) \<and> ms_holder s = MoCloseRest \<and> ms_holder t = MoFree else br_bc (ms_bc t) = br_bc (ms_bc s)"
    "ms_holder t = MoUpdating p \<Longrightarrow> ms_holder s = MoUpdating p \<and> e \<noteq> MoUpdated" "ms_holder s = MoFree \<Longrightarrow> ms_holder t = MoFree"
    "e = MoUpdated \<Longrightarrow> \<exists>p. ms_holder s = MoUpdating p"
proof -
  have c: "same_channels (ms_bc s) b" if "broadcast_step k (ms_bc s) = Some b" "k = BrDeliver \<or> (\<exists>i. k = BrReceive i) \<or> (\<exists>n. k = BrBroadcast n)"
    for k b using broadcast_channels that by blast
  note d = Monitor_Closed_def Monitor_CloseRest_def Monitor_Updated_def monitor_poller_def monitor_broadcast_def monitor_bc_def
    set_poller_def set_instance_def set_bc_def
  show "mo_closed (ms_m t) = mo_closed (ms_m s)"
    using assms by (cases e) (auto simp: d split: mo_holder.splits if_splits)
  show "ms_holder t = MoUpdating p \<Longrightarrow> ms_holder s = MoUpdating p \<and> e \<noteq> MoUpdated"
    using assms by (cases e) (auto simp: d split: mo_holder.splits if_splits)
  show "ms_holder s = MoFree \<Longrightarrow> ms_holder t = MoFree"
    using assms by (cases e) (auto simp: d split: mo_holder.splits if_splits)
  show "e = MoUpdated \<Longrightarrow> \<exists>p. ms_holder s = MoUpdating p"
    using assms by (auto simp: d split: mo_holder.splits if_splits)
  show "length (br_chans (ms_bc t)) = length (br_chans (ms_bc s))"
    using assms c close_channels
    by (cases e rule: background.cases) (auto simp: d same_channels_def split: mo_holder.splits if_splits)
  show "if e = MoRest then bc_closed (br_bc (ms_bc t)) \<and> ms_holder s = MoCloseRest \<and> ms_holder t = MoFree else br_bc (ms_bc t) = br_bc (ms_bc s)"
    using assms c close_channels
    by (cases e rule: background.cases) (auto simp: d same_channels_def split: mo_holder.splits if_splits)
qed

lemma task_frame:
  assumes "msys_inv s" "task_call k s = Some t"
  shows "ms_bc t = ms_bc s" "mo_closed (ms_m t) = (mo_closed (ms_m s) \<or> k = TaskClose)" "ms_holder s = MoFree"
    "mo_closed (ms_m s) \<Longrightarrow> t = s" "ms_holder t \<noteq> MoUpdating p" "msys_inv t"
proof -
  note d = Monitor_Start_def Monitor_Stop_def Monitor_Close_def instance_Close_def set_poller_def set_instance_def
  show "ms_bc t = ms_bc s" "mo_closed (ms_m t) = (mo_closed (ms_m s) \<or> k = TaskClose)" "ms_holder s = MoFree"
    "ms_holder t \<noteq> MoUpdating p"
    using assms by (cases k; auto simp: d Let_def split: if_splits option.splits)+
  then have "mo_instance (ms_m s) = None" if "mo_closed (ms_m s)"
    using that assms(1) by (simp add: msys_inv_def end_inv_def)
  then show "mo_closed (ms_m s) \<Longrightarrow> t = s"
    using assms(2) by (cases k; auto simp: d split: if_splits)
  show "msys_inv t"
    using assms by (cases k) (auto intro: inv_Start inv_Stop inv_Monitor_Close)
qed

lemma update_frame:
  assumes "Monitor_Update s = Some t"
  shows "ms_bc t = ms_bc s" "mo_closed (ms_m t) = mo_closed (ms_m s)" "ms_holder s = MoFree" "mo_closed (ms_m s) \<Longrightarrow> t = s"
  using assms by (auto simp: Monitor_Update_def set_poller_def split: if_splits option.splits)

section \<open>The invariant\<close>

fun is_stop :: "request \<Rightarrow> bool" where
  "is_stop ReqStop = True"
| "is_stop ReqShutdown = True"
| "is_stop _ = False"

text \<open>The channel of Execute is listed until the broadcaster closes, which Close does last.\<close>

definition exec_chan_inv :: "msys \<Rightarrow> bool" where
  "exec_chan_inv m \<longleftrightarrow> 0 < length (br_chans (ms_bc m)) \<and>
     (if bc_closed (br_bc (ms_bc m)) then mo_closed (ms_m m) \<and> ms_holder m = MoFree else 0 \<in> set (bc_listeners (br_bc (ms_bc m))))"

definition x_pc_inv :: "xsys \<Rightarrow> bool" where
  "x_pc_inv s \<longleftrightarrow> (x_pc s = XDeferred \<or> x_pc s = XReturned \<longrightarrow> bc_closed (br_bc (ms_bc (x_mon s)))) \<and>
     (x_pc s = XUpdate \<or> x_pc s = XUpdating \<longrightarrow> x_log s = []) \<and>
     ((\<exists>p. ms_holder (x_mon s) = MoUpdating p) \<longrightarrow> x_pc s = XUpdating)"

definition x_stop_inv :: "xsys \<Rightarrow> bool" where
  "x_stop_inv s \<longleftrightarrow> list_ex is_stop (x_log s) = (TaskClose \<in> set (x_tasks s) \<or> mo_closed (ms_m (x_mon s)))"

definition x_inv :: "xsys \<Rightarrow> bool" where
  "x_inv s \<longleftrightarrow> msys_inv (x_mon s) \<and> exec_chan_inv (x_mon s) \<and> x_pc_inv s \<and> x_stop_inv s"

lemma x_inv_update:
  assumes "x_inv s" "Execute_update s = Some t"
  shows "x_inv t"
proof -
  obtain m where m: "Monitor_Update (x_mon s) = Some m" "x_pc s = XUpdate"
    "t = s\<lparr>x_mon := m, x_pc := (if ms_holder m = MoFree then XLoop else XUpdating)\<rparr>"
    using assms(2) by (auto simp: Execute_update_def split: if_splits)
  note f = update_frame [OF m(1)]
  have "msys_inv m" using mo_inv_Update [OF _ m(1)] assms(1) by (simp add: x_inv_def)
  with assms(1) f m(2) show ?thesis by (auto simp: m(3) x_inv_def exec_chan_inv_def x_pc_inv_def x_stop_inv_def)
qed

lemma request_frame [simp]:
  "x_mon (Execute_request r s) = x_mon s" "x_pc (Execute_request r s) = x_pc s" "x_log (Execute_request r s) = x_log s"
  "x_watched (Execute_request r s) = x_watched s"
  by (cases r; simp)+

lemma request_tasks: "TaskClose \<in> set (x_tasks (Execute_request r s)) \<longleftrightarrow> TaskClose \<in> set (x_tasks s) \<or> is_stop r"
  by (cases r) auto

lemma x_inv_request: "x_inv s \<Longrightarrow> Execute_select r s = Some t \<Longrightarrow> x_inv t"
  by (auto simp: Execute_select_def Let_def x_inv_def x_pc_inv_def x_stop_inv_def request_tasks split: if_splits)

lemma receive_frame:
  assumes "monitor_bc (BrReceive c) m = Some n"
  shows "same_channels (ms_bc m) (ms_bc n)" "ms_m n = ms_m m" "ms_holder n = ms_holder m"
  using assms broadcast_channels by (auto simp: monitor_bc_def set_bc_def)

lemma exec_chan_same:
  "exec_chan_inv m \<Longrightarrow> same_channels (ms_bc m) (ms_bc n) \<Longrightarrow> ms_m n = ms_m m \<Longrightarrow> ms_holder n = ms_holder m \<Longrightarrow> exec_chan_inv n"
  by (simp add: exec_chan_inv_def same_channels_def)

lemma monChan_closed:
  assumes "x_inv s" "bch_closed (monChan s)"
  shows "bc_closed (br_bc (ms_bc (x_mon s)))"
proof -
  have "listed_inv (br_bc (ms_bc (x_mon s))) (br_chans (ms_bc (x_mon s)))"
    using assms(1) broadcast_machine.reach_inv by (auto simp: x_inv_def msys_inv_def bc_inv_def bsys_inv_def)
  with assms show ?thesis by (auto simp: x_inv_def exec_chan_inv_def monChan_def listed_inv_def open_in_def split: if_splits)
qed

lemma x_inv_receive:
  assumes "x_inv s" "Execute_receive s = Some t"
  shows "x_inv t"
proof (cases "bch_queue (monChan s)")
  case Nil
  with assms(2) have "t = s\<lparr>x_pc := XDeferred\<rparr>" "bch_closed (monChan s)" "x_pc s = XLoop"
    by (auto simp: Execute_receive_def split: if_splits)
  with assms(1) monChan_closed [OF assms(1)] show ?thesis by (auto simp: x_inv_def x_pc_inv_def x_stop_inv_def)
next
  case (Cons u q)
  then obtain m where m: "monitor_bc (BrReceive 0) (x_mon s) = Some m" "x_pc s = XLoop" "t = s\<lparr>x_mon := m, x_watched := x_watched s @ [u]\<rparr>"
    using assms(2) by (auto simp: Execute_receive_def split: if_splits)
  note f = receive_frame [OF m(1)]
  have "msys_inv m" "exec_chan_inv m" using assms(1) m(1) f inv_monitor_bc exec_chan_same by (auto simp: x_inv_def)
  with assms(1) f m(2) show ?thesis by (auto simp: m(3) x_inv_def x_pc_inv_def x_stop_inv_def)
qed

lemma x_inv_deferred:
  assumes "x_inv s" "Execute_deferred s = Some t"
  shows "x_inv t"
proof -
  obtain m where m: "Monitor_Close (x_mon s) = Some m" "x_pc s = XDeferred" "t = s\<lparr>x_mon := m, x_pc := XReturned\<rparr>"
    using assms(2) by (auto simp: Execute_deferred_def split: if_splits)
  have "bc_closed (br_bc (ms_bc (x_mon s)))" using assms(1) m(2) by (simp add: x_inv_def x_pc_inv_def)
  with assms(1) have "mo_closed (ms_m (x_mon s))" by (simp add: x_inv_def exec_chan_inv_def)
  with m(1) have "m = x_mon s" by (simp add: Monitor_Close_def split: if_splits)
  with assms(1) m show ?thesis by (auto simp: x_inv_def x_pc_inv_def x_stop_inv_def)
qed

lemma drop_nth_set: "i < length ks \<Longrightarrow> set (take i ks @ drop (Suc i) ks) \<union> {ks ! i} = set ks"
  using arg_cong [OF id_take_nth_drop, of i ks set] by auto

lemma x_inv_task:
  assumes "x_inv s" "Execute_task i s = Some t"
  shows "x_inv t"
proof -
  define ks where "ks = take i (x_tasks s) @ drop (Suc i) (x_tasks s)"
  obtain m where m: "task_call (x_tasks s ! i) (x_mon s) = Some m" "i < length (x_tasks s)" "t = s\<lparr>x_mon := m, x_tasks := ks\<rparr>"
    using assms(2) by (auto simp: Execute_task_def ks_def split: if_splits)
  have inv: "msys_inv (x_mon s)" using assms(1) by (simp add: x_inv_def)
  note f = task_frame [OF inv m(1)]
  have "exec_chan_inv m"
  proof (cases "bc_closed (br_bc (ms_bc (x_mon s)))")
    case True
    with assms(1) have "mo_closed (ms_m (x_mon s))" by (simp add: x_inv_def exec_chan_inv_def)
    from f(4) [OF this] assms(1) show ?thesis by (simp add: x_inv_def)
  next
    case False
    with assms(1) show ?thesis by (simp add: x_inv_def exec_chan_inv_def f(1))
  qed
  moreover have e: "set (x_tasks s) = set ks \<union> {x_tasks s ! i}" using drop_nth_set [OF m(2)] by (simp only: ks_def)
  have ks: "TaskClose \<in> set (x_tasks s) \<longleftrightarrow> TaskClose \<in> set ks \<or> x_tasks s ! i = TaskClose"
    by (auto simp only: e Un_iff singleton_iff)
  have "list_ex is_stop (x_log s) = (TaskClose \<in> set (x_tasks s) \<or> mo_closed (ms_m (x_mon s)))"
    using assms(1) by (simp add: x_inv_def x_stop_inv_def)
  then have "x_stop_inv t" unfolding x_stop_inv_def m(3) by (simp add: f(2)) (use ks in blast)
  moreover have "x_pc_inv t" using assms(1) f(5) by (simp add: m(3) x_inv_def x_pc_inv_def f(1))
  ultimately show ?thesis using f(6) by (simp add: m(3) x_inv_def)
qed

lemma x_inv_monitor:
  assumes "x_inv s" "Execute_monitor e s = Some t"
  shows "x_inv t"
proof -
  obtain m where m: "monitor_step e (x_mon s) = Some m" "background e"
    "t = s\<lparr>x_mon := m, x_pc := (if e = MoUpdated then XLoop else x_pc s)\<rparr>"
    using assms(2) by (auto simp: Execute_monitor_def split: if_splits)
  have inv: "msys_inv (x_mon s)" using assms(1) by (simp add: x_inv_def)
  note f = background_frame [OF m(2,1)]
  have rest: "mo_closed (ms_m (x_mon s))" if "e = MoRest"
    using f(3) that inv by (simp add: msys_inv_def holder_inv_def)
  have "exec_chan_inv m"
  proof (cases "e = MoRest")
    case True
    with f(2,3) rest f(1) assms(1) show ?thesis by (simp add: x_inv_def exec_chan_inv_def)
  next
    case False
    with f(3) have "br_bc (ms_bc m) = br_bc (ms_bc (x_mon s))" by simp
    with assms(1) f(1,2,5) show ?thesis by (simp add: x_inv_def exec_chan_inv_def split: if_splits)
  qed
  moreover have "bc_closed (br_bc (ms_bc m))" if "bc_closed (br_bc (ms_bc (x_mon s)))"
    using f(3) that by (simp split: if_splits)
  moreover have "x_pc s = XUpdating" if "e = MoUpdated"
    using f(6) that assms(1) by (auto simp: x_inv_def x_pc_inv_def)
  moreover have "msys_inv m" using inv m(1) by (rule msys_inv_step)
  ultimately show ?thesis using assms(1) f(1,4) by (auto simp: m(3) x_inv_def x_pc_inv_def x_stop_inv_def split: if_splits)
qed

lemma x_inv_step: "x_inv s \<Longrightarrow> x_step e s = Some t \<Longrightarrow> x_inv t"
  by (cases e) (auto intro: x_inv_update x_inv_request x_inv_receive x_inv_deferred x_inv_task x_inv_monitor)

lemma listen_inv:
  assumes "msys_inv m" "\<not> bc_closed (br_bc (ms_bc m))" "br_loop (ms_bc m) = None"
  shows "msys_inv (Execute_listen k m)" "\<not> bc_closed (br_bc (ms_bc (Execute_listen k m)))"
    "br_loop (ms_bc (Execute_listen k m)) = None" "ms_m (Execute_listen k m) = ms_m m" "ms_holder (Execute_listen k m) = ms_holder m"
    "bc_listeners (br_bc (ms_bc (Execute_listen k m))) = bc_listeners (br_bc (ms_bc m)) @ [length (br_chans (ms_bc m))]"
    "length (br_chans (ms_bc (Execute_listen k m))) = Suc (length (br_chans (ms_bc m)))"
proof -
  have w: "ms_broadcaster m = None" using assms(1,3) by (simp add: msys_inv_def bc_inv_def)
  have "bsys_inv (ms_bc m)" using assms(1) broadcast_machine.reach_inv by (auto simp: msys_inv_def bc_inv_def)
  then have p: "\<not> br_panic (ms_bc m)" by (simp add: bsys_inv_def)
  obtain ch b where b: "bc_Listen (int k) (ms_bc m) = Some (ch, b)" "br_loop b = None"
    using assms(2,3) by (auto simp: bc_Listen_def bc_free_def set_listeners_def Let_def)
  then have e: "Execute_listen k m = m\<lparr>ms_bc := b\<rparr>" by (simp add: Execute_listen_def)
  have "monitor_step (MoChannels (BrListen k)) m = Some (Execute_listen k m)"
    using b w p e by (cases m) (simp add: monitor_bc_def broadcast_step_def set_bc_def)
  with assms(1) show "msys_inv (Execute_listen k m)" by (rule msys_inv_step)
  show "\<not> bc_closed (br_bc (ms_bc (Execute_listen k m)))"
    "br_loop (ms_bc (Execute_listen k m)) = None" "ms_m (Execute_listen k m) = ms_m m" "ms_holder (Execute_listen k m) = ms_holder m"
    "bc_listeners (br_bc (ms_bc (Execute_listen k m))) = bc_listeners (br_bc (ms_bc m)) @ [length (br_chans (ms_bc m))]"
    "length (br_chans (ms_bc (Execute_listen k m))) = Suc (length (br_chans (ms_bc m)))"
    using b assms(2,3) e by (auto simp: bc_Listen_def bc_free_def set_listeners_def Let_def split: if_splits)
qed

lemma start_frame:
  "Monitor_Start m = Some (r, n) \<Longrightarrow>
   ms_bc n = ms_bc m \<and> mo_closed (ms_m n) = mo_closed (ms_m m) \<and> ms_holder m = MoFree \<and> ms_holder n = MoFree"
  by (auto simp: Monitor_Start_def set_instance_def split: if_splits)

lemma x_inv_init: "x_init s \<Longrightarrow> x_inv s"
proof -
  assume "x_init s"
  then obtain settings where b: "Execute_begin settings None None = Inl s" by (auto simp: x_init_def)
  define m0 where "m0 = msys_new (se_BacklogPollingInterval settings) (se_BacklogPollingTimeout settings)
      (se_VectorCacheDuration settings) (unat (se_Limit settings))"
  define m1 where "m1 = Execute_listen 16 m0"
  define m2 where "m2 = (if se_StatHatKey settings \<noteq> [] then Execute_listen 16 m1 else m1)"
  have i0: "msys_inv m0" by (rule msys_inv_init) (auto simp: m0_def msys_init_def)
  have o0: "\<not> bc_closed (br_bc (ms_bc m0))" "br_loop (ms_bc m0) = None" "\<not> mo_closed (ms_m m0)" "ms_holder m0 = MoFree"
    by (simp_all add: m0_def msys_new_def bsys0_def broadcaster_zero_def Monitor_New_def)
  have c0: "bc_listeners (br_bc (ms_bc m0)) = []" "br_chans (ms_bc m0) = []"
    by (simp_all add: m0_def msys_new_def bsys0_def broadcaster_zero_def)
  note l1 = listen_inv [OF i0 o0(1,2), of 16, folded m1_def]
  note l2 = listen_inv [OF l1(1,2,3), of 16]
  have m2: "msys_inv m2" "\<not> bc_closed (br_bc (ms_bc m2))" "\<not> mo_closed (ms_m m2)" "0 \<in> set (bc_listeners (br_bc (ms_bc m2)))"
    "0 < length (br_chans (ms_bc m2))"
    using l1 l2 o0 c0 by (simp_all add: m2_def del: length_greater_0_conv)
  have b': "(case Monitor_Start m2 of
      Some (None, mon) \<Rightarrow> Inl \<lparr>x_mon = mon, x_pc = XUpdate, x_tasks = [], x_status = [StartPending, Running], x_log = [], x_watched = []\<rparr>
    | _ \<Rightarrow> Inr (True, 1 :: nat)) = Inl s"
    using b by (cases "se_StatHatKey settings = []") (simp_all add: Execute_begin_def Let_def m0_def m1_def m2_def)
  then obtain m where m: "Monitor_Start m2 = Some (None, m)"
    "s = \<lparr>x_mon = m, x_pc = XUpdate, x_tasks = [], x_status = [StartPending, Running], x_log = [], x_watched = []\<rparr>"
    by (auto split: option.splits prod.splits)
  note f = start_frame [OF m(1)]
  from m2(1) m(1) have "msys_inv m" by (rule inv_Start)
  with f m2 show "x_inv s" by (simp add: m(2) x_inv_def exec_chan_inv_def x_pc_inv_def x_stop_inv_def)
qed

interpretation execute_machine: inductive_invariant x_step x_init x_inv
  by unfold_locales (fact x_inv_init, fact x_inv_step)

section \<open>Execute returns\<close>

lemma run_background:
  assumes "run monitor_step (x_mon s) es = Some m" "list_all winding es"
  shows "\<exists>t. run x_step s (map XMonitor es) = Some t \<and> x_mon t = m \<and> x_tasks t = x_tasks s \<and> x_log t = x_log s \<and>
    (x_pc t = x_pc s \<or> x_pc t = XLoop)"
  using assms
proof (induction es arbitrary: s)
  case (Cons e es)
  then obtain m1 where m1: "monitor_step e (x_mon s) = Some m1" "run monitor_step m1 es = Some m" by (auto split: option.splits)
  have "background e" using Cons.prems(2) by (cases e) auto
  then have "x_step (XMonitor e) s = Some (s\<lparr>x_mon := m1, x_pc := (if e = MoUpdated then XLoop else x_pc s)\<rparr>)"
    using m1(1) by (simp add: Execute_monitor_def)
  moreover obtain t where "run x_step (s\<lparr>x_mon := m1, x_pc := (if e = MoUpdated then XLoop else x_pc s)\<rparr>) (map XMonitor es) = Some t"
    "x_mon t = m" "x_tasks t = x_tasks s" "x_log t = x_log s" "x_pc t = x_pc s \<or> x_pc t = XLoop"
    using Cons.IH [of "s\<lparr>x_mon := m1, x_pc := (if e = MoUpdated then XLoop else x_pc s)\<rparr>"] m1(2) Cons.prems(2) by (auto split: if_splits)
  ultimately show ?case by auto
qed simp

text \<open>With the broadcaster closed, Execute reads what is left in its channel and returns.\<close>

lemma drained:
  assumes "x_inv s" "x_pc s = XLoop" "bc_closed (br_bc (ms_bc (x_mon s)))"
  shows "\<exists>es t. run x_step s es = Some t \<and> x_pc t = XReturned"
  using assms
proof (induction "length (bch_queue (monChan s))" arbitrary: s)
  case 0
  have c: "mo_closed (ms_m (x_mon s))" "ms_holder (x_mon s) = MoFree" "0 < length (br_chans (ms_bc (x_mon s)))"
    using 0 by (auto simp: x_inv_def exec_chan_inv_def)
  have "list_all bch_closed (br_chans (ms_bc (x_mon s)))" using closed_complete(4) [OF _ c(1,2)] 0 by (simp add: x_inv_def)
  with c(3) have "bch_closed (monChan s)" by (simp add: monChan_def list_all_length)
  with 0 c have "run x_step s [XReceive, XReturn] = Some (s\<lparr>x_pc := XReturned\<rparr>)"
    by (simp add: Execute_receive_def Execute_deferred_def Monitor_Close_def)
  then show ?case by fastforce
next
  case (Suc n)
  then obtain u q where q: "bch_queue (monChan s) = u # q" by (cases "bch_queue (monChan s)") simp_all
  have l: "0 < length (br_chans (ms_bc (x_mon s)))" using Suc.prems by (simp add: x_inv_def exec_chan_inv_def)
  have "bsys_inv (ms_bc (x_mon s))" using Suc.prems(1) broadcast_machine.reach_inv by (auto simp: x_inv_def msys_inv_def bc_inv_def)
  with q l obtain b where b: "broadcast_step (BrReceive 0) (ms_bc (x_mon s)) = Some b" "bch_queue (br_chans b ! 0) = q"
    by (auto simp: broadcast_step_def bc_receive_def Let_def monChan_def bsys_inv_def)
  then obtain m where m: "monitor_bc (BrReceive 0) (x_mon s) = Some m" "ms_bc m = b" by (auto simp: monitor_bc_def set_bc_def)
  let ?t = "s\<lparr>x_mon := m, x_watched := x_watched s @ [u]\<rparr>"
  have t: "x_step XReceive s = Some ?t" using Suc.prems(2) q m(1) by (simp add: Execute_receive_def)
  then have i: "x_inv ?t" using Suc.prems(1) x_inv_step by blast
  have "br_bc (ms_bc m) = br_bc (ms_bc (x_mon s))" using receive_frame [OF m(1)] by (simp add: same_channels_def)
  moreover have "n = length (bch_queue (monChan ?t))" using Suc(2) q b(2) m(2) by (simp add: monChan_def)
  ultimately obtain es t' where "run x_step ?t es = Some t'" "x_pc t' = XReturned"
    using Suc.hyps(1) [of ?t] i Suc.prems by auto
  with t show ?case by (intro exI [of _ "XReceive # es"]) auto
qed

text \<open>The goroutine of a stop request closes the monitor.\<close>

lemma close_runs:
  assumes "x_inv s" "ms_holder (x_mon s) = MoFree" "ms_broadcaster (x_mon s) = None" "\<not> mo_closed (ms_m (x_mon s))"
    "TaskClose \<in> set (x_tasks s)"
  shows "\<exists>es t. run x_step s es = Some t \<and> mo_closed (ms_m (x_mon t)) \<and> ms_broadcaster (x_mon t) = None \<and> (x_pc t = x_pc s \<or> x_pc t = XLoop)"
proof -
  obtain i where i: "i < length (x_tasks s)" "x_tasks s ! i = TaskClose" using assms(5) by (auto simp: in_set_conv_nth)
  have inv: "msys_inv (x_mon s)" using assms(1) by (simp add: x_inv_def)
  have "\<exists>es m n. run monitor_step (x_mon s) es = Some m \<and> list_all winding es \<and> Monitor_Close m = Some n \<and> mo_closed (ms_m n) \<and>
    ms_broadcaster n = None"
  proof (cases "mo_instance (ms_m (x_mon s))")
    case None
    with assms(2-4) show ?thesis by (intro exI [of _ "[]"]) (simp add: Monitor_Close_def)
  next
    case (Some p)
    from pulse_taken [OF inv Some assms(4)] assms(2) obtain es x where
      x: "run monitor_step (x_mon s) es = Some (set_poller p x (x_mon s))" "list_all winding es" "ps_poll_caller x = None" by auto
    have m: "msys_inv (set_poller p x (x_mon s))" using monitor_machine.run_inv [OF inv x(1)] .
    have l: "p < length (ms_pollers (x_mon s))" using inv Some by (simp add: msys_inv_def pollers_inv_def)
    have "ps_closers x 0 = ClIdle" using m Some l assms(2) by (auto simp: msys_inv_def holder_inv_def set_poller_def)
    with x(3) have "\<exists>y. poller_step (PoClose 0) x = Some y" by (simp add: Poller_Close_def mutex_free_def)
    then obtain n where "Monitor_Close (set_poller p x (x_mon s)) = Some n" "mo_closed (ms_m n)" "ms_broadcaster n = None"
      using assms(2-4) Some l by (auto simp: Monitor_Close_def instance_Close_def set_poller_def Let_def)
    with x show ?thesis by blast
  qed
  then obtain es m n where n: "run monitor_step (x_mon s) es = Some m" "list_all winding es" "Monitor_Close m = Some n"
    "mo_closed (ms_m n)" "ms_broadcaster n = None" by blast
  from run_background [OF n(1,2)] obtain t where t: "run x_step s (map XMonitor es) = Some t" "x_mon t = m" "x_tasks t = x_tasks s"
    "x_pc t = x_pc s \<or> x_pc t = XLoop" by blast
  from t n(3) i have "x_step (XTask i) t = Some (t\<lparr>x_mon := n, x_tasks := take i (x_tasks t) @ drop (Suc i) (x_tasks t)\<rparr>)"
    by (simp add: Execute_task_def)
  with t(1) have "run x_step s (map XMonitor es @ [XTask i]) = Some (t\<lparr>x_mon := n, x_tasks := take i (x_tasks t) @ drop (Suc i) (x_tasks t)\<rparr>)"
    by (simp add: run_append)
  with n(4,5) t(4) show ?thesis by fastforce
qed

lemma execute_stops:
  assumes inv: "x_inv s" and r: "list_ex is_stop (x_log s)" and b: "ms_broadcaster (x_mon s) = None"
  shows "\<exists>es t. run x_step s es = Some t \<and> x_pc t = XReturned"
proof (cases "x_pc s = XReturned")
  case True
  then show ?thesis by (intro exI [of _ "[]"]) simp
next
  case False
  have nu: "x_log s \<noteq> []" using r by auto
  have free: "\<exists>es t. run x_step u es = Some t \<and> ms_holder (x_mon t) = MoFree \<and> ms_broadcaster (x_mon t) = None \<and>
      mo_closed (ms_m (x_mon t)) = mo_closed (ms_m (x_mon u)) \<and> x_tasks t = x_tasks u \<and> (x_pc t = x_pc u \<or> x_pc t = XLoop)"
    if "x_inv u" "ms_broadcaster (x_mon u) = None" for u
  proof -
    from holder_frees [of "x_mon u"] that obtain es m where
      "run monitor_step (x_mon u) es = Some m" "ms_holder m = MoFree" "ms_broadcaster m = None"
      "mo_closed (ms_m m) = mo_closed (ms_m (x_mon u))" "list_all winding es" by (auto simp: x_inv_def)
    with run_background [of u es m] show ?thesis by blast
  qed
  from free [OF inv b] obtain es1 s1 where s1: "run x_step s es1 = Some s1" "ms_holder (x_mon s1) = MoFree" "ms_broadcaster (x_mon s1) = None"
    "mo_closed (ms_m (x_mon s1)) = mo_closed (ms_m (x_mon s))" "x_tasks s1 = x_tasks s" "x_pc s1 = x_pc s \<or> x_pc s1 = XLoop" by blast
  have i1: "x_inv s1" using execute_machine.run_inv [OF inv s1(1)] .
  have "\<exists>es t. run x_step s1 es = Some t \<and> mo_closed (ms_m (x_mon t)) \<and> ms_broadcaster (x_mon t) = None \<and> (x_pc t = x_pc s1 \<or> x_pc t = XLoop)"
  proof (cases "mo_closed (ms_m (x_mon s))")
    case True
    with s1 show ?thesis by (intro exI [of _ "[]"]) simp
  next
    case False
    with inv r have "TaskClose \<in> set (x_tasks s1)" using s1(5) by (simp add: x_inv_def x_stop_inv_def)
    with close_runs [OF i1 s1(2,3)] False s1(4) show ?thesis by simp
  qed
  then obtain es2 s2 where s2: "run x_step s1 es2 = Some s2" "mo_closed (ms_m (x_mon s2))" "ms_broadcaster (x_mon s2) = None"
    "x_pc s2 = x_pc s1 \<or> x_pc s2 = XLoop" by blast
  have i2: "x_inv s2" using execute_machine.run_inv [OF i1 s2(1)] .
  from free [OF i2 s2(3)] s2(2) obtain es3 s3 where s3: "run x_step s2 es3 = Some s3" "ms_holder (x_mon s3) = MoFree"
    "mo_closed (ms_m (x_mon s3))" "x_pc s3 = x_pc s2 \<or> x_pc s3 = XLoop" by blast
  have i3: "x_inv s3" using execute_machine.run_inv [OF i2 s3(1)] .
  have c: "bc_closed (br_bc (ms_bc (x_mon s3)))" using closed_complete(3) [OF _ s3(3,2)] i3 by (simp add: x_inv_def)
  have r3: "run x_step s (es1 @ es2 @ es3) = Some s3" using s1(1) s2(1) s3(1) by (simp add: run_append)
  have "x_pc s \<noteq> XUpdate" "x_pc s \<noteq> XUpdating" using inv nu by (auto simp: x_inv_def x_pc_inv_def)
  with False s1(6) s2(4) s3(4) consider "x_pc s3 = XLoop" | "x_pc s3 = XDeferred" by (cases "x_pc s") auto
  then show ?thesis
  proof cases
    case 1
    from drained [OF i3 1 c] r3 show ?thesis by (metis option.case(2) run_append)
  next
    case 2
    with s3(2,3) have "run x_step s3 [XReturn] = Some (s3\<lparr>x_pc := XReturned\<rparr>)"
      by (simp add: Execute_deferred_def Monitor_Close_def)
    with r3 have "run x_step s ((es1 @ es2 @ es3) @ [XReturn]) = Some (s3\<lparr>x_pc := XReturned\<rparr>)" by (simp only: run_append) simp
    then show ?thesis by fastforce
  qed
qed

section \<open>Properties\<close>

lemma begin_reach: "Execute_begin settings None None = Inl s \<Longrightarrow> run x_step s es = Some t \<Longrightarrow> reach x_step x_init t"
  by (rule run_reach) (auto simp: x_init_def)

lemma begin_errors: "Execute_begin settings s r = Inr x \<Longrightarrow> x = (True, 2) \<and> (s \<noteq> None \<or> r \<noteq> None)"
  by (auto simp: Execute_begin_def Let_def Execute_listen_def Monitor_Start_def msys_new_def Monitor_New_def bc_Listen_def bsys0_def
      broadcaster_zero_def bc_free_def set_listeners_def split: if_splits)


definition xsys0 :: xsys where
  "xsys0 = (case Execute_begin DefaultSettings None None of Inl s \<Rightarrow> s | Inr _ \<Rightarrow> undefined)"

lemma xsys0_begin: "Execute_begin DefaultSettings None None = Inl xsys0"
  using begin_errors [of DefaultSettings None None] by (auto simp: xsys0_def split: sum.split)

lemmas execute_run_simps = xsys0_def Execute_begin_def Execute_listen_def Execute_update_def Execute_select_def Execute_receive_def
  Execute_deferred_def Execute_task_def Execute_monitor_def monChan_def DefaultSettings_def Let_def monitor_run_simps

definition stop_events :: "x_event list" where
  "stop_events = [XCallUpdate, XMonitor (MoPoller 0 PoRunPulse), XMonitor MoUpdated, XRequest (Interrogate 4), XRequest ReqStop, XTask 0,
     XMonitor MoClosed, XMonitor MoRest, XReceive, XReturn]"




text \<open>What watchUpdate logs: the errors that are not cancellations, and the backlogs that are not zero.\<close>

lemma watch_lines:
  "length (watchUpdate n bs) = length (filter (\<lambda>b. case b_Err b of Some e \<Rightarrow> \<not> isCancellationErr e | None \<Rightarrow> \<not> Backlog_IsZero b) bs)"
proof -
  have "length (watch_loop i n bs) =
      length (filter (\<lambda>b. case b_Err b of Some e \<Rightarrow> \<not> isCancellationErr e | None \<Rightarrow> \<not> Backlog_IsZero b) bs)" for i
    by (induction bs arbitrary: i) (auto simp: Let_def split: option.splits)
  then show ?thesis by (simp add: watchUpdate_def)
qed

section \<open>What goes wrong\<close>

text \<open>
  The goroutines of pause and continue are not ordered: when the later one gets the mutex first, Start finds
  the monitor running and Stop stops it, and the service reports that it runs while nothing polls.
\<close>

lemma paused_for_good:
  "\<exists>s. run x_step xsys0 [XCallUpdate, XMonitor (MoPoller 0 PoRunPulse), XMonitor MoUpdated, XRequest ReqPause, XRequest ReqContinue,
       XTask 1, XTask 0, XMonitor MoClosed] = Some s \<and>
     last (x_status s) = Running \<and> x_tasks s = [] \<and> mo_instance (ms_m (x_mon s)) = None \<and> \<not> mo_closed (ms_m (x_mon s))"
  by (simp add: execute_run_simps)

end
