(* ===== verification/Spec2Isabelle.thy ===== *)
theory Spec2Isabelle imports Client Worker Dfsrconfig DomainMonitor Consumer BacklogCmd ManifestMain Element DirectoryCmds Service begin

text \<open>
  A verification development for gopkg.in/dfsr.v0, a Go library and set of tools that watch Microsoft's
  Distributed File System Replication. The program reads the replication configuration of a
  domain from the directory (dfsrconfig), asks the members of the replication groups for the
  number of files that they still have to receive (helper, over cache, versionvector, callstat),
  does so again and again for all enabled connections (monitor, over poller and valuesink), hands the
  results to listeners (monitor/broadcaster.go, monitor/update.go, and the consumer for StatHat),
  and has command line tools and a Windows service around that (cmd, svc). A part of its own reads
  the manifests of conflicting and deleted files (manifest, cmd/dfsrmanifest).

  \<^bold>\<open>How the code is modelled.\<close> A struct is a record and a method is a function from the state to the new
  state, named like the method with the type's name in front. An error is a value of \<open>gerr\<close>; a
  function that may panic returns an \<open>outcome\<close>; results and error are returned as the code
  returns them. An int or uint is a 64-bit word wherever it may overflow. A component with
  goroutines is a machine: a step function on its state, with one event for each stretch of one
  goroutine between two points at which it can block or be seen by others (mostly: one event per
  section under a mutex), and None where the event cannot happen now. What is proved of a
  machine holds in every reachable state, or on every run, whatever the scheduler does. Packages
  outside the repository, the network, the directory and the clock are parameters or arguments of
  the definitions.

  \<^bold>\<open>Theories, from the bottom up.\<close>
  \<^item> Prelude: the Go types and string functions that the code uses, finite maps with their
    contract (locale \<open>go_map\<close>), machines with reachability, and the locales of an
    \<open>inductive_invariant\<close> and of a \<open>trap\<close>, a state that no event leaves.
  \<^item> Cache (cache/cache.go): the expiring cache, its operations under the lock. Evicting expired
    entries changes no answer; every accepted value is released exactly once.
    CacheMachine adds the callers of Value and Lookup, the goroutines of retrieve and cleanup and
    the lock: one lookup per key in flight, refinement of the sequential reading of Lookup, health
    of an open cache; and two traps that the code has, a cancelled lookup and a lock that is lost.
  \<^item> Callstat (callstat/call.go), VersionVector (versionvector): call records; vectors with their
    ownership in a store, and their cache, an instance of Cache.
  \<^item> DfsrTypes (dfsr, dname): configuration and backlog data, member maps, distinguished names, with
    exact sums and the round trip of domain names.
  \<^item> ValueSink (valuesink/sink.go): the last good value and its waiters; refinement of the contract
    and release of every waiter.
  \<^item> Poller (poller/poller.go): at most one poll at a time, and Close completes.
  \<^item> Endpoint (helper/endpoint.go): one managed connection with its goroutine, timer and channels;
    no panic, no leak of a connection, reconnection after a failure.
  \<^item> Reporter (helper/reporter.go, limiter.go, worker.go, cacher.go, helper/api): the remote calls and the
    layers in front of them, whose common contract is a locale (\<open>vector_reporter\<close>, \<open>tidy_reporter\<close>)
    interpreted at each layer on top of the one below. Client (helper/client.go): one endpoint
    per name, and the backlog query that uses two of them.
  \<^item> Update (monitor/update.go), Broadcaster (monitor/broadcaster.go), Worker (monitor/worker.go), Monitor
    (monitor/monitor.go): what a listener gets, who gets an update, one round of polling, and
    starting and stopping; each is composed of the machines below it.
  \<^item> Dfsrconfig (dfsrconfig/client*.go, fetch.go, utility.go, membercache): the configuration
    client. A function is a program over the shared member cache and the directory's handles;
    Groups interleaves one program per group. The cache changes no result, all groups or none are
    returned, and handles are closed. DomainMonitor (dfsrconfig/domainmonitor.go): a refinement of the
    machine of Monitor, with what Value returns and when it panics.
    DirectoryCmds (cmd/rglist, fetch.go): the lister of groups and the other small users of the client.
  \<^item> Manifest (manifest, manifest/mfilter), ManifestCmd (cmd/dfsrmanifest, dfsrflag): streams of records
    with filters and statistics, the search for the file, and the command around it. ManifestMain
    (main.go, output.go): the goroutines that read the paths and the channels that main prints; the
    output does not depend on their order, and the tool ends.
    Element (manifest/resource.go, time.go, type.go, source.go): the decoding of one element over the trees of
    encoding/xml, with the type of a well-formed element, the round trip of what the service writes, and what
    the statistics of a whole document are; the sources of a manifest.
  \<^item> BacklogCmd (cmd/backlog) and Consumer (monitor/consumer/stathatconsumer): which connections the tool
    queries and what it prints; what is posted to StatHat.
  \<^item> ServiceConfig, ServiceInstall, Service (svc/dfsrmonitor): the settings as arguments and back,
    installation and removal over the state of the machine, and the loop of Execute on top of the machine of
    the monitor: it returns only when told to, with everything closed, and it can always do so.

  \<^bold>\<open>What the lemmas show.\<close> In each theory the definitions come first, in the order of the code. Lemmas
  about single operations (what they change and what they leave alone) carry the invariant of the
  machine, which one interpretation of \<open>inductive_invariant\<close> proves; the properties at the end
  of the theory follow from it, with a witness on concrete data where they have a hypothesis. Where
  the code does not do what it means to, a lemma or property says what it does instead.

  \<^bold>\<open>Bounds and fuel.\<close> No definition has fuel: the loops of the code are recursions over what is left to
  do, and machines run as long as the scheduler likes. Liveness is stated as the existence of a
  continuation from every reachable state, as a bound on the number of steps, or both. Instants
  are integers and durations are compared as such, since Go's limits of 292 years are never
  reached; Time.Sub saturates.

  \<^bold>\<open>Not modelled.\<close> The vtables and identifiers of the COM interfaces in helper/api; the service control manager, the event log, the directory and the file system themselves (their answers are
  arguments); how package flag takes a command line apart, the profiles, and the formatting of printed lines in the commands.
  encoding/xml, package time and strconv are modelled as far as the decoder of the manifest uses them, without
  attributes and namespaces, which it does not look at. Go's memory model below the mutexes is not modelled
  either; a section under a mutex is atomic, and fields that the code reads without the lock are
  read in one event.
\<close>

end
